(* ===== verification/Sas_Prelude.thy ===== *)
theory Sas_Prelude
  imports Main "HOL-Library.Word" "HOL-Library.Multiset"
begin

text \<open>
  The prelude of the development: the machine integers of the platform the
  code is modelled for (LP64, little endian, two's complement, signed
  \<open>char\<close>), the result type in which undefined behaviour is a value, the
  facts on lists and words that the components share, and the
  \<open>named_theorems\<close> collections their proofs draw on.
\<close>

named_theorems res_simps \<open>evaluation of results\<close>
named_theorems long_simps \<open>reading of signed 64 bit values\<close>
named_theorems layout_simps \<open>bytes of a struct in memory\<close>

section \<open>Machine integers\<close>

type_synonym u8 = "8 word"
type_synonym u16 = "16 word"
type_synonym u32 = "32 word"
type_synonym u64 = "64 word"

text \<open>C's \<open>long\<close>: 64 bits, read with \<open>sint\<close>.\<close>

type_synonym long = "64 word"

text \<open>C's \<open>int\<close> and \<open>int32_t\<close>: 32 bits, read with \<open>sint\<close>.\<close>

type_synonym i32 = "32 word"

type_synonym bytes = "u8 list"

abbreviation LONG_MAX :: long where
  "LONG_MAX \<equiv> 0x7FFFFFFFFFFFFFFF"

abbreviation LONG_MIN :: long where
  "LONG_MIN \<equiv> 0x8000000000000000"

lemma sint_LONG_MAX [simp, long_simps]: "sint LONG_MAX = 2 ^ 63 - 1"
  by simp

lemma sint_LONG_MIN [simp, long_simps]: "sint LONG_MIN = - (2 ^ 63)"
  by simp

lemma long_range: "- (2 ^ 63) \<le> sint (x :: long) \<and> sint x < 2 ^ 63"
  using sint_ge [of x] sint_lt [of x] by simp

lemma long_eq_iff: "(x :: long) = y \<longleftrightarrow> sint x = sint y"
  by (rule word_eq_iff_signed)

lemma LONG_MIN_iff [long_simps]: "x = LONG_MIN \<longleftrightarrow> sint x = - (2 ^ 63)"
  by (simp add: long_eq_iff)

lemma LONG_MAX_iff [long_simps]: "x = LONG_MAX \<longleftrightarrow> sint x = 2 ^ 63 - 1"
  by (simp add: long_eq_iff)

lemma wrap_64:
  fixes a :: int
  assumes "- (2 ^ 64) \<le> a" "a < 2 ^ 64"
  shows "(a + 2 ^ 63) mod 2 ^ 64 - 2 ^ 63 =
    (if 2 ^ 63 \<le> a then a - 2 ^ 64 else if a < - (2 ^ 63) then a + 2 ^ 64 else a)"
proof -
  consider "2 ^ 63 \<le> a" | "a < - (2 ^ 63)" | "- (2 ^ 63) \<le> a" "a < 2 ^ 63"
    by linarith
  then show ?thesis
  proof cases
    case 1
    then have "(a + 2 ^ 63 - 2 ^ 64) mod 2 ^ 64 = a + 2 ^ 63 - 2 ^ 64"
      using assms by (intro mod_pos_pos_trivial) auto
    then have "(a + 2 ^ 63) mod 2 ^ 64 = a + 2 ^ 63 - 2 ^ 64"
      by (metis minus_mod_self2)
    with 1 show ?thesis by simp
  next
    case 2
    then have "(a + 2 ^ 63 + 2 ^ 64) mod 2 ^ 64 = a + 2 ^ 63 + 2 ^ 64"
      using assms by (intro mod_pos_pos_trivial) auto
    then have "(a + 2 ^ 63) mod 2 ^ 64 = a + 2 ^ 63 + 2 ^ 64"
      by (metis mod_add_self2)
    with 2 show ?thesis by simp
  next
    case 3
    then have "(a + 2 ^ 63) mod 2 ^ 64 = a + 2 ^ 63"
      by (intro mod_pos_pos_trivial) auto
    with 3 show ?thesis by simp
  qed
qed

lemma long_add_cases:
  "sint (x + y :: long) =
     (if 2 ^ 63 \<le> sint x + sint y then sint x + sint y - 2 ^ 64
      else if sint x + sint y < - (2 ^ 63) then sint x + sint y + 2 ^ 64
      else sint x + sint y)"
proof -
  have "sint (x + y) = (sint x + sint y + 2 ^ 63) mod 2 ^ 64 - 2 ^ 63"
    using int_word_sint [where 'a = 64, of "sint x + sint y"] by simp
  also have "\<dots> = (if 2 ^ 63 \<le> sint x + sint y then sint x + sint y - 2 ^ 64
      else if sint x + sint y < - (2 ^ 63) then sint x + sint y + 2 ^ 64
      else sint x + sint y)"
  proof (rule wrap_64)
    show "- (2 ^ 64) \<le> sint x + sint y" "sint x + sint y < 2 ^ 64"
      using long_range [of x] long_range [of y] by auto
  qed
  finally show ?thesis .
qed

lemma long_minus_one:
  assumes "- (2 ^ 63) < sint (x :: long)"
  shows "sint (x - 1) = sint x - 1"
proof -
  have "x - 1 = x + (-1)"
    by simp
  then show ?thesis
    using long_add_cases [of x "-1"] long_range [of x] assms by simp
qed

lemma long_plus_one:
  assumes "sint (x :: long) < 2 ^ 63 - 1"
  shows "sint (x + 1) = sint x + 1"
  using long_add_cases [of x 1] long_range [of x] assms by simp

section \<open>Results: undefined behaviour as a value\<close>

text \<open>
  Where the C code would dereference a null pointer, read freed memory or
  leave an object's bounds, the model returns a \<open>Fault\<close>; so does a call that
  nests or loops further than the fuel it was given, which is reported apart.
\<close>

datatype fault =
    Null_Deref
  | Use_After_Free
  | Out_Of_Bounds
  | Out_Of_Fuel

datatype 'a res = Ok 'a | Fault fault

primrec and_then :: "'a res \<Rightarrow> ('a \<Rightarrow> 'b res) \<Rightarrow> 'b res" where
  "and_then (Ok a) f = f a"
| "and_then (Fault e) f = Fault e"

lemma and_then_cong [fundef_cong]:
  "m = m' \<Longrightarrow> (\<And>a. m' = Ok a \<Longrightarrow> f a = f' a) \<Longrightarrow> and_then m f = and_then m' f'"
  by (cases m') auto

lemma and_then_Ok_right [simp, res_simps]: "and_then m Ok = m"
  by (cases m) auto

lemma and_then_assoc [res_simps]:
  "and_then (and_then m f) g = and_then m (\<lambda>a. and_then (f a) g)"
  by (cases m) auto

lemma and_then_eq_Ok [res_simps]:
  "and_then m f = Ok b \<longleftrightarrow> (\<exists>a. m = Ok a \<and> f a = Ok b)"
  by (cases m) auto

lemma and_then_eq_Fault [res_simps]:
  "and_then m f = Fault e \<longleftrightarrow> m = Fault e \<or> (\<exists>a. m = Ok a \<and> f a = Fault e)"
  by (cases m) auto

text \<open>A pointer that may be null, as the value the code goes on with.\<close>

definition deref :: "fault \<Rightarrow> 'a option \<Rightarrow> 'a res" where
  "deref e p = (case p of None \<Rightarrow> Fault e | Some a \<Rightarrow> Ok a)"

lemma deref_simps [simp, res_simps]:
  "deref e None = Fault e" "deref e (Some a) = Ok a"
  by (simp_all add: deref_def)

lemma deref_eq_Ok [res_simps]: "deref e p = Ok a \<longleftrightarrow> p = Some a"
  by (cases p) auto

text \<open>
  A contract of a result: a value keeps to the condition, and a fault is one of
  the given ones. The rules follow the program.
\<close>

definition within :: "fault set \<Rightarrow> ('a \<Rightarrow> bool) \<Rightarrow> 'a res \<Rightarrow> bool" where
  "within F P r \<longleftrightarrow> (case r of Ok a \<Rightarrow> P a | Fault e \<Rightarrow> e \<in> F)"

lemma within_simps [simp]: "within F P (Ok a) \<longleftrightarrow> P a" "within F P (Fault e) \<longleftrightarrow> e \<in> F"
  by (simp_all add: within_def)

lemma within_and_then: "within F P m \<Longrightarrow> (\<And>a. m = Ok a \<Longrightarrow> P a \<Longrightarrow> within F Q (f a)) \<Longrightarrow> within F Q (and_then m f)"
  by (cases m) simp_all

lemma within_mono: "within F P r \<Longrightarrow> F \<subseteq> G \<Longrightarrow> (\<And>a. P a \<Longrightarrow> Q a) \<Longrightarrow> within G Q r"
  by (cases r) auto

lemma within_emptyD: "within {} P r \<Longrightarrow> \<exists>a. r = Ok a \<and> P a"
  by (cases r) auto

section \<open>Arrays\<close>

text \<open>The swap of two array elements, through a temporary.\<close>

definition swap_at :: "nat \<Rightarrow> nat \<Rightarrow> 'a list \<Rightarrow> 'a list" where
  "swap_at i j xs = xs[i := xs ! j, j := xs ! i]"

lemma length_swap_at [simp]: "length (swap_at i j xs) = length xs"
  by (simp add: swap_at_def)

lemma nth_swap_at:
  assumes "i < length xs" "j < length xs" "k < length xs"
  shows "swap_at i j xs ! k = (if k = j then xs ! i else if k = i then xs ! j else xs ! k)"
  using assms by (auto simp: swap_at_def nth_list_update)

lemma mset_swap_at:
  "i < length xs \<Longrightarrow> j < length xs \<Longrightarrow> mset (swap_at i j xs) = mset xs"
  by (simp add: swap_at_def mset_swap)

lemma take_swap_at:
  "i < n \<Longrightarrow> j < n \<Longrightarrow> n \<le> length xs \<Longrightarrow> take n (swap_at i j xs) = swap_at i j (take n xs)"
  by (simp add: swap_at_def take_update_swap)

text \<open>The first element taken out, and the last one put in its place.\<close>

lemma mset_pull_last: "xs \<noteq> [] \<Longrightarrow> mset xs = add_mset (hd xs) (mset (butlast (xs[0 := last xs])))"
proof (cases xs)
  case (Cons x ys)
  then show ?thesis by (cases ys rule: rev_cases) auto
qed simp

lemma find_snoc: "find P xs = None \<Longrightarrow> find P (xs @ [x]) = (if P x then Some x else None)"
  by (induction xs) (auto split: if_splits)

section \<open>Linked lists in a store\<close>

text \<open>
  \<open>chain nxt p as\<close>: following the links from the pointer \<open>p\<close> visits the
  allocated cells \<open>as\<close> and ends in the null pointer. \<open>nxt a\<close> is \<open>None\<close> for
  a cell that is not allocated and \<open>Some q\<close> for one whose link field is \<open>q\<close>.
\<close>

primrec chain :: "(nat \<Rightarrow> nat option option) \<Rightarrow> nat option \<Rightarrow> nat list \<Rightarrow> bool" where
  "chain nxt p [] \<longleftrightarrow> p = None"
| "chain nxt p (a # as) \<longleftrightarrow> p = Some a \<and> (\<exists>q. nxt a = Some q \<and> chain nxt q as)"

lemma chain_None [simp]: "chain nxt None as \<longleftrightarrow> as = []"
  by (cases as) auto

lemma chain_Some: "chain nxt (Some a) as \<longleftrightarrow> (\<exists>q bs. as = a # bs \<and> nxt a = Some q \<and> chain nxt q bs)"
  by (cases as) auto

lemma chain_cong:
  "(\<And>a. a \<in> set as \<Longrightarrow> nxt a = nxt' a) \<Longrightarrow> chain nxt p as = chain nxt' p as"
  by (induction as arbitrary: p) auto

lemma chain_upd_other [simp]:
  "a \<notin> set as \<Longrightarrow> chain (nxt(a := v)) p as = chain nxt p as"
  by (rule chain_cong) auto

lemma chain_allocated: "chain nxt p as \<Longrightarrow> a \<in> set as \<Longrightarrow> \<exists>q. nxt a = Some q"
  by (induction as arbitrary: p) auto

lemma chain_unique: "chain nxt p as \<Longrightarrow> chain nxt p bs \<Longrightarrow> as = bs"
  by (induction as arbitrary: p bs) (auto simp: chain_Some)

text \<open>A new cell linked behind the last one.\<close>

lemma chain_snoc:
  assumes "chain nxt p as" "as \<noteq> []" "distinct as" "b \<notin> set as"
  shows "chain (nxt(b := Some None, last as := Some (Some b))) p (as @ [b])"
  using assms
proof (induction as arbitrary: p)
  case Nil
  then show ?case by simp
next
  case (Cons a as)
  show ?case
  proof (cases "as = []")
    case True
    with Cons.prems show ?thesis by auto
  next
    case False
    with Cons.prems obtain q where q: "p = Some a" "nxt a = Some q" "chain nxt q as"
      by auto
    from False Cons.prems have "a \<noteq> last as" by auto
    moreover have "chain (nxt(b := Some None, last as := Some (Some b))) q (as @ [b])"
      using False q(3) Cons.prems by (intro Cons.IH) auto
    ultimately show ?thesis
      using False q Cons.prems by (auto simp: fun_upd_def)
  qed
qed

text \<open>A cell unlinked from behind its predecessor.\<close>

lemma chain_unlink:
  assumes "chain nxt p (xs @ a # b # ys)" "distinct (xs @ a # b # ys)" "nxt b = Some q"
  shows "chain (nxt(a := Some q)) p (xs @ a # ys)"
  using assms by (induction xs arbitrary: p) auto

lemma chain_suffix:
  "chain nxt p (xs @ a # ys) \<Longrightarrow> \<exists>q. nxt a = Some q \<and> chain nxt q ys"
  by (induction xs arbitrary: p) auto

end
