(* ===== verification/Rxc_Logic.thy ===== *)
theory Rxc_Logic
  imports Sas_Prelude
begin

text \<open>
  The connection of a source to a sink (\<open>rxc/include/rxc/logic.h\<close> and
  \<open>rxc/src/logic.c\<close>). The structs of function pointers become records of
  functions over the state \<open>'s\<close> the stages run on; a function that calls
  through a pointer takes the record as an argument. The field \<open>requested\<close>
  is the state of the connection, and every state that runs one extends
  \<open>conn\<close>.
\<close>

section \<open>Inlets, sink logic and source logic\<close>

record 's inlet =
  inlet_pull :: "long \<Rightarrow> 's \<Rightarrow> 's res"
  inlet_cancel :: "'s \<Rightarrow> 's res"

record ('e, 's) sink_logic =
  on_connect :: "'s \<Rightarrow> 's res"
  on_push :: "'e \<Rightarrow> 's \<Rightarrow> 's res"
  on_upstream_finish :: "'s \<Rightarrow> 's res"
  on_upstream_failure :: "'s \<Rightarrow> 's res"

record 's source_logic =
  on_pull :: "long \<Rightarrow> 's \<Rightarrow> 's res"
  on_downstream_finish :: "'s \<Rightarrow> 's res"

record conn =
  requested :: long

definition rxc_inlet_pull :: "'s inlet \<Rightarrow> long \<Rightarrow> 's \<Rightarrow> 's res" where
  "rxc_inlet_pull i n s = inlet_pull i n s"

definition rxc_inlet_cancel :: "'s inlet \<Rightarrow> 's \<Rightarrow> 's res" where
  "rxc_inlet_cancel i s = inlet_cancel i s"

section \<open>The connection\<close>

text \<open>
  The sum of the demands is one of signed numbers, for which C leaves open what an overflow gives. The
  test behind it is for a sum that wrapped around and became negative, and so it is read here. In the
  server and the client each pull asks for one element, so that no sum overflows within \<open>2 ^ 63 - 1\<close> pulls.
\<close>

definition rxc_connection_inlet_pull ::
    "'a conn_scheme source_logic \<Rightarrow> long \<Rightarrow> 'a conn_scheme \<Rightarrow> 'a conn_scheme res" where
  "rxc_connection_inlet_pull source n s =
     (if requested s = LONG_MIN then Ok s
      else
        let r = requested s + n;
            r' = (if sint r < 0 then LONG_MAX else r)
        in on_pull source n (s\<lparr>requested := r'\<rparr>))"

definition rxc_connection_inlet_cancel ::
    "'a conn_scheme source_logic \<Rightarrow> 'a conn_scheme \<Rightarrow> 'a conn_scheme res" where
  "rxc_connection_inlet_cancel source s =
     (if requested s = LONG_MIN then Ok s
      else on_downstream_finish source (s\<lparr>requested := LONG_MIN\<rparr>))"

definition rxc_outlet_available :: "'a conn_scheme \<Rightarrow> bool" where
  "rxc_outlet_available s \<longleftrightarrow> 0 < sint (requested s)"

definition RXC_EOK :: int where "RXC_EOK = 0"

definition rxc_outlet_emit ::
    "('e, 'a conn_scheme) sink_logic \<Rightarrow> 'e \<Rightarrow> 'a conn_scheme \<Rightarrow> (int \<times> 'a conn_scheme) res" where
  "rxc_outlet_emit sink e s =
     (if sint (requested s) \<le> 0 then Ok (- 1, s)
      else
        let s' = (if requested s \<noteq> LONG_MAX then s\<lparr>requested := requested s - 1\<rparr> else s)
        in and_then (on_push sink e s') (\<lambda>s''. Ok (RXC_EOK, s'')))"

definition rxc_outlet_fail ::
    "('e, 'a conn_scheme) sink_logic \<Rightarrow> 'a conn_scheme \<Rightarrow> 'a conn_scheme res" where
  "rxc_outlet_fail sink s =
     (if requested s = LONG_MIN then Ok s
      else on_upstream_failure sink (s\<lparr>requested := LONG_MIN\<rparr>))"

definition rxc_outlet_complete ::
    "('e, 'a conn_scheme) sink_logic \<Rightarrow> 'a conn_scheme \<Rightarrow> 'a conn_scheme res" where
  "rxc_outlet_complete sink s =
     (if requested s = LONG_MIN then Ok s
      else on_upstream_finish sink (s\<lparr>requested := LONG_MIN\<rparr>))"

definition rxc_connection_create :: "'a conn_scheme \<Rightarrow> 'a conn_scheme" where
  "rxc_connection_create s = s\<lparr>requested := 0\<rparr>"

text \<open>
  The wiring \<open>source->out = sink->in = conn\<close> of a new connection ties a
  knot: the inlet calls the source, the source emits to the sink, and the sink
  holds the inlet. \<open>conn_inlet source sink d\<close> is the inlet of the connection
  through which calls may be nested \<open>d\<close> deep on the C stack; the outlet that
  such a call hands to the source is the sink logic below it.
\<close>

fun conn_inlet ::
    "(('e, 'a conn_scheme) sink_logic \<Rightarrow> 'a conn_scheme source_logic) \<Rightarrow>
     ('a conn_scheme inlet \<Rightarrow> ('e, 'a conn_scheme) sink_logic) \<Rightarrow> nat \<Rightarrow> 'a conn_scheme inlet" where
  "conn_inlet source sink 0 =
     \<lparr>inlet_pull = (\<lambda>n s. Fault Out_Of_Fuel), inlet_cancel = (\<lambda>s. Fault Out_Of_Fuel)\<rparr>"
| "conn_inlet source sink (Suc d) =
     (let logic = source (sink (conn_inlet source sink d))
      in \<lparr>inlet_pull = rxc_connection_inlet_pull logic,
          inlet_cancel = rxc_connection_inlet_cancel logic\<rparr>)"

lemmas logic_defs = rxc_connection_inlet_pull_def rxc_connection_inlet_cancel_def
  rxc_outlet_emit_def rxc_outlet_fail_def rxc_outlet_complete_def rxc_connection_create_def

section \<open>Demand: what the field \<open>requested\<close> stands for\<close>

datatype demand = Closed | Finite nat | Unbounded

definition demand_of :: "long \<Rightarrow> demand" where
  "demand_of r =
     (if r = LONG_MIN then Closed
      else if r = LONG_MAX then Unbounded
      else Finite (nat (sint r)))"

text \<open>The abstract specification: saturating credits.\<close>

fun add_demand :: "nat \<Rightarrow> demand \<Rightarrow> demand" where
  "add_demand n Closed = Closed"
| "add_demand n Unbounded = Unbounded"
| "add_demand n (Finite m) = (if m + n < 2 ^ 63 - 1 then Finite (m + n) else Unbounded)"

fun use_demand :: "demand \<Rightarrow> demand" where
  "use_demand Closed = Closed"
| "use_demand Unbounded = Unbounded"
| "use_demand (Finite m) = Finite (m - 1)"

text \<open>A connection's field is never a negative number other than \<open>LONG_MIN\<close>.\<close>

definition conn_ok :: "'a conn_scheme \<Rightarrow> bool" where
  "conn_ok s \<longleftrightarrow> requested s = LONG_MIN \<or> 0 \<le> sint (requested s)"

definition demand :: "'a conn_scheme \<Rightarrow> demand" where
  "demand s = demand_of (requested s)"

lemma demand_LONG_MIN [simp]: "demand_of LONG_MIN = Closed"
  by (simp add: demand_of_def)

lemma demand_LONG_MAX [simp]: "demand_of LONG_MAX = Unbounded"
  by (simp add: demand_of_def)

lemma demand_zero [simp]: "demand_of 0 = Finite 0"
  by (simp add: demand_of_def)

lemma demand_one [simp]: "demand_of 1 = Finite 1"
  by (simp add: demand_of_def)

lemma demand_Closed_iff: "demand s = Closed \<longleftrightarrow> requested s = LONG_MIN"
  by (auto simp: demand_def demand_of_def)

text \<open>
  The request added by a pull, with the cap at \<open>LONG_MAX\<close>: the sum of two
  nonnegative numbers that leaves the range wraps to a negative one, which is
  what the code's test catches.
\<close>

lemma demand_pull:
  assumes "r = LONG_MIN \<or> 0 \<le> sint r" "r \<noteq> LONG_MIN" "0 \<le> sint n"
  shows "demand_of (if sint (r + n) < 0 then LONG_MAX else r + n) = add_demand (nat (sint n)) (demand_of r)"
    and "0 \<le> sint (if sint (r + n) < 0 then LONG_MAX else r + n)"
proof -
  have rng: "0 \<le> sint r" "sint r < 2 ^ 63" "sint n < 2 ^ 63"
    using assms long_range [of r] long_range [of n] by auto
  show "0 \<le> sint (if sint (r + n) < 0 then LONG_MAX else r + n)"
    by simp
  show "demand_of (if sint (r + n) < 0 then LONG_MAX else r + n) = add_demand (nat (sint n)) (demand_of r)"
    using rng assms(2,3) long_add_cases [of r n]
    by (auto simp: demand_of_def LONG_MAX_iff LONG_MIN_iff split: if_splits)
qed

lemma demand_emit:
  assumes "0 < sint r"
  shows "demand_of (if r \<noteq> LONG_MAX then r - 1 else r) = use_demand (demand_of r)"
    and "0 \<le> sint (if r \<noteq> LONG_MAX then r - 1 else r)"
proof -
  have m: "sint (r - 1) = sint r - 1"
    using assms by (intro long_minus_one) simp
  show "0 \<le> sint (if r \<noteq> LONG_MAX then r - 1 else r)"
    using assms m by simp
  show "demand_of (if r \<noteq> LONG_MAX then r - 1 else r) = use_demand (demand_of r)"
    using assms m long_range [of r]
    by (auto simp: demand_of_def LONG_MAX_iff LONG_MIN_iff split: if_splits)
qed


lemma conn_ok_update [simp]: "conn_ok (s\<lparr>requested := r\<rparr>) \<longleftrightarrow> r = LONG_MIN \<or> 0 \<le> sint r"
  by (simp add: conn_ok_def)

lemma demand_update [simp]: "demand (s\<lparr>requested := r\<rparr>) = demand_of r"
  by (simp add: demand_def)

lemma connection_pull_demand:
  assumes "conn_ok s" "demand s \<noteq> Closed" "0 \<le> sint n"
  shows "\<exists>r. rxc_connection_inlet_pull source n s = on_pull source n (s\<lparr>requested := r\<rparr>) \<and>
    conn_ok (s\<lparr>requested := r\<rparr>) \<and>
    demand_of r = add_demand (nat (sint n)) (demand s)"
proof -
  have r: "requested s \<noteq> LONG_MIN" "requested s = LONG_MIN \<or> 0 \<le> sint (requested s)"
    using assms by (auto simp: demand_Closed_iff conn_ok_def)
  show ?thesis
    using r(1) demand_pull [OF r(2,1) assms(3)]
    by (intro exI [of _ "if sint (requested s + n) < 0 then LONG_MAX else requested s + n"])
      (simp add: rxc_connection_inlet_pull_def Let_def demand_def conn_ok_def)
qed

lemma requested_update_same: "requested s = r \<Longrightarrow> s\<lparr>requested := r\<rparr> = s"
  by (cases s) simp

lemma outlet_emit_demand:
  assumes "conn_ok s"
  shows "(if demand s = Closed \<or> demand s = Finite 0 then rxc_outlet_emit sink e s = Ok (- 1, s)
    else \<exists>r. rxc_outlet_emit sink e s =
        and_then (on_push sink e (s\<lparr>requested := r\<rparr>)) (\<lambda>s'. Ok (RXC_EOK, s')) \<and>
      conn_ok (s\<lparr>requested := r\<rparr>) \<and> demand_of r = use_demand (demand s))"
proof (cases "0 < sint (requested s)")
  case True
  then have "demand s \<noteq> Closed" "demand s \<noteq> Finite 0"
    by (auto simp: demand_def demand_of_def)
  then show ?thesis
    using True demand_emit [OF True]
    by (auto simp: rxc_outlet_emit_def Let_def demand_def requested_update_same
        intro!: exI [of _ "if requested s \<noteq> LONG_MAX then requested s - 1 else requested s"])
next
  case False
  then show ?thesis
    using assms by (auto simp: rxc_outlet_emit_def demand_def demand_of_def conn_ok_def)
qed

section \<open>The signals that pass a connection\<close>

text \<open>
  A source and a sink that only note the calls they receive, and a run of the
  operations of the two ends of one connection in any order.
\<close>

datatype 'e conn_event =
    Ev_Pull long
  | Ev_Downstream_Finish
  | Ev_Push 'e
  | Ev_Upstream_Finish
  | Ev_Upstream_Failure

datatype 'e conn_op =
    Op_Pull long
  | Op_Cancel
  | Op_Emit 'e
  | Op_Fail
  | Op_Complete

record 'e noted_conn = conn +
  events :: "'e conn_event list"

definition noted :: "'e conn_event \<Rightarrow> 'e noted_conn \<Rightarrow> 'e noted_conn res" where
  "noted ev s = Ok (s\<lparr>events := events s @ [ev]\<rparr>)"

definition noting_source :: "'e noted_conn source_logic" where
  "noting_source = \<lparr>on_pull = (\<lambda>n. noted (Ev_Pull n)), on_downstream_finish = noted Ev_Downstream_Finish\<rparr>"

definition noting_sink :: "('e, 'e noted_conn) sink_logic" where
  "noting_sink = \<lparr>on_connect = Ok, on_push = (\<lambda>e. noted (Ev_Push e)),
     on_upstream_finish = noted Ev_Upstream_Finish, on_upstream_failure = noted Ev_Upstream_Failure\<rparr>"

primrec conn_do :: "'e conn_op \<Rightarrow> 'e noted_conn \<Rightarrow> 'e noted_conn res" where
  "conn_do (Op_Pull n) s = rxc_connection_inlet_pull noting_source n s"
| "conn_do Op_Cancel s = rxc_connection_inlet_cancel noting_source s"
| "conn_do (Op_Emit e) s = and_then (rxc_outlet_emit noting_sink e s) (\<lambda>(_, s'). Ok s')"
| "conn_do Op_Fail s = rxc_outlet_fail noting_sink s"
| "conn_do Op_Complete s = rxc_outlet_complete noting_sink s"

primrec conn_run :: "'e conn_op list \<Rightarrow> 'e noted_conn \<Rightarrow> 'e noted_conn res" where
  "conn_run [] s = Ok s"
| "conn_run (p # ps) s = and_then (conn_do p s) (conn_run ps)"

primrec op_ok :: "'e conn_op \<Rightarrow> bool" where
  "op_ok (Op_Pull n) \<longleftrightarrow> 0 \<le> sint n"
| "op_ok Op_Cancel \<longleftrightarrow> True"
| "op_ok (Op_Emit e) \<longleftrightarrow> True"
| "op_ok Op_Fail \<longleftrightarrow> True"
| "op_ok Op_Complete \<longleftrightarrow> True"

text \<open>
  The contract of a back-pressured stream, read off the signals: elements
  only against demand, and one of the three endings, after which nothing
  follows.
\<close>

fun stream_ok :: "demand \<Rightarrow> 'e conn_event list \<Rightarrow> bool" where
  "stream_ok d [] \<longleftrightarrow> True"
| "stream_ok Closed (ev # evs) \<longleftrightarrow> False"
| "stream_ok d (Ev_Pull n # evs) \<longleftrightarrow> stream_ok (add_demand (nat (sint n)) d) evs"
| "stream_ok d (Ev_Push e # evs) \<longleftrightarrow> d \<noteq> Finite 0 \<and> stream_ok (use_demand d) evs"
| "stream_ok d (_ # evs) \<longleftrightarrow> stream_ok Closed evs"

fun demand_after :: "demand \<Rightarrow> 'e conn_event list \<Rightarrow> demand" where
  "demand_after d [] = d"
| "demand_after d (Ev_Pull n # evs) = demand_after (add_demand (nat (sint n)) d) evs"
| "demand_after d (Ev_Push e # evs) = demand_after (use_demand d) evs"
| "demand_after d (_ # evs) = demand_after Closed evs"

lemma stream_ok_Closed [simp]: "stream_ok Closed evs \<longleftrightarrow> evs = []"
  by (cases evs) auto

lemma stream_ok_append:
  "stream_ok d (xs @ ys) \<longleftrightarrow> stream_ok d xs \<and> stream_ok (demand_after d xs) ys"
  by (induction d xs rule: stream_ok.induct) (auto elim: stream_ok.elims)

text \<open>One operation sends at most one signal, and one the contract allows.\<close>

lemma conn_do_signal:
  assumes "conn_ok s" "op_ok p"
  shows "\<exists>s' evs. conn_do p s = Ok s' \<and> events s' = events s @ evs \<and> conn_ok s' \<and>
    stream_ok (demand s) evs \<and> demand s' = demand_after (demand s) evs"
proof (cases "demand s = Closed")
  case True
  then have "requested s = LONG_MIN"
    by (simp add: demand_Closed_iff)
  with assms(1) True show ?thesis
    by (cases p) (auto simp: logic_defs intro!: exI [of _ "[]"])
next
  case False
  then have open': "requested s \<noteq> LONG_MIN"
    by (simp add: demand_Closed_iff)
  have end_ok: "stream_ok (demand s) [Ev_Upstream_Finish]" "stream_ok (demand s) [Ev_Upstream_Failure]"
    "stream_ok (demand s) [Ev_Downstream_Finish]"
    using False by (cases "demand s"; simp)+
  show ?thesis
  proof (cases p)
    case (Op_Pull n)
    obtain r where "rxc_connection_inlet_pull noting_source n s = on_pull noting_source n (s\<lparr>requested := r\<rparr>)"
      "conn_ok (s\<lparr>requested := r\<rparr>)" "demand_of r = add_demand (nat (sint n)) (demand s)"
      using connection_pull_demand [OF assms(1) False, of n] assms(2) Op_Pull by auto
    then show ?thesis
      using Op_Pull False
      by (cases "demand s")
        (auto simp: noting_source_def noted_def demand_def conn_ok_def intro!: exI [of _ "[Ev_Pull n]"])
  next
    case (Op_Emit e)
    show ?thesis
    proof (cases "demand s = Finite 0")
      case True
      then show ?thesis
        using Op_Emit outlet_emit_demand [OF assms(1), of noting_sink e] assms(1)
        by (auto intro!: exI [of _ "[]"])
    next
      case nz: False
      obtain r where "rxc_outlet_emit noting_sink e s =
          and_then (on_push noting_sink e (s\<lparr>requested := r\<rparr>)) (\<lambda>s'. Ok (RXC_EOK, s'))"
        "conn_ok (s\<lparr>requested := r\<rparr>)" "demand_of r = use_demand (demand s)"
        using outlet_emit_demand [OF assms(1), of noting_sink e] False nz by auto
      then show ?thesis
        using Op_Emit False nz
        by (cases "demand s")
          (auto simp: noting_sink_def noted_def demand_def conn_ok_def intro!: exI [of _ "[Ev_Push e]"])
    qed
  next
    case Op_Cancel
    with open' end_ok show ?thesis
      by (auto simp: logic_defs noting_source_def noted_def demand_def conn_ok_def
          intro!: exI [of _ "[Ev_Downstream_Finish]"])
  next
    case Op_Fail
    with open' end_ok show ?thesis
      by (auto simp: logic_defs noting_sink_def noted_def demand_def conn_ok_def
          intro!: exI [of _ "[Ev_Upstream_Failure]"])
  next
    case Op_Complete
    with open' end_ok show ?thesis
      by (auto simp: logic_defs noting_sink_def noted_def demand_def conn_ok_def
          intro!: exI [of _ "[Ev_Upstream_Finish]"])
  qed
qed

lemma conn_run_signals:
  "conn_ok s \<Longrightarrow> \<forall>p \<in> set ps. op_ok p \<Longrightarrow>
    \<exists>s' evs. conn_run ps s = Ok s' \<and> events s' = events s @ evs \<and> stream_ok (demand s) evs"
proof (induction ps arbitrary: s)
  case Nil
  then show ?case by (auto intro!: exI [of _ "[]"])
next
  case (Cons p ps)
  obtain s1 evs where 1: "conn_do p s = Ok s1" "events s1 = events s @ evs" "conn_ok s1"
    "stream_ok (demand s) evs" "demand s1 = demand_after (demand s) evs"
    using conn_do_signal [OF Cons.prems(1), of p] Cons.prems(2) by auto
  obtain s2 evs' where "conn_run ps s1 = Ok s2" "events s2 = events s1 @ evs'" "stream_ok (demand s1) evs'"
    using Cons.IH [OF 1(3)] Cons.prems(2) by auto
  with 1 show ?case
    by (auto simp: stream_ok_append intro!: exI [of _ "evs @ evs'"])
qed

section \<open>Properties\<close>

text \<open>A pull adds its count to the outstanding demand of an open
  connection, saturating at unbounded: the sum that would exceed \<open>LONG_MAX\<close>
  is capped although the addition wraps, a demand that is unbounded stays so,
  and the source is asked with the new demand in place.\<close>

lemma pull_saturates:
  assumes "conn_ok s" "demand s \<noteq> Closed" "0 \<le> sint n"
  shows "\<exists>r. rxc_connection_inlet_pull source n s = on_pull source n (s\<lparr>requested := r\<rparr>) \<and>
    conn_ok (s\<lparr>requested := r\<rparr>) \<and> demand_of r = add_demand (nat (sint n)) (demand s)"
  using assms by (rule connection_pull_demand)

lemma pull_saturates_witness:
  "\<exists>r. rxc_connection_inlet_pull noting_source 9 \<lparr>requested = 0x7FFFFFFFFFFFFFFE, events = []\<rparr> =
      on_pull noting_source 9 (\<lparr>requested = r, events = [] :: nat conn_event list\<rparr>) \<and>
    demand_of r = Unbounded"
  using pull_saturates [of "\<lparr>requested = 0x7FFFFFFFFFFFFFFE, events = [] :: nat conn_event list\<rparr>" 9
      noting_source]
  by (auto simp: conn_ok_def demand_def demand_of_def split: if_splits)

text \<open>C18. Whatever the two ends of a connection do, in any order, the signals
  that pass obey the contract of a back-pressured stream: no element is pushed
  without demand, there is at most one ending, be it completion, failure or
  cancellation, and nothing is signalled after it; the operations themselves
  never fail.\<close>

theorem connection_obeys_contract:
  assumes "\<forall>p \<in> set ps. op_ok p"
  shows "\<exists>s. conn_run ps (rxc_connection_create \<lparr>requested = r, events = []\<rparr>) = Ok s \<and>
    stream_ok (Finite 0) (events s)"
  using conn_run_signals [of "rxc_connection_create \<lparr>requested = r, events = []\<rparr>" ps] assms
  by (auto simp: rxc_connection_create_def conn_ok_def demand_def)

theorem connection_obeys_contract_witness:
  "\<exists>s. conn_run [Op_Emit 1, Op_Pull 2, Op_Emit 2, Op_Emit 3, Op_Emit 4, Op_Complete, Op_Fail, Op_Emit (5 :: nat)]
      (rxc_connection_create \<lparr>requested = 7, events = []\<rparr>) = Ok s \<and> stream_ok (Finite 0) (events s)"
  by (rule connection_obeys_contract) simp

end
