(* ===== verification/Trampoline.thy ===== *)
theory Trampoline
  imports Sas_Prelude
begin

text \<open>
  The trampoline scheduler (\<open>rxc/src/schedulers/trampoline.c\<close>): a queue of
  tasks as linked nodes in a store, and the worker that runs the queued tasks
  one after the other, so that a task scheduled by a running task waits
  instead of nesting.
\<close>

section \<open>The queue of a worker\<close>

record 't queue_node =
  qn_runnable :: 't
  qn_prev :: "nat option"

record 't trampoline_worker =
  head :: "nat option"
  tail :: "nat option"
  wip :: bool
  nodes :: "nat \<Rightarrow> 't queue_node option"
  fresh :: nat

text \<open>
  \<open>alloc\<close> says whether \<open>malloc\<close> gave memory; without it the task is
  dropped. The new node gets the next unused address.
\<close>

definition worker_enqueue :: "bool \<Rightarrow> 't \<Rightarrow> 't trampoline_worker \<Rightarrow> 't trampoline_worker res" where
  "worker_enqueue alloc t w =
     (if \<not> alloc then Ok w
      else
        let node = fresh w;
            w1 = w\<lparr>nodes := (nodes w)(node \<mapsto> \<lparr>qn_runnable = t, qn_prev = None\<rparr>), fresh := node + 1\<rparr>
        in case head w of
             None \<Rightarrow> Ok (w1\<lparr>head := Some node, tail := Some node\<rparr>)
           | Some _ \<Rightarrow>
               and_then (deref Null_Deref (tail w)) (\<lambda>b.
               and_then (deref Use_After_Free (nodes w b)) (\<lambda>n.
               Ok (w1\<lparr>nodes := (nodes w1)(b \<mapsto> n\<lparr>qn_prev := Some node\<rparr>), tail := Some node\<rparr>))))"

definition worker_dequeue :: "'t trampoline_worker \<Rightarrow> (nat option \<times> 't trampoline_worker) res" where
  "worker_dequeue w =
     (case head w of
        None \<Rightarrow> Ok (None, w)
      | Some h \<Rightarrow>
          and_then (deref Use_After_Free (nodes w h)) (\<lambda>n.
          let w1 = w\<lparr>head := qn_prev n\<rparr>;
              w2 = (if head w1 = None then w1\<lparr>tail := None\<rparr> else w1)
          in Ok (Some h, w2)))"

definition free_node :: "nat \<Rightarrow> 't trampoline_worker \<Rightarrow> 't trampoline_worker" where
  "free_node a w = w\<lparr>nodes := (nodes w)(a := None)\<rparr>"

definition scheduler_create_worker :: "'t trampoline_worker" where
  "scheduler_create_worker =
     \<lparr>head = None, tail = None, wip = False, nodes = (\<lambda>_. None), fresh = 0\<rparr>"

section \<open>Scheduling\<close>

text \<open>
  The worker is part of a larger state \<open>'s\<close>, read with \<open>get\<close> and written with
  \<open>put\<close>; \<open>run\<close> executes a task. The loop of \<open>worker_schedule\<close> has a bound on
  its iterations, since a task may schedule tasks for ever.
\<close>

fun worker_drain ::
    "('s \<Rightarrow> 't trampoline_worker) \<Rightarrow> ('t trampoline_worker \<Rightarrow> 's \<Rightarrow> 's) \<Rightarrow>
     ('t \<Rightarrow> 's \<Rightarrow> 's res) \<Rightarrow> nat \<Rightarrow> 's \<Rightarrow> 's res" where
  "worker_drain get put run 0 s = Fault Out_Of_Fuel"
| "worker_drain get put run (Suc k) s =
     and_then (worker_dequeue (get s)) (\<lambda>(p, w).
     let s1 = put w s
     in case p of
          None \<Rightarrow> Ok s1
        | Some a \<Rightarrow>
            and_then (deref Use_After_Free (nodes w a)) (\<lambda>n.
            and_then (run (qn_runnable n) s1) (\<lambda>s2.
            worker_drain get put run k (put (free_node a (get s2)) s2))))"

definition worker_schedule ::
    "('s \<Rightarrow> 't trampoline_worker) \<Rightarrow> ('t trampoline_worker \<Rightarrow> 's \<Rightarrow> 's) \<Rightarrow>
     ('t \<Rightarrow> 's \<Rightarrow> 's res) \<Rightarrow> nat \<Rightarrow> bool \<Rightarrow> 't \<Rightarrow> 's \<Rightarrow> 's res" where
  "worker_schedule get put run k alloc t s =
     and_then (worker_enqueue alloc t (get s)) (\<lambda>w.
     let s1 = put w s
     in if \<not> wip w then
          and_then (worker_drain get put run k (put (w\<lparr>wip := True\<rparr>) s1)) (\<lambda>s2.
          Ok (put ((get s2)\<lparr>wip := False\<rparr>) s2))
        else Ok s1)"

section \<open>The queue as a list\<close>

text \<open>
  \<open>queue_rep w A ts\<close>: the linked nodes hold the tasks \<open>ts\<close>, first to run
  first; \<open>A\<close> are nodes taken off the queue whose tasks are still running.
\<close>

definition link_of :: "'t trampoline_worker \<Rightarrow> nat \<Rightarrow> nat option option" where
  "link_of w a = map_option qn_prev (nodes w a)"

definition queue_rep :: "'t trampoline_worker \<Rightarrow> nat set \<Rightarrow> 't list \<Rightarrow> bool" where
  "queue_rep w A ts \<longleftrightarrow> (\<exists>as. chain (link_of w) (head w) as \<and> distinct as \<and>
     tail w = (if as = [] then None else Some (last as)) \<and>
     map (\<lambda>a. map_option qn_runnable (nodes w a)) as = map Some ts \<and>
     (\<forall>a \<in> set as. a < fresh w) \<and> (\<forall>a \<in> A. a < fresh w) \<and> A \<inter> set as = {})"

text \<open>What the drain loop needs of a queue.\<close>

locale fifo =
  fixes enq :: "'t \<Rightarrow> 'q \<Rightarrow> 'q res"
    and deq :: "'q \<Rightarrow> (nat option \<times> 'q) res"
    and cell :: "'q \<Rightarrow> nat \<Rightarrow> 't option"
    and free_cell :: "nat \<Rightarrow> 'q \<Rightarrow> 'q"
    and rep :: "'q \<Rightarrow> nat set \<Rightarrow> 't list \<Rightarrow> bool"
  assumes enq_rep: "rep q A ts \<Longrightarrow> \<exists>q'. enq t q = Ok q' \<and> rep q' A (ts @ [t])"
    and deq_Nil: "rep q A [] \<Longrightarrow> deq q = Ok (None, q)"
    and deq_Cons: "rep q A (t # ts) \<Longrightarrow>
      \<exists>a q'. deq q = Ok (Some a, q') \<and> cell q' a = Some t \<and> a \<notin> A \<and> rep q' (insert a A) ts"
    and free_rep: "rep q (insert a A) ts \<Longrightarrow> a \<notin> A \<Longrightarrow> rep (free_cell a q) A ts"
begin

text \<open>A sequence of enqueued tasks comes out in the order it went in.\<close>

fun enq_all :: "'t list \<Rightarrow> 'q \<Rightarrow> 'q res" where
  "enq_all [] q = Ok q"
| "enq_all (t # ts) q = and_then (enq t q) (enq_all ts)"

lemma enq_all_rep: "rep q A ts \<Longrightarrow> \<exists>q'. enq_all us q = Ok q' \<and> rep q' A (ts @ us)"
proof (induction us arbitrary: q ts)
  case Nil
  then show ?case by simp
next
  case (Cons u us)
  obtain q1 where "enq u q = Ok q1" "rep q1 A (ts @ [u])"
    using enq_rep [OF Cons.prems] by blast
  with Cons.IH [of q1 "ts @ [u]"] show ?case by auto
qed

end

lemma queue_rep_enqueue:
  assumes "queue_rep w A ts"
  shows "\<exists>w'. worker_enqueue True t w = Ok w' \<and> queue_rep w' A (ts @ [t]) \<and> wip w' = wip w"
proof -
  obtain as where as: "chain (link_of w) (head w) as" "distinct as"
    "tail w = (if as = [] then None else Some (last as))"
    "map (\<lambda>a. map_option qn_runnable (nodes w a)) as = map Some ts"
    "\<forall>a \<in> set as. a < fresh w" "\<forall>a \<in> A. a < fresh w" "A \<inter> set as = {}"
    using assms unfolding queue_rep_def by blast
  let ?b = "fresh w"
  have new: "?b \<notin> set as" "?b \<notin> A"
    using as by auto
  show ?thesis
  proof (cases "as = []")
    case True
    then have "head w = None" "ts = []"
      using as by auto
    let ?w = "w\<lparr>nodes := (nodes w)(?b \<mapsto> \<lparr>qn_runnable = t, qn_prev = None\<rparr>), fresh := ?b + 1,
      head := Some ?b, tail := Some ?b\<rparr>"
    have "worker_enqueue True t w = Ok ?w"
      using \<open>head w = None\<close> by (simp add: worker_enqueue_def Let_def)
    moreover have "queue_rep ?w A (ts @ [t])"
      unfolding queue_rep_def
      using as new \<open>ts = []\<close> by (intro exI [of _ "[?b]"]) (auto simp: link_of_def)
    ultimately show ?thesis by auto
  next
    case False
    then obtain a bs where "as = a # bs" by (cases as) auto
    with as have hd: "head w = Some a" by auto
    obtain n where n: "nodes w (last as) = Some n"
      using chain_allocated [OF as(1), of "last as"] False by (auto simp: link_of_def)
    let ?ns = "(nodes w)(?b \<mapsto> \<lparr>qn_runnable = t, qn_prev = None\<rparr>, last as \<mapsto> n\<lparr>qn_prev := Some ?b\<rparr>)"
    let ?w = "w\<lparr>nodes := ?ns, fresh := ?b + 1, tail := Some ?b\<rparr>"
    have "worker_enqueue True t w = Ok ?w"
      using hd as(3) False n by (simp add: worker_enqueue_def Let_def)
    moreover have "queue_rep ?w A (ts @ [t])"
      unfolding queue_rep_def
    proof (intro exI conjI)
      have "link_of ?w = (link_of w)(?b := Some None, last as := Some (Some ?b))"
        by (rule ext) (simp add: link_of_def)
      then show "chain (link_of ?w) (head ?w) (as @ [?b])"
        using chain_snoc [OF as(1) False as(2) new(1)] hd by simp
      have "last as \<noteq> ?b" using new False by (metis last_in_set)
      moreover have "map (\<lambda>a. map_option qn_runnable (?ns a)) as
          = map (\<lambda>a. map_option qn_runnable (nodes w a)) as"
        using new n by auto
      ultimately show "map (\<lambda>a. map_option qn_runnable (nodes ?w a)) (as @ [?b]) = map Some (ts @ [t])"
        using as(4) by simp
    qed (use as new in \<open>auto simp: less_Suc_eq\<close>)
    ultimately show ?thesis by auto
  qed
qed

lemma queue_rep_dequeue_Nil: "queue_rep w A [] \<Longrightarrow> worker_dequeue w = Ok (None, w)"
  by (auto simp: queue_rep_def worker_dequeue_def)

lemma queue_rep_dequeue_Cons:
  assumes "queue_rep w A (t # ts)"
  shows "\<exists>a w'. worker_dequeue w = Ok (Some a, w') \<and> map_option qn_runnable (nodes w' a) = Some t \<and>
    a \<notin> A \<and> queue_rep w' (insert a A) ts \<and> wip w' = wip w"
proof -
  obtain as where as: "chain (link_of w) (head w) as" "distinct as"
    "tail w = (if as = [] then None else Some (last as))"
    "map (\<lambda>a. map_option qn_runnable (nodes w a)) as = map Some (t # ts)"
    "\<forall>a \<in> set as. a < fresh w" "\<forall>a \<in> A. a < fresh w" "A \<inter> set as = {}"
    using assms unfolding queue_rep_def by blast
  then obtain a bs where bs: "as = a # bs" by (cases as) auto
  with as obtain n where n: "head w = Some a" "nodes w a = Some n" "chain (link_of w) (qn_prev n) bs"
    by (auto simp: link_of_def)
  let ?w = "w\<lparr>head := qn_prev n, tail := (if qn_prev n = None then None else tail w)\<rparr>"
  have "worker_dequeue w = Ok (Some a, ?w)"
    using n by (simp add: worker_dequeue_def Let_def)
  moreover have "queue_rep ?w (insert a A) ts"
    unfolding queue_rep_def
  proof (intro exI conjI)
    have "link_of ?w = link_of w"
      by (rule ext) (simp add: link_of_def)
    then show "chain (link_of ?w) (head ?w) bs"
      using n by simp
    show "tail ?w = (if bs = [] then None else Some (last bs))"
      using n as(3) bs by (cases bs) auto
  qed (use as bs in auto)
  ultimately show ?thesis
    using as bs n by auto
qed

lemma queue_rep_free:
  assumes "queue_rep w (insert a A) ts" "a \<notin> A"
  shows "queue_rep (free_node a w) A ts"
proof -
  obtain as where as: "chain (link_of w) (head w) as" "distinct as"
    "tail w = (if as = [] then None else Some (last as))"
    "map (\<lambda>a. map_option qn_runnable (nodes w a)) as = map Some ts"
    "\<forall>a \<in> set as. a < fresh w" "\<forall>x \<in> insert a A. x < fresh w" "insert a A \<inter> set as = {}"
    using assms unfolding queue_rep_def by blast
  have "link_of (free_node a w) = (link_of w)(a := None)"
    by (rule ext) (simp add: link_of_def free_node_def)
  moreover have "map (\<lambda>x. map_option qn_runnable (nodes (free_node a w) x)) as = map Some ts"
  proof -
    have "map (\<lambda>x. map_option qn_runnable (nodes (free_node a w) x)) as
        = map (\<lambda>x. map_option qn_runnable (nodes w x)) as"
      using as(7) by (auto simp: free_node_def)
    then show ?thesis using as(4) by simp
  qed
  ultimately show ?thesis
    unfolding queue_rep_def
    using as by (intro exI [of _ as]) (auto simp: free_node_def)
qed

interpretation tq: fifo "worker_enqueue True" worker_dequeue
  "\<lambda>w a. map_option qn_runnable (nodes w a)" free_node queue_rep
proof
  fix q :: "'a trampoline_worker" and A ts t
  assume r: "queue_rep q A ts"
  show "\<exists>q'. worker_enqueue True t q = Ok q' \<and> queue_rep q' A (ts @ [t])"
    using queue_rep_enqueue [OF r, of t] by (elim exE conjE) (intro exI conjI)
next
  fix q :: "'a trampoline_worker" and A
  assume "queue_rep q A []"
  then show "worker_dequeue q = Ok (None, q)"
    by (rule queue_rep_dequeue_Nil)
next
  fix q :: "'a trampoline_worker" and A t ts
  assume r: "queue_rep q A (t # ts)"
  show "\<exists>a q'. worker_dequeue q = Ok (Some a, q') \<and> map_option qn_runnable (nodes q' a) = Some t \<and>
      a \<notin> A \<and> queue_rep q' (insert a A) ts"
    using queue_rep_dequeue_Cons [OF r] by (elim exE conjE) (intro exI conjI)
next
  fix q :: "'a trampoline_worker" and A a ts
  assume "queue_rep q (insert a A) ts" "a \<notin> A"
  then show "queue_rep (free_node a q) A ts"
    by (rule queue_rep_free)
qed

section \<open>Tasks run first in, first out\<close>

text \<open>
  The abstract scheduler: a list of tasks, each of which changes an abstract
  state and appends the tasks it schedules. \<open>None\<close> is not finishing within
  the bound.
\<close>

fun fifo_run :: "('t \<Rightarrow> 'x \<Rightarrow> 'x \<times> 't list) \<Rightarrow> nat \<Rightarrow> 't list \<Rightarrow> 'x \<Rightarrow> 'x option" where
  "fifo_run step 0 ts x = None"
| "fifo_run step (Suc k) [] x = Some x"
| "fifo_run step (Suc k) (t # ts) x =
     fifo_run step k (ts @ snd (step t x)) (fst (step t x))"

lemma fifo_run_mono: "fifo_run step k ts x = Some y \<Longrightarrow> k \<le> k' \<Longrightarrow> fifo_run step k' ts x = Some y"
proof (induction step k ts x arbitrary: k' rule: fifo_run.induct)
  case (2 step k x)
  then show ?case by (cases k') auto
next
  case (3 step k t ts x)
  then show ?case by (cases k') auto
qed simp

text \<open>A worker inside a larger state.\<close>

locale worker_lens =
  fixes get :: "'s \<Rightarrow> 't trampoline_worker"
    and put :: "'t trampoline_worker \<Rightarrow> 's \<Rightarrow> 's"
  assumes get_put: "get (put w s) = w"
    and put_put: "put w (put w' s) = put w s"
    and put_get: "put (get s) s = s"
begin

text \<open>While a task is running, scheduling another one only queues it.\<close>

lemma schedule_busy:
  assumes "wip (get s)" "queue_rep (get s) A ts"
  shows "\<exists>w. worker_schedule get put run k True t s = Ok (put w s) \<and>
    queue_rep w A (ts @ [t]) \<and> wip w"
proof -
  obtain w where "worker_enqueue True t (get s) = Ok w" "queue_rep w A (ts @ [t])" "wip w = wip (get s)"
    using queue_rep_enqueue [OF assms(2), of t] by auto
  then show ?thesis
    using assms by (intro exI [of _ w]) (simp add: worker_schedule_def)
qed

end

text \<open>
  A task that schedules nothing, on an idle worker: the worker runs it, and it
  alone, and is idle again.
\<close>

definition idle_worker :: "nat \<Rightarrow> 't trampoline_worker" where
  "idle_worker n = \<lparr>head = None, tail = None, wip = False, nodes = (\<lambda>_. None), fresh = n\<rparr>"

definition busy_worker :: "nat \<Rightarrow> 't \<Rightarrow> 't trampoline_worker" where
  "busy_worker n t = \<lparr>head = None, tail = None, wip = True,
     nodes = [n \<mapsto> \<lparr>qn_runnable = t, qn_prev = None\<rparr>], fresh = n + 1\<rparr>"

lemma create_is_idle: "scheduler_create_worker = idle_worker 0"
  by (simp add: scheduler_create_worker_def idle_worker_def)

lemma idle_worker_simps [simp]: "queue_rep (idle_worker n) {} []" "wip (idle_worker n) = False"
  "fresh (idle_worker n) = n"
  by (simp_all add: queue_rep_def idle_worker_def)

context worker_lens begin

lemma schedule_leaf:
  assumes "get s = idle_worker n" "2 \<le> k"
    and leaf: "\<And>s'. run t (put (busy_worker n t) s) = Ok s' \<Longrightarrow> get s' = busy_worker n t"
  shows "worker_schedule get put run k True t s =
    and_then (run t (put (busy_worker n t) s)) (\<lambda>s'. Ok (put (idle_worker (Suc n)) s'))"
proof -
  obtain j where k: "k = Suc (Suc j)"
    using assms(2) by (auto simp: le_iff_add)
  let ?w = "\<lparr>head = Some n, tail = Some n, wip = False, nodes = [n \<mapsto> \<lparr>qn_runnable = t, qn_prev = None\<rparr>],
    fresh = Suc n\<rparr>"
  have enq: "worker_enqueue True t (get s) = Ok ?w"
    by (simp add: worker_enqueue_def assms(1) idle_worker_def Let_def)
  have deq: "worker_dequeue \<lparr>head = Some n, tail = Some n, wip = True,
      nodes = [n \<mapsto> \<lparr>qn_runnable = t, qn_prev = None\<rparr>], fresh = Suc n\<rparr> = Ok (Some n, busy_worker n t)"
    by (simp add: worker_dequeue_def busy_worker_def Let_def)
  have node: "nodes (busy_worker n t) n = Some \<lparr>qn_runnable = t, qn_prev = None\<rparr>"
    by (simp add: busy_worker_def)
  have rest: "worker_drain get put run (Suc j) (put (free_node n (busy_worker n t)) s') =
      Ok (put (free_node n (busy_worker n t)) s')" for s'
    by (simp add: get_put put_put worker_dequeue_def free_node_def busy_worker_def)
  have "worker_drain get put run k (put (?w\<lparr>wip := True\<rparr>) (put ?w s)) =
      and_then (run t (put (busy_worker n t) s)) (\<lambda>s'.
        worker_drain get put run (Suc j) (put (free_node n (get s')) s'))"
    unfolding k worker_drain.simps(2) [of get put run "Suc j"]
    by (simp add: get_put put_put deq node Let_def del: worker_drain.simps)
  moreover have "(free_node n (busy_worker n t))\<lparr>wip := False\<rparr> = idle_worker (Suc n)"
    by (simp add: free_node_def busy_worker_def idle_worker_def)
  ultimately show ?thesis
    using leaf
    by (cases "run t (put (busy_worker n t) s)")
      (simp_all add: worker_schedule_def enq rest get_put put_put del: worker_drain.simps)
qed

end

text \<open>
  Tasks that are simulated by steps of the abstract scheduler, in a state that
  is related to the abstract one whatever its worker. \<open>good\<close> are the tasks
  that are ever scheduled.
\<close>

locale scheduled_tasks = worker_lens get put
  for get :: "'s \<Rightarrow> 't trampoline_worker" and put :: "'t trampoline_worker \<Rightarrow> 's \<Rightarrow> 's" +
  fixes run :: "'t \<Rightarrow> 's \<Rightarrow> 's res"
    and step :: "'t \<Rightarrow> 'x \<Rightarrow> 'x \<times> 't list"
    and R :: "'x \<Rightarrow> 's \<Rightarrow> bool"
    and good :: "'t \<Rightarrow> bool"
  assumes good_step: "good t \<Longrightarrow> u \<in> set (snd (step t x)) \<Longrightarrow> good u"
    and R_put: "R x s \<Longrightarrow> R x (put w s)"
    and run_step: "good t \<Longrightarrow> R x s \<Longrightarrow> queue_rep (get s) A ts \<Longrightarrow> wip (get s) \<Longrightarrow>
      \<exists>s'. run t s = Ok s' \<and> R (fst (step t x)) s' \<and>
        queue_rep (get s') A (ts @ snd (step t x)) \<and> wip (get s')"
begin

lemma drain_refines:
  "fifo_run step k ts x = Some y \<Longrightarrow> \<forall>t \<in> set ts. good t \<Longrightarrow> R x s \<Longrightarrow> queue_rep (get s) A ts \<Longrightarrow>
    wip (get s) \<Longrightarrow>
    \<exists>s'. worker_drain get put run k s = Ok s' \<and> R y s' \<and> queue_rep (get s') A [] \<and> wip (get s')"
proof (induction k arbitrary: ts x s)
  case 0
  then show ?case by simp
next
  case (Suc k)
  show ?case
  proof (cases ts)
    case Nil
    with Suc.prems show ?thesis
      by (simp add: queue_rep_dequeue_Nil put_get)
  next
    case (Cons t us)
    obtain a w where d: "worker_dequeue (get s) = Ok (Some a, w)"
      "map_option qn_runnable (nodes w a) = Some t" "a \<notin> A" "queue_rep w (insert a A) us" "wip w"
      using queue_rep_dequeue_Cons [of "get s" A t us] Suc.prems Cons by auto
    then obtain n where n: "nodes w a = Some n" "qn_runnable n = t" by auto
    have good: "good t" "\<forall>u \<in> set (us @ snd (step t x)). good u"
      using Suc.prems(2) Cons good_step by auto
    have "R x (put w s)" using Suc.prems(3) by (rule R_put)
    then obtain s2 where s2: "run t (put w s) = Ok s2" "R (fst (step t x)) s2"
      "queue_rep (get s2) (insert a A) (us @ snd (step t x))" "wip (get s2)"
      using run_step [of t x "put w s" "insert a A" us] good(1) d by (auto simp: get_put)
    let ?s = "put (free_node a (get s2)) s2"
    have "queue_rep (get ?s) A (us @ snd (step t x))" "wip (get ?s)" "R (fst (step t x)) ?s"
      using s2 d(3) by (simp_all add: get_put queue_rep_free R_put) (simp add: free_node_def)
    moreover have "fifo_run step k (us @ snd (step t x)) (fst (step t x)) = Some y"
      using Suc.prems(1) Cons by simp
    ultimately show ?thesis
      using Suc.IH [of "us @ snd (step t x)" "fst (step t x)" ?s] good(2) d(1) n s2(1)
      by (simp add: Let_def)
  qed
qed

lemma schedule_idle:
  assumes "fifo_run step k (ts @ [t]) x = Some y" "\<forall>u \<in> set (ts @ [t]). good u"
    and "R x s" "queue_rep (get s) A ts" "\<not> wip (get s)"
  shows "\<exists>s'. worker_schedule get put run k True t s = Ok s' \<and> R y s' \<and>
    queue_rep (get s') A [] \<and> \<not> wip (get s')"
proof -
  obtain w where w: "worker_enqueue True t (get s) = Ok w" "queue_rep w A (ts @ [t])" "\<not> wip w"
    using queue_rep_enqueue [OF assms(4), of t] assms(5) by auto
  let ?s = "put (w\<lparr>wip := True\<rparr>) (put w s)"
  have rep: "queue_rep (w\<lparr>wip := b\<rparr>) A ts = queue_rep w A ts" for b w A and ts :: "'t list"
  proof -
    have "link_of (w\<lparr>wip := b\<rparr>) = link_of w" by (rule ext) (simp add: link_of_def)
    then show ?thesis by (simp add: queue_rep_def)
  qed
  have "R x ?s"
    using assms(3) by (intro R_put)
  then have "\<exists>s'. worker_drain get put run k ?s = Ok s' \<and> R y s' \<and> queue_rep (get s') A [] \<and> wip (get s')"
    using assms(1,2) w by (intro drain_refines) (simp_all add: get_put rep)
  then obtain s2 where s2: "worker_drain get put run k ?s = Ok s2" "R y s2"
    "queue_rep (get s2) A []" "wip (get s2)"
    by blast
  then show ?thesis
    using w by (simp add: worker_schedule_def Let_def get_put R_put rep)
qed

end

lemma queue_rep_create [simp]: "queue_rep scheduler_create_worker {} []"
  by (simp add: queue_rep_def scheduler_create_worker_def)

lemma wip_create [simp]: "\<not> wip scheduler_create_worker"
  by (simp add: scheduler_create_worker_def)

section \<open>A worker whose tasks schedule tasks\<close>

text \<open>
  The scheduler on its own: a task notes that it ran and schedules the tasks
  \<open>spawn t\<close> on the worker it runs on. Those calls come with no bound for
  their own loop: they could not run a task.
\<close>

type_synonym 't traced = "'t trampoline_worker \<times> 't list"

definition put_traced :: "'t trampoline_worker \<Rightarrow> 't traced \<Rightarrow> 't traced" where
  "put_traced w s = (w, snd s)"

primrec schedule_each :: "'t list \<Rightarrow> 't traced \<Rightarrow> 't traced res" where
  "schedule_each [] s = Ok s"
| "schedule_each (t # ts) s =
     and_then (worker_schedule fst put_traced (\<lambda>_ _. Fault Out_Of_Fuel) 0 True t s) (schedule_each ts)"

definition run_spawning :: "('t \<Rightarrow> 't list) \<Rightarrow> 't \<Rightarrow> 't traced \<Rightarrow> 't traced res" where
  "run_spawning spawn t s = schedule_each (spawn t) (fst s, snd s @ [t])"

interpretation traced: worker_lens fst put_traced
  by unfold_locales (simp_all add: put_traced_def)

lemma schedule_each_busy:
  "wip (fst s) \<Longrightarrow> queue_rep (fst s) A us \<Longrightarrow>
    \<exists>s'. schedule_each ts s = Ok s' \<and> snd s' = snd s \<and> queue_rep (fst s') A (us @ ts) \<and> wip (fst s')"
proof (induction ts arbitrary: s us)
  case Nil
  then show ?case by simp
next
  case (Cons t ts)
  obtain w where "worker_schedule fst put_traced (\<lambda>_ _. Fault Out_Of_Fuel) 0 True t s = Ok (put_traced w s)"
    "queue_rep w A (us @ [t])" "wip w"
    using traced.schedule_busy [OF Cons.prems] by blast
  with Cons.IH [of "put_traced w s" "us @ [t]"] show ?case
    by (auto simp: put_traced_def)
qed

interpretation spawning: scheduled_tasks fst put_traced "run_spawning spawn"
  "\<lambda>t done. (done @ [t], spawn t)" "\<lambda>done s. snd s = done" "\<lambda>_. True"
  for spawn :: "'t \<Rightarrow> 't list"
proof
  fix x :: "'t list" and s :: "'t traced" and A ts t
  assume "snd s = x" "queue_rep (fst s) A ts" "wip (fst s)"
  then show "\<exists>s'. run_spawning spawn t s = Ok s' \<and> snd s' = fst (x @ [t], spawn t) \<and>
      queue_rep (fst s') A (ts @ snd (x @ [t], spawn t)) \<and> wip (fst s')"
    using schedule_each_busy [of "(fst s, snd s @ [t])" A ts "spawn t"]
    by (auto simp: run_spawning_def)
qed (simp_all add: put_traced_def)

text \<open>C20. The trampoline runs tasks first in, first out: scheduling a task on
  an idle worker runs it and everything it schedules, directly or not, in the
  order in which the tasks were scheduled, and leaves the worker idle with an
  empty queue.\<close>

theorem trampoline_runs_fifo:
  assumes "fifo_run (\<lambda>t done. (done @ [t], spawn t)) k [t] [] = Some order"
  shows "\<exists>w. worker_schedule fst put_traced (run_spawning spawn) k True t
      (scheduler_create_worker, []) = Ok (w, order) \<and> \<not> wip w \<and> queue_rep w {} []"
proof -
  let ?s = "(scheduler_create_worker, []) :: 'a traced"
  have "\<exists>s'. worker_schedule fst put_traced (run_spawning spawn) k True t ?s = Ok s' \<and>
      snd s' = order \<and> queue_rep (fst s') {} [] \<and> \<not> wip (fst s')"
    using assms by (intro spawning.schedule_idle [where ts = "[]"]) simp_all
  then show ?thesis by auto
qed

theorem trampoline_runs_fifo_witness:
  "\<exists>w. worker_schedule fst put_traced
      (run_spawning (\<lambda>n. if n < 3 then [2 * n + 1, 2 * n + 2] else [])) 10 True (0 :: nat)
      (scheduler_create_worker, []) = Ok (w, [0, 1, 2, 3, 4, 5, 6]) \<and> \<not> wip w \<and> queue_rep w {} []"
  by (rule trampoline_runs_fifo) (simp add: eval_nat_numeral)

text \<open>A task that schedules another one on its own worker never runs it
  from inside: the call only appends to the queue and returns, whatever the
  task and however little stack is left, so a chain of tasks does not nest.\<close>

lemma trampoline_never_nests:
  assumes "wip w" "queue_rep w A ts"
  shows "\<exists>w'. worker_schedule fst put_traced run 0 True t (w, log) = Ok (w', log) \<and>
    queue_rep w' A (ts @ [t]) \<and> wip w'"
  using traced.schedule_busy [of "(w, log)" A ts run 0 t] assms by (auto simp: put_traced_def)

lemma trampoline_never_nests_witness:
  "\<exists>w'. worker_schedule fst put_traced (\<lambda>_ _. Fault Null_Deref) 0 True (5 :: nat)
      (scheduler_create_worker\<lparr>wip := True\<rparr>, [3]) = Ok (w', [3]) \<and> queue_rep w' {} [5] \<and> wip w'"
  using trampoline_never_nests [of "scheduler_create_worker\<lparr>wip := True\<rparr>" "{}" "[]"
      "\<lambda>_ _. Fault Null_Deref" 5 "[3]"]
  by (simp add: queue_rep_def scheduler_create_worker_def)

end
