(* ===== verification/Rxc_Pipeline.thy ===== *)
theory Rxc_Pipeline
  imports Rxc_Logic Trampoline
begin

text \<open>
  Stages and pipelines (\<open>rxc/include/rxc/pipeline.h\<close> and
  \<open>rxc/src/pipeline.c\<close>): sources, sinks and flows as the structs of functions
  they are, and the stage that \<open>rxc_pipeline_start\<close> puts between a source and
  its sink, whose inlet sends every pull through a worker of the scheduler.
\<close>

section \<open>The state of a running pipeline\<close>

text \<open>
  Beside the connection, a running pipeline has the worker of the scheduler
  stage and that stage's inlet, of which the field \<open>parent\<close> matters: it is
  the inlet of the connection until \<open>cancel\<close> sets it to null. A task of the
  worker is a request, a number of elements to pull from that inlet.
\<close>

record rx = conn +
  worker :: "long trampoline_worker"
  in_parent :: bool

definition set_worker :: "long trampoline_worker \<Rightarrow> 'a rx_scheme \<Rightarrow> 'a rx_scheme" where
  "set_worker w s = s\<lparr>worker := w\<rparr>"

interpretation rx: worker_lens worker set_worker
  by unfold_locales (simp_all add: set_worker_def)

section \<open>Stages\<close>

record ('e, 's) sink =
  create_logic :: "'s \<Rightarrow> 's"
  logic_of :: "'s inlet \<Rightarrow> ('e, 's) sink_logic"

record ('e, 's) source =
  connect :: "('e, 's) sink \<Rightarrow> 's \<Rightarrow> 's res"

record ('a, 'b, 's) flow =
  connect_source :: "('a, 's) source \<Rightarrow> ('b, 's) source"
  connect_sink :: "('b, 's) sink \<Rightarrow> ('a, 's) sink"

record ('e, 's) pipeline =
  pl_source :: "('e, 's) source"
  pl_sink :: "('e, 's) sink"

text \<open>
  What the \<open>connect\<close> functions of the sources do, but for creating their own
  logic: create the sink's logic, connect the two, and tell the sink. \<open>d\<close> is
  how deep calls through the connection may nest.
\<close>

definition connect_stages ::
    "(('e, 'a conn_scheme) sink_logic \<Rightarrow> 'a conn_scheme source_logic) \<Rightarrow> nat \<Rightarrow>
     ('e, 'a conn_scheme) sink \<Rightarrow> 'a conn_scheme \<Rightarrow> 'a conn_scheme res" where
  "connect_stages source_logic d sink s =
     on_connect (logic_of sink (conn_inlet source_logic (logic_of sink) d))
       (rxc_connection_create (create_logic sink s))"

definition rxc_source_to :: "('e, 's) source \<Rightarrow> ('e, 's) sink \<Rightarrow> ('e, 's) pipeline" where
  "rxc_source_to source sink = \<lparr>pl_source = source, pl_sink = sink\<rparr>"

definition rxc_source_via :: "('a, 's) source \<Rightarrow> ('a, 'b, 's) flow \<Rightarrow> ('b, 's) source" where
  "rxc_source_via source flow = connect_source flow source"

definition rxc_flow_to :: "('a, 'b, 's) flow \<Rightarrow> ('b, 's) sink \<Rightarrow> ('a, 's) sink" where
  "rxc_flow_to flow sink = connect_sink flow sink"

text \<open>Joining two flows is a stub in the code: it returns the null pointer.\<close>

definition rxc_flow_via :: "('a, 'b, 's) flow \<Rightarrow> ('b, 'c, 's) flow \<Rightarrow> ('a, 'c, 's) flow option" where
  "rxc_flow_via a b = None"

section \<open>The scheduler stage\<close>

text \<open>\<open>k\<close> bounds the iterations of the worker's loop.\<close>

definition pipeline_executor :: "'a rx_scheme inlet \<Rightarrow> long \<Rightarrow> 'a rx_scheme \<Rightarrow> 'a rx_scheme res" where
  "pipeline_executor parent n s = inlet_pull parent n s"

definition pipeline_inlet_pull ::
    "nat \<Rightarrow> 'a rx_scheme inlet \<Rightarrow> long \<Rightarrow> 'a rx_scheme \<Rightarrow> 'a rx_scheme res" where
  "pipeline_inlet_pull k parent n s =
     (if \<not> in_parent s then Ok s
      else worker_schedule worker set_worker (pipeline_executor parent) k True n s)"

definition pipeline_inlet_cancel :: "'a rx_scheme inlet \<Rightarrow> 'a rx_scheme \<Rightarrow> 'a rx_scheme res" where
  "pipeline_inlet_cancel parent s =
     (if \<not> in_parent s then Fault Null_Deref
      else inlet_cancel parent (s\<lparr>in_parent := False\<rparr>))"

definition pipeline_inlet_create :: "nat \<Rightarrow> 'a rx_scheme inlet \<Rightarrow> 'a rx_scheme inlet" where
  "pipeline_inlet_create k parent =
     \<lparr>inlet_pull = pipeline_inlet_pull k parent, inlet_cancel = pipeline_inlet_cancel parent\<rparr>"

definition pipeline_sink_logic ::
    "nat \<Rightarrow> ('a rx_scheme inlet \<Rightarrow> ('e, 'a rx_scheme) sink_logic) \<Rightarrow>
     'a rx_scheme inlet \<Rightarrow> ('e, 'a rx_scheme) sink_logic" where
  "pipeline_sink_logic k inner i =
     (let logic = inner (pipeline_inlet_create k i)
      in \<lparr>on_connect = (\<lambda>s. on_connect logic (s\<lparr>in_parent := True\<rparr>)),
          on_push = (\<lambda>e s. on_push logic e s),
          on_upstream_finish = (\<lambda>s. on_upstream_finish logic s),
          on_upstream_failure = (\<lambda>s. on_upstream_failure logic s)\<rparr>)"

definition pipeline_sink_create_logic ::
    "('e, 'a rx_scheme) sink \<Rightarrow> 'a rx_scheme \<Rightarrow> 'a rx_scheme" where
  "pipeline_sink_create_logic inner s =
     set_worker scheduler_create_worker (create_logic inner s)"

definition pipeline_sink :: "nat \<Rightarrow> ('e, 'a rx_scheme) sink \<Rightarrow> ('e, 'a rx_scheme) sink" where
  "pipeline_sink k inner =
     \<lparr>create_logic = pipeline_sink_create_logic inner,
      logic_of = pipeline_sink_logic k (logic_of inner)\<rparr>"

definition rxc_pipeline_start ::
    "nat \<Rightarrow> ('e, 'a rx_scheme) pipeline \<Rightarrow> 'a rx_scheme \<Rightarrow> (int \<times> 'a rx_scheme) res" where
  "rxc_pipeline_start k p s =
     and_then (connect (pl_source p) (pipeline_sink k (pl_sink p)) s) (\<lambda>s'. Ok (RXC_EOK, s'))"

lemmas pipeline_defs = rxc_pipeline_start_def rxc_source_to_def pipeline_sink_def
  pipeline_sink_create_logic_def pipeline_sink_logic_def pipeline_inlet_create_def
  connect_stages_def

end
