(* ===== verification/Rxc_Ops.thy ===== *)
theory Rxc_Ops
  imports Rxc_Pipeline
begin

text \<open>
  The operators of the library (\<open>rxc/src/ops\<close>): the counting and the empty
  source, the sinks that call back, ignore or cancel, and the mapping flow
  with the wrapper it is built from.
\<close>

section \<open>Sources\<close>

text \<open>The state of a counting source, and whatever else the pipeline changes.\<close>

record 'w count_rx = rx +
  src_count :: long
  world :: 'w

function count_on_pull ::
    "long \<Rightarrow> (long, 'w count_rx) sink_logic \<Rightarrow> long \<Rightarrow> 'w count_rx \<Rightarrow> 'w count_rx res" where
  "count_on_pull to out n s =
     (if sint n \<le> 0 then Ok s
      else if sint to \<le> sint (src_count s) then rxc_outlet_complete out s
      else
        let element = src_count s;
            s1 = s\<lparr>src_count := element + 1\<rparr>
        in and_then (rxc_outlet_emit out element s1) (\<lambda>(_, s2). count_on_pull to out (n - 1) s2))"
  by pat_completeness auto
termination
  by (relation "measure (\<lambda>(to, out, n, s). nat (sint n))") (auto simp: long_minus_one)

declare count_on_pull.simps [simp del]

definition count_source_logic ::
    "long \<Rightarrow> (long, 'w count_rx) sink_logic \<Rightarrow> 'w count_rx source_logic" where
  "count_source_logic to out = \<lparr>on_pull = count_on_pull to out, on_downstream_finish = Ok\<rparr>"

definition rxc_source_count :: "nat \<Rightarrow> long \<Rightarrow> long \<Rightarrow> (long, 'w count_rx) source" where
  "rxc_source_count d from to =
     \<lparr>connect = (\<lambda>sink s. connect_stages (count_source_logic to) d sink (s\<lparr>src_count := from\<rparr>))\<rparr>"

definition empty_source_logic :: "('e, 'a conn_scheme) sink_logic \<Rightarrow> 'a conn_scheme source_logic" where
  "empty_source_logic out = \<lparr>on_pull = (\<lambda>n. Ok), on_downstream_finish = Ok\<rparr>"

definition rxc_source_empty :: "nat \<Rightarrow> ('e, 'a conn_scheme) source" where
  "rxc_source_empty d = \<lparr>connect = (\<lambda>sink s. connect_stages empty_source_logic d sink s)\<rparr>"

section \<open>Sinks\<close>

definition foreach_logic :: "('e \<Rightarrow> 's \<Rightarrow> 's res) \<Rightarrow> 's inlet \<Rightarrow> ('e, 's) sink_logic" where
  "foreach_logic callback i =
     \<lparr>on_connect = rxc_inlet_pull i 1,
      on_push = (\<lambda>e s. and_then (callback e s) (rxc_inlet_pull i 1)),
      on_upstream_finish = Ok, on_upstream_failure = Ok\<rparr>"

definition rxc_sink_foreach :: "('e \<Rightarrow> 's \<Rightarrow> 's res) \<Rightarrow> ('e, 's) sink" where
  "rxc_sink_foreach callback = \<lparr>create_logic = (\<lambda>s. s), logic_of = foreach_logic callback\<rparr>"

definition ignore_logic :: "'s inlet \<Rightarrow> ('e, 's) sink_logic" where
  "ignore_logic i =
     \<lparr>on_connect = rxc_inlet_pull i LONG_MAX, on_push = (\<lambda>e. Ok),
      on_upstream_finish = Ok, on_upstream_failure = Ok\<rparr>"

definition rxc_sink_ignore :: "('e, 's) sink" where
  "rxc_sink_ignore = \<lparr>create_logic = (\<lambda>s. s), logic_of = ignore_logic\<rparr>"

definition canceled_logic :: "'s inlet \<Rightarrow> ('e, 's) sink_logic" where
  "canceled_logic i =
     \<lparr>on_connect = rxc_inlet_cancel i, on_push = (\<lambda>e. Ok),
      on_upstream_finish = Ok, on_upstream_failure = Ok\<rparr>"

definition rxc_sink_canceled :: "('e, 's) sink" where
  "rxc_sink_canceled = \<lparr>create_logic = (\<lambda>s. s), logic_of = canceled_logic\<rparr>"

section \<open>Flows\<close>

text \<open>A flow from a function that wraps a sink.\<close>

definition source_wrapper :: "(('b, 's) sink \<Rightarrow> ('a, 's) sink) \<Rightarrow> ('a, 's) source \<Rightarrow> ('b, 's) source" where
  "source_wrapper wrap inner = \<lparr>connect = (\<lambda>sink s. connect inner (wrap sink) s)\<rparr>"

definition rxc_flow_wrapper :: "(('b, 's) sink \<Rightarrow> ('a, 's) sink) \<Rightarrow> ('a, 'b, 's) flow" where
  "rxc_flow_wrapper wrap = \<lparr>connect_source = source_wrapper wrap, connect_sink = wrap\<rparr>"

text \<open>
  The failure handler of the mapping stage casts the sink, not the logic, to
  the logic's type: it reads the field \<open>inner\<close> behind the end of the smaller
  struct.
\<close>

definition map_logic :: "('a \<Rightarrow> 'b) \<Rightarrow> ('s inlet \<Rightarrow> ('b, 's) sink_logic) \<Rightarrow> 's inlet \<Rightarrow> ('a, 's) sink_logic" where
  "map_logic mapping inner i =
     (let logic = inner i
      in \<lparr>on_connect = (\<lambda>s. on_connect logic s),
          on_push = (\<lambda>e s. on_push logic (mapping e) s),
          on_upstream_finish = (\<lambda>s. on_upstream_finish logic s),
          on_upstream_failure = (\<lambda>s. Fault Out_Of_Bounds)\<rparr>)"

definition map_sink_wrap :: "('a \<Rightarrow> 'b) \<Rightarrow> ('b, 's) sink \<Rightarrow> ('a, 's) sink" where
  "map_sink_wrap mapping inner =
     \<lparr>create_logic = create_logic inner, logic_of = map_logic mapping (logic_of inner)\<rparr>"

definition rxc_flow_map :: "('a \<Rightarrow> 'b) \<Rightarrow> ('a, 'b, 's) flow" where
  "rxc_flow_map mapping = rxc_flow_wrapper (map_sink_wrap mapping)"

lemmas ops_defs = rxc_source_count_def rxc_source_empty_def rxc_sink_foreach_def rxc_sink_ignore_def
  rxc_sink_canceled_def rxc_flow_map_def rxc_flow_wrapper_def source_wrapper_def map_sink_wrap_def
  rxc_flow_to_def rxc_source_via_def

lemmas logic_of_defs = foreach_logic_def ignore_logic_def canceled_logic_def map_logic_def
  empty_source_logic_def count_source_logic_def rxc_inlet_pull_def rxc_inlet_cancel_def

section \<open>The elements of a counting source\<close>

definition counting :: "long \<Rightarrow> long \<Rightarrow> long list" where
  "counting from to = map (\<lambda>i. from + of_nat i) [0..<nat (sint to - sint from)]"

lemma counting_done: "sint to \<le> sint c \<Longrightarrow> counting c to = []"
  by (simp add: counting_def)

lemma counting_step:
  assumes "sint c < sint to"
  shows "counting c to = c # counting (c + 1) to"
proof -
  have c1: "sint (c + 1) = sint c + 1"
    using assms long_range [of to] by (intro long_plus_one) simp
  then have n: "nat (sint to - sint c) = Suc (nat (sint to - sint (c + 1)))"
    using assms by simp
  have upt: "[0..<Suc m] = 0 # map Suc [0..<m]" for m
    unfolding map_Suc_upt by (rule upt_conv_Cons) simp
  show ?thesis
    unfolding counting_def n upt by (simp add: algebra_simps del: upt_Suc)
qed

lemma length_counting [simp]: "length (counting from to) = nat (sint to - sint from)"
  by (simp add: counting_def)

lemma sint_counting:
  "i < nat (sint to - sint from) \<Longrightarrow> sint (counting from to ! i) = sint from + int i"
proof (induction i arbitrary: "from")
  case 0
  then show ?case by (simp add: counting_step)
next
  case (Suc i)
  then have lt: "sint from < sint to" by simp
  then have "sint (from + 1) = sint from + 1"
    using long_range [of to] by (intro long_plus_one) simp
  then show ?case
    using Suc.IH [of "from + 1"] Suc.prems by (simp add: counting_step [OF lt])
qed

section \<open>A sink that pulls one element at a time\<close>

text \<open>
  The sinks that pull one element when connected and one more after each
  element, behind the scheduler stage; \<open>g\<close> is what an element does to the
  rest of the state.
\<close>

locale one_at_a_time =
  fixes k d :: nat and to :: long
    and L :: "'w count_rx inlet \<Rightarrow> (long, 'w count_rx) sink_logic"
    and g :: "long \<Rightarrow> 'w \<Rightarrow> 'w"
  assumes L_connect: "on_connect (L i) s = pipeline_inlet_pull k i 1 (s\<lparr>in_parent := True\<rparr>)"
    and L_push: "on_push (L i) e s = pipeline_inlet_pull k i 1 (s\<lparr>world := g e (world s)\<rparr>)"
    and L_finish: "on_upstream_finish (L i) s = Ok s"

type_synonym 'w stream_state = "long list \<times> 'w \<times> bool"

text \<open>
  The abstract stream: the elements still to come, the rest of the state, and
  whether the connection is open. A request delivers the next element and
  leads to the next request, or ends the stream.
\<close>

fun stream_step :: "(long \<Rightarrow> 'w \<Rightarrow> 'w) \<Rightarrow> long \<Rightarrow> 'w stream_state \<Rightarrow> 'w stream_state \<times> long list" where
  "stream_step g n (es, w, False) = ((es, w, False), [])"
| "stream_step g n ([], w, True) = (([], w, False), [])"
| "stream_step g n (e # es, w, True) = ((es, g e w, True), [1])"

definition stream_rel :: "long \<Rightarrow> 'w stream_state \<Rightarrow> 'w count_rx \<Rightarrow> bool" where
  "stream_rel to x s \<longleftrightarrow> (case x of (es, w, opn) \<Rightarrow> world s = w \<and> in_parent s \<and>
     (if opn then requested s = 0 \<and> es = counting (src_count s) to else requested s = LONG_MIN))"

lemma stream_rel_worker: "stream_rel to x s \<Longrightarrow> stream_rel to x (set_worker w s)"
  by (simp add: stream_rel_def set_worker_def split: prod.splits)

lemma stream_run:
  "length es + 2 \<le> k \<Longrightarrow> fifo_run (stream_step g) k [1] (es, w, True) = Some ([], fold g es w, False)"
proof (induction es arbitrary: w k)
  case Nil
  then obtain j where "k = Suc (Suc j)" by (auto simp: le_iff_add)
  then show ?case by simp
next
  case (Cons e es)
  then obtain j where "k = Suc j" "length es + 2 \<le> j" by (cases k) auto
  with Cons.IH show ?case by simp
qed

lemma count_on_pull_one:
  "count_on_pull to out 1 s =
     (if sint to \<le> sint (src_count s) then rxc_outlet_complete out s
      else and_then (rxc_outlet_emit out (src_count s) (s\<lparr>src_count := src_count s + 1\<rparr>)) (\<lambda>(_, s2). Ok s2))"
  by (simp add: count_on_pull.simps [of to out 1] count_on_pull.simps [of to out 0] Let_def
      case_prod_unfold)

sublocale one_at_a_time \<subseteq> tasks: scheduled_tasks worker set_worker
  "pipeline_executor (conn_inlet (count_source_logic to) L (Suc d))" "stream_step g" "stream_rel to"
  "\<lambda>n. n = 1"
proof unfold_locales
  fix t u :: long and x :: "'w stream_state"
  show "t = 1 \<Longrightarrow> u \<in> set (snd (stream_step g t x)) \<Longrightarrow> u = 1"
    by (induction g t x rule: stream_step.induct) auto
next
  fix x :: "'w stream_state" and s :: "'w count_rx" and w
  show "stream_rel to x s \<Longrightarrow> stream_rel to x (set_worker w s)"
    by (rule stream_rel_worker)
next
  fix t :: long and x :: "'w stream_state" and s :: "'w count_rx" and A ts
  assume t: "t = 1" and R: "stream_rel to x s" and q: "queue_rep (worker s) A ts" and w: "wip (worker s)"
  let ?i = "conn_inlet (count_source_logic to) L d"
  obtain es v opn where x: "x = (es, v, opn)" by (cases x) auto
  have run: "pipeline_executor (conn_inlet (count_source_logic to) L (Suc d)) t s =
      rxc_connection_inlet_pull (count_source_logic to (L ?i)) 1 s"
    by (simp add: pipeline_executor_def t Let_def)
  show "\<exists>s'. pipeline_executor (conn_inlet (count_source_logic to) L (Suc d)) t s = Ok s' \<and>
      stream_rel to (fst (stream_step g t x)) s' \<and>
      queue_rep (worker s') A (ts @ snd (stream_step g t x)) \<and> wip (worker s')"
  proof (cases opn)
    case False
    with R q w x show ?thesis
      unfolding run by (simp add: stream_rel_def rxc_connection_inlet_pull_def)
  next
    case open': True
    with R x have st: "requested s = 0" "es = counting (src_count s) to" "world s = v" "in_parent s"
      by (simp_all add: stream_rel_def)
    let ?s1 = "s\<lparr>requested := 1\<rparr>"
    have pull: "rxc_connection_inlet_pull (count_source_logic to (L ?i)) 1 s =
        count_on_pull to (L ?i) 1 ?s1"
      using st by (simp add: rxc_connection_inlet_pull_def count_source_logic_def Let_def)
    show ?thesis
    proof (cases "sint to \<le> sint (src_count s)")
      case True
      then show ?thesis
        unfolding run pull count_on_pull_one
        using st x open' q w
        by (simp add: counting_done rxc_outlet_complete_def L_finish stream_rel_def)
    next
      case False
      then have es: "es = src_count s # counting (src_count s + 1) to"
        using st counting_step [of "src_count s" to] by simp
      let ?s2 = "s\<lparr>src_count := src_count s + 1, requested := 0, world := g (src_count s) v\<rparr>"
      have busy: "wip (worker ?s2)" "queue_rep (worker ?s2) A ts"
        using q w by simp_all
      obtain w' where w': "worker_schedule worker set_worker (pipeline_executor ?i) k True 1 ?s2 =
          Ok (set_worker w' ?s2)" "queue_rep w' A (ts @ [1])" "wip w'"
        using rx.schedule_busy [OF busy] by blast
      have "count_on_pull to (L ?i) 1 ?s1 = Ok (set_worker w' ?s2)"
        using False st w'(1)
        by (simp add: count_on_pull_one rxc_outlet_emit_def L_push pipeline_inlet_pull_def)
      then show ?thesis
        unfolding run pull
        using x open' es st w' by (simp add: stream_rel_def set_worker_def)
    qed
  qed
qed

context one_at_a_time begin

text \<open>Connecting such a sink runs the whole stream.\<close>

lemma connect_runs:
  assumes "nat (sint to - sint from) + 2 \<le> k"
    and "worker s = scheduler_create_worker" "requested s = 0" "src_count s = from"
  shows "\<exists>s'. on_connect (L (conn_inlet (count_source_logic to) L (Suc d))) s = Ok s' \<and>
    world s' = fold g (counting from to) (world s) \<and> requested s' = LONG_MIN \<and>
    queue_rep (worker s') {} [] \<and> \<not> wip (worker s')"
proof -
  let ?s = "s\<lparr>in_parent := True\<rparr>"
  let ?x = "(counting from to, world s, True)"
  have "\<exists>s'. worker_schedule worker set_worker
      (pipeline_executor (conn_inlet (count_source_logic to) L (Suc d))) k True 1 ?s = Ok s' \<and>
      stream_rel to ([], fold g (counting from to) (world s), False) s' \<and>
      queue_rep (worker s') {} [] \<and> \<not> wip (worker s')"
    using assms stream_run [of "counting from to" k g "world s"]
    by (intro tasks.schedule_idle [where ts = "[]" and x = ?x]) (simp_all add: stream_rel_def)
  then show ?thesis
    by (auto simp: L_connect pipeline_inlet_pull_def stream_rel_def simp del: conn_inlet.simps)
qed

end

section \<open>A sink connected without the scheduler stage\<close>

lemma direct_pull:
  assumes cb: "\<And>e s. callback e s = Ok (s\<lparr>world := g e (world s)\<rparr>)"
  shows "requested s = 0 \<Longrightarrow>
    inlet_pull (conn_inlet (count_source_logic to) (foreach_logic callback) d) 1 s =
      (if d \<le> length (counting (src_count s) to) then Fault Out_Of_Fuel
       else Ok (s\<lparr>requested := LONG_MIN, src_count := src_count s + of_nat (length (counting (src_count s) to)),
         world := fold g (counting (src_count s) to) (world s)\<rparr>))"
proof (induction d arbitrary: s)
  case 0
  then show ?case by simp
next
  case (Suc d)
  show ?case
  proof (cases "sint to \<le> sint (src_count s)")
    case True
    with Suc.prems show ?thesis
      by (simp add: rxc_connection_inlet_pull_def count_source_logic_def count_on_pull_one
          rxc_outlet_complete_def counting_done foreach_logic_def Let_def del: length_counting)
  next
    case False
    then have c: "counting (src_count s) to = src_count s # counting (src_count s + 1) to"
      using counting_step by simp
    let ?s = "s\<lparr>requested := 1, src_count := src_count s + 1, requested := 0,
      world := g (src_count s) (world s)\<rparr>"
    have "inlet_pull (conn_inlet (count_source_logic to) (foreach_logic callback) (Suc d)) 1 s =
        and_then (inlet_pull (conn_inlet (count_source_logic to) (foreach_logic callback) d) 1 ?s) Ok"
      using Suc.prems False
      by (simp add: rxc_connection_inlet_pull_def count_source_logic_def count_on_pull_one
          rxc_outlet_emit_def foreach_logic_def cb rxc_inlet_pull_def Let_def case_prod_unfold
          and_then_assoc)
    also have "\<dots> = inlet_pull (conn_inlet (count_source_logic to) (foreach_logic callback) d) 1 ?s"
      by simp
    finally show ?thesis
      using Suc.IH [of ?s] by (simp add: c algebra_simps del: length_counting conn_inlet.simps)
  qed
qed

section \<open>A sink with unbounded demand\<close>

lemma count_on_pull_unbounded:
  assumes push: "\<And>e s. on_push out e s = Ok s" and fin: "\<And>s. on_upstream_finish out s = Ok s"
  shows "requested s = LONG_MAX \<Longrightarrow> int (length (counting (src_count s) to)) < sint n \<Longrightarrow>
    count_on_pull to out n s =
      Ok (s\<lparr>src_count := src_count s + of_nat (length (counting (src_count s) to)), requested := LONG_MIN\<rparr>)"
proof (induction "length (counting (src_count s) to)" arbitrary: s n)
  case 0
  then have "sint to \<le> sint (src_count s)" by simp
  with 0 fin show ?case
    by (subst count_on_pull.simps) (simp add: rxc_outlet_complete_def)
next
  case (Suc m)
  then have lt: "sint (src_count s) < sint to" by simp
  then have c: "counting (src_count s) to = src_count s # counting (src_count s + 1) to"
    by (rule counting_step)
  let ?s = "s\<lparr>src_count := src_count s + 1\<rparr>"
  have pos: "0 < sint n"
    using Suc.prems(2) by linarith
  then have n1: "sint (n - 1) = sint n - 1"
    by (intro long_minus_one) simp
  have "count_on_pull to out n s = count_on_pull to out (n - 1) ?s"
    using Suc.prems lt push
    by (subst count_on_pull.simps) (simp add: rxc_outlet_emit_def Let_def)
  also have "\<dots> = Ok (?s\<lparr>src_count := src_count ?s + of_nat (length (counting (src_count ?s) to)),
      requested := LONG_MIN\<rparr>)"
    using Suc.hyps(2) Suc.prems n1 c by (intro Suc.hyps(1)) (auto simp del: length_counting)
  finally show ?case
    by (simp add: c algebra_simps del: length_counting)
qed

section \<open>Properties\<close>

interpretation foreach: one_at_a_time k d to
    "pipeline_sink_logic k (foreach_logic (\<lambda>e s. Ok (s\<lparr>world := g e (world s)\<rparr>)))" g
  for k d to and g :: "long \<Rightarrow> 'w \<Rightarrow> 'w"
  by unfold_locales
    (simp_all add: pipeline_sink_logic_def pipeline_inlet_create_def foreach_logic_def rxc_inlet_pull_def Let_def)

interpretation mapped: one_at_a_time k d to
    "pipeline_sink_logic k (map_logic f (foreach_logic (\<lambda>e s. Ok (s\<lparr>world := g e (world s)\<rparr>))))"
    "\<lambda>e. g (f e)"
  for k d to and f :: "long \<Rightarrow> 'e" and g :: "'e \<Rightarrow> 'w \<Rightarrow> 'w"
  by unfold_locales
    (simp_all add: pipeline_sink_logic_def pipeline_inlet_create_def foreach_logic_def map_logic_def
      rxc_inlet_pull_def Let_def)

interpretation via_map: one_at_a_time k d to
    "map_logic f (pipeline_sink_logic k (foreach_logic (\<lambda>e s. Ok (s\<lparr>world := g e (world s)\<rparr>))))"
    "\<lambda>e. g (f e)"
  for k d to and f :: "long \<Rightarrow> 'e" and g :: "'e \<Rightarrow> 'w \<Rightarrow> 'w"
  by unfold_locales
    (simp_all add: pipeline_sink_logic_def pipeline_inlet_create_def foreach_logic_def map_logic_def
      rxc_inlet_pull_def Let_def)

lemmas start_simps = pipeline_defs rxc_connection_create_def set_worker_def

text \<open>C19. Running a counting source through a mapping flow into a
  \<open>foreach\<close> sink hands the callback exactly the numbers from \<open>from\<close> up to,
  but not including, \<open>to\<close>, each mapped, in order; then the stream is closed and
  the worker idle. It does so with calls nested one deep through the
  connection, however long the stream is.\<close>

theorem count_map_foreach_runs:
  assumes "nat (sint to - sint from) + 2 \<le> k"
  shows "\<exists>s'. rxc_pipeline_start k
      (rxc_source_to (rxc_source_count (Suc d) from to)
        (rxc_flow_to (rxc_flow_map f) (rxc_sink_foreach (\<lambda>e s. Ok (s\<lparr>world := g e (world s)\<rparr>))))) s
      = Ok (RXC_EOK, s') \<and>
    world s' = fold g (map f (counting from to)) (world s) \<and>
    requested s' = LONG_MIN \<and> queue_rep (worker s') {} [] \<and> \<not> wip (worker s')"
  using mapped.connect_runs [OF assms, where d = d and f = f and g = g
      and s = "s\<lparr>src_count := from, worker := scheduler_create_worker, requested := 0\<rparr>"]
  by (auto simp: start_simps ops_defs fold_map comp_def simp del: conn_inlet.simps)

theorem count_map_foreach_runs_witness:
  "\<exists>s'. rxc_pipeline_start 6
      (rxc_source_to (rxc_source_count 1 (- 1) 3)
        (rxc_flow_to (rxc_flow_map (\<lambda>e. 2 * e)) (rxc_sink_foreach (\<lambda>e s. Ok (s\<lparr>world := world s @ [e]\<rparr>)))))
      \<lparr>requested = 5, worker = scheduler_create_worker, in_parent = False, src_count = 0, world = []\<rparr>
      = Ok (RXC_EOK, s') \<and> world s' = [- 2, 0, 2, 4] \<and> requested s' = LONG_MIN"
proof -
  have "counting (- 1) 3 = [- 1, 0, 1, 2]"
    by (simp add: counting_def eval_nat_numeral)
  then show ?thesis
    using count_map_foreach_runs [of 3 "- 1" 6 0 "\<lambda>e. 2 * e" "\<lambda>e es. es @ [e]"
      "\<lparr>requested = 5, worker = scheduler_create_worker, in_parent = False, src_count = 0, world = []\<rparr>"]
    by auto
qed


text \<open>Without the scheduler stage the same sink nests: every element is
  pushed from inside the push before it, so a stream of \<open>n\<close> numbers needs
  calls nested \<open>n + 1\<close> deep through the connection, and runs out of stack
  with fewer.\<close>

lemma direct_foreach_nests:
  "connect (rxc_source_count d from to) (rxc_sink_foreach (\<lambda>e s. Ok (s\<lparr>world := g e (world s)\<rparr>))) s =
     (if d \<le> nat (sint to - sint from) then Fault Out_Of_Fuel
      else Ok (s\<lparr>src_count := from + of_nat (nat (sint to - sint from)), requested := LONG_MIN,
        world := fold g (counting from to) (world s)\<rparr>))"
  using direct_pull [of "\<lambda>e s. Ok (s\<lparr>world := g e (world s)\<rparr>)" g "s\<lparr>src_count := from, requested := 0\<rparr>" to d]
  by (simp add: rxc_source_count_def rxc_sink_foreach_def connect_stages_def rxc_connection_create_def
      foreach_logic_def rxc_inlet_pull_def)

text \<open>Cancelling ends the stream before its first element: a sink that
  cancels when it is connected leaves the connection closed and the source
  where it started; every later pull is ignored and the connection may be
  cancelled again, but a second cancel through the scheduler stage follows
  its parent pointer, which the first one set to null.\<close>

lemma canceled_stream:
  "\<exists>s'. rxc_pipeline_start k
      (rxc_source_to (rxc_source_count (Suc d) from to) rxc_sink_canceled) s = Ok (RXC_EOK, s') \<and>
    requested s' = LONG_MIN \<and> src_count s' = from \<and> world s' = world s \<and>
    pipeline_inlet_pull k i n s' = Ok s' \<and>
    rxc_connection_inlet_pull source n s' = Ok s' \<and>
    rxc_connection_inlet_cancel source s' = Ok s' \<and>
    pipeline_inlet_cancel i s' = Fault Null_Deref"
proof -
  let ?s = "s\<lparr>src_count := from, worker := scheduler_create_worker, requested := 0,
    in_parent := False, requested := LONG_MIN\<rparr>"
  have "rxc_pipeline_start k (rxc_source_to (rxc_source_count (Suc d) from to) rxc_sink_canceled) s
      = Ok (RXC_EOK, ?s)"
    by (simp add: start_simps ops_defs logic_of_defs rxc_connection_inlet_cancel_def
        pipeline_inlet_cancel_def Let_def)
  then show ?thesis
    by (simp add: rxc_connection_inlet_pull_def rxc_connection_inlet_cancel_def
        pipeline_inlet_pull_def pipeline_inlet_cancel_def)
qed

text \<open>A failure cannot be signalled through a mapping stage: its
  handler reads past the end of the stage's sink, on every open connection
  and whatever the inner sink is.\<close>

lemma map_failure_out_of_bounds:
  "rxc_outlet_fail (logic_of (rxc_flow_to (rxc_flow_map f) sink) i) s =
     (if requested s = LONG_MIN then Ok s else Fault Out_Of_Bounds)"
  by (simp add: rxc_outlet_fail_def ops_defs map_logic_def Let_def)

text \<open>A sink that ignores its elements asks for all of them at once and
  drains a counting source in a single task: the source is left at its end,
  the stream closed, nothing else changed.\<close>

lemma ignored_stream:
  assumes "sint from \<le> sint to" "sint to - sint from < 2 ^ 63 - 1"
  shows "rxc_pipeline_start (Suc (Suc k))
      (rxc_source_to (rxc_source_count (Suc d) from to) rxc_sink_ignore) s =
    Ok (RXC_EOK, s\<lparr>src_count := to, worker := idle_worker 1, in_parent := True, requested := LONG_MIN\<rparr>)"
proof -
  let ?out = "pipeline_sink_logic (Suc (Suc k)) ignore_logic (conn_inlet (count_source_logic to)
    (pipeline_sink_logic (Suc (Suc k)) ignore_logic) d)"
  let ?s = "s\<lparr>src_count := from, worker := idle_worker 0, requested := 0, in_parent := True\<rparr>"
  let ?b = "s\<lparr>src_count := from, in_parent := True, worker := busy_worker 0 LONG_MAX, requested := LONG_MAX\<rparr>"
  have "from + of_nat (nat (sint to - sint from)) = (word_of_int (sint from + (sint to - sint from)) :: long)"
    using assms by (simp add: of_nat_nat)
  then have to: "from + of_nat (length (counting from to)) = to"
    by simp
  have pull: "count_on_pull to ?out LONG_MAX ?b = Ok (?b\<lparr>src_count := to, requested := LONG_MIN\<rparr>)"
    using count_on_pull_unbounded [of ?out ?b to LONG_MAX] assms to
    by (simp add: pipeline_sink_logic_def ignore_logic_def Let_def del: length_counting) simp
  let ?run = "pipeline_executor (conn_inlet (count_source_logic to)
    (pipeline_sink_logic (Suc (Suc k)) ignore_logic) (Suc d))"
  have run: "?run LONG_MAX (set_worker (busy_worker 0 LONG_MAX) ?s) =
      Ok (?b\<lparr>src_count := to, requested := LONG_MIN\<rparr>)"
    using pull
    by (simp add: pipeline_executor_def rxc_connection_inlet_pull_def count_source_logic_def
        set_worker_def Let_def)
  have "worker_schedule worker set_worker ?run (Suc (Suc k)) True LONG_MAX ?s =
      Ok (set_worker (idle_worker 1) (?b\<lparr>src_count := to, requested := LONG_MIN\<rparr>))"
    using rx.schedule_leaf [of ?s 0 "Suc (Suc k)" ?run LONG_MAX] run by simp
  then show ?thesis
    by (simp add: start_simps ops_defs logic_of_defs pipeline_inlet_pull_def create_is_idle
        del: conn_inlet.simps)
qed

lemma ignored_stream_witness:
  "rxc_pipeline_start 2 (rxc_source_to (rxc_source_count 1 3 1000) rxc_sink_ignore)
      \<lparr>requested = 0, worker = idle_worker 0, in_parent = False, src_count = 0, world = ()\<rparr> =
    Ok (RXC_EOK, \<lparr>requested = LONG_MIN, worker = idle_worker 1, in_parent = True,
      src_count = 1000, world = ()\<rparr>)"
  using ignored_stream [of 3 1000 0 0
      "\<lparr>requested = 0, worker = idle_worker 0, in_parent = False, src_count = 0, world = ()\<rparr>"]
  by (simp add: eval_nat_numeral)

text \<open>An empty source never ends its stream: whatever is asked of it,
  it pushes nothing and signals no completion, so the sink is left waiting on
  an open connection.\<close>

lemma empty_source_never_completes:
  "rxc_pipeline_start (Suc (Suc k))
      (rxc_source_to (rxc_source_empty (Suc d)) (rxc_sink_foreach callback)) s =
    Ok (RXC_EOK, s\<lparr>worker := idle_worker 1, in_parent := True, requested := 1\<rparr>)"
proof -
  let ?s = "s\<lparr>worker := idle_worker 0, requested := 0, in_parent := True\<rparr>"
  let ?run = "pipeline_executor (conn_inlet empty_source_logic
    (pipeline_sink_logic (Suc (Suc k)) (foreach_logic callback)) (Suc d))"
  have run: "?run 1 (set_worker (busy_worker 0 1) ?s) =
      Ok (s\<lparr>worker := busy_worker 0 1, in_parent := True, requested := 1\<rparr>)"
    by (simp add: pipeline_executor_def rxc_connection_inlet_pull_def empty_source_logic_def
        set_worker_def Let_def)
  have "worker_schedule worker set_worker ?run (Suc (Suc k)) True 1 ?s =
      Ok (s\<lparr>worker := idle_worker 1, in_parent := True, requested := 1\<rparr>)"
    using rx.schedule_leaf [of ?s 0 "Suc (Suc k)" ?run 1] run by (simp add: set_worker_def)
  then show ?thesis
    by (simp add: start_simps ops_defs logic_of_defs pipeline_inlet_pull_def create_is_idle
        del: conn_inlet.simps)
qed

end
