(* ===== verification/Rxc_Memory.thy ===== *)
theory Rxc_Memory
  imports Sas_Prelude
begin

text \<open>
  The memory of a stream: which objects building and starting a pipeline
  allocates, and which its deallocation frees (\<open>pipeline.c\<close>, \<open>ops/wrapper.c\<close>, \<open>ops/map.c\<close>,
  \<open>schedulers/trampoline.c\<close> and \<open>scheduler.c\<close> of \<open>rxc/src\<close>). What elements flow is the subject of the
  other theories; here a stage is an object with pointers to the objects it was built from.
\<close>

section \<open>Objects\<close>

text \<open>
  The structs that are allocated, each with the pointers that the functions below follow. A source or
  sink without inner stages is \<open>Source\<close> or \<open>Sink\<close>, as are those of the operators, of the WAV
  file, of a session, of the client and of the drivers.
\<close>

type_synonym ptr = "nat option"

datatype object =
    Source
  | Source_Wrapper ptr ptr
  | Flow_Wrapper ptr
  | Map_Ctx
  | Sink
  | Sink_Map ptr
  | Sink_Scheduler ptr
  | Source_Logic
  | Sink_Logic
  | Sink_Logic_Map ptr
  | Sink_Logic_Scheduler ptr ptr
  | Worker
  | Connection
  | Inlet_Scheduler
  | Pipeline ptr ptr

text \<open>\<open>malloc_gives\<close> says which allocations succeed.\<close>

record store =
  objects :: "nat \<Rightarrow> object option"
  next_object :: nat
  malloc_gives :: "nat \<Rightarrow> bool"

definition malloc :: "object \<Rightarrow> store \<Rightarrow> ptr \<times> store" where
  "malloc x m =
     (let a = next_object m; m1 = m\<lparr>next_object := a + 1\<rparr>
      in if malloc_gives m a then (Some a, m1\<lparr>objects := (objects m1)(a \<mapsto> x)\<rparr>) else (None, m1))"

text \<open>An allocation whose result is written to without a check.\<close>

definition malloc_unchecked :: "object \<Rightarrow> store \<Rightarrow> (ptr \<times> store) res" where
  "malloc_unchecked x m =
     (case malloc x m of (None, m1) \<Rightarrow> Fault Null_Deref | (Some a, m1) \<Rightarrow> Ok (Some a, m1))"

definition object_at :: "ptr \<Rightarrow> store \<Rightarrow> object res" where
  "object_at p m = and_then (deref Null_Deref p) (\<lambda>a. deref Use_After_Free (objects m a))"

definition free :: "ptr \<Rightarrow> store \<Rightarrow> store res" where
  "free p m =
     (case p of
        None \<Rightarrow> Ok m
      | Some a \<Rightarrow> if objects m a = None then Fault Use_After_Free else Ok (m\<lparr>objects := (objects m)(a := None)\<rparr>))"

definition set_object :: "nat \<Rightarrow> object \<Rightarrow> store \<Rightarrow> store" where
  "set_object a x m = m\<lparr>objects := (objects m)(a \<mapsto> x)\<rparr>"

section \<open>Building\<close>

definition mem_flow_wrapper :: "ptr \<Rightarrow> store \<Rightarrow> (ptr \<times> store) res" where
  "mem_flow_wrapper ctx m = malloc_unchecked (Flow_Wrapper ctx) m"

definition mem_flow_map :: "store \<Rightarrow> (ptr \<times> store) res" where
  "mem_flow_map m = and_then (malloc_unchecked Map_Ctx m) (\<lambda>(ctx, m1). mem_flow_wrapper ctx m1)"

text \<open>A call through a pointer to an object of another kind is outside its struct.\<close>

definition mem_source_via :: "ptr \<Rightarrow> ptr \<Rightarrow> store \<Rightarrow> (ptr \<times> store) res" where
  "mem_source_via source flow m =
     and_then (object_at flow m) (\<lambda>f.
     case f of Flow_Wrapper ctx \<Rightarrow> Ok (malloc (Source_Wrapper source flow) m) | _ \<Rightarrow> Fault Out_Of_Bounds)"

definition mem_source_to :: "ptr \<Rightarrow> ptr \<Rightarrow> store \<Rightarrow> ptr \<times> store" where
  "mem_source_to source sink m = malloc (Pipeline source sink) m"

section \<open>Starting\<close>

definition mem_create_worker :: "store \<Rightarrow> (ptr \<times> store) res" where
  "mem_create_worker m = malloc_unchecked Worker m"

text \<open>
  Sinks nest: the first argument bounds how deep. An inner logic that cannot be
  allocated is a null pointer in the outer one.
\<close>

fun mem_create_logic :: "nat \<Rightarrow> ptr \<Rightarrow> store \<Rightarrow> (ptr \<times> store) res" where
  "mem_create_logic 0 sink m = Fault Out_Of_Fuel"
| "mem_create_logic (Suc d) sink m =
     and_then (object_at sink m) (\<lambda>s.
     case s of
       Sink \<Rightarrow> Ok (malloc Sink_Logic m)
     | Sink_Map inner \<Rightarrow>
         (case malloc (Sink_Logic_Map None) m of
            (None, m1) \<Rightarrow> Ok (None, m1)
          | (Some a, m1) \<Rightarrow>
              and_then (mem_create_logic d inner m1) (\<lambda>(l, m2). Ok (Some a, set_object a (Sink_Logic_Map l) m2)))
     | Sink_Scheduler inner \<Rightarrow>
         (case malloc (Sink_Logic_Scheduler None None) m of
            (None, m1) \<Rightarrow> Ok (None, m1)
          | (Some a, m1) \<Rightarrow>
              and_then (mem_create_logic d inner m1) (\<lambda>(l, m2).
              and_then (mem_create_worker m2) (\<lambda>(w, m3).
              Ok (Some a, set_object a (Sink_Logic_Scheduler l w) m3))))
     | _ \<Rightarrow> Fault Out_Of_Bounds)"

text \<open>The connection, which the two logics are told of.\<close>

definition mem_connection_create :: "ptr \<Rightarrow> ptr \<Rightarrow> store \<Rightarrow> store res" where
  "mem_connection_create source_logic sink_logic m =
     and_then (malloc_unchecked Connection m) (\<lambda>(c, m1).
     and_then (object_at source_logic m1) (\<lambda>s. and_then (object_at sink_logic m1) (\<lambda>t. Ok m1)))"

text \<open>
  Being connected: the inlet of the scheduler stage is created on the way. What the
  innermost sink does then is a parameter.
\<close>

fun mem_on_connect :: "(ptr \<Rightarrow> store \<Rightarrow> store res) \<Rightarrow> nat \<Rightarrow> ptr \<Rightarrow> store \<Rightarrow> store res" where
  "mem_on_connect leaf 0 logic m = Fault Out_Of_Fuel"
| "mem_on_connect leaf (Suc d) logic m =
     and_then (object_at logic m) (\<lambda>l.
     case l of
       Sink_Logic \<Rightarrow> leaf logic m
     | Sink_Logic_Map inner \<Rightarrow> mem_on_connect leaf d inner m
     | Sink_Logic_Scheduler inner w \<Rightarrow>
         and_then (malloc_unchecked Inlet_Scheduler m) (\<lambda>(i, m1). mem_on_connect leaf d inner m1)
     | _ \<Rightarrow> Fault Out_Of_Bounds)"

definition mem_sink_wrap :: "ptr \<Rightarrow> ptr \<Rightarrow> store \<Rightarrow> (ptr \<times> store) res" where
  "mem_sink_wrap sink ctx m =
     (case malloc (Sink_Map sink) m of
        (None, m1) \<Rightarrow> Ok (None, m1)
      | (Some a, m1) \<Rightarrow> and_then (object_at ctx m1) (\<lambda>c. Ok (Some a, m1)))"

definition mem_flow_connect_sink :: "ptr \<Rightarrow> ptr \<Rightarrow> store \<Rightarrow> (ptr \<times> store) res" where
  "mem_flow_connect_sink flow sink m =
     and_then (object_at flow m) (\<lambda>f.
     case f of Flow_Wrapper ctx \<Rightarrow> mem_sink_wrap sink ctx m | _ \<Rightarrow> Fault Out_Of_Bounds)"

fun mem_connect :: "(ptr \<Rightarrow> store \<Rightarrow> store res) \<Rightarrow> nat \<Rightarrow> ptr \<Rightarrow> ptr \<Rightarrow> store \<Rightarrow> store res" where
  "mem_connect leaf 0 source sink m = Fault Out_Of_Fuel"
| "mem_connect leaf (Suc d) source sink m =
     and_then (object_at source m) (\<lambda>s.
     case s of
       Source \<Rightarrow>
         (let (source_logic, m1) = malloc Source_Logic m
          in and_then (mem_create_logic d sink m1) (\<lambda>(sink_logic, m2).
             and_then (mem_connection_create source_logic sink_logic m2) (\<lambda>m3.
             mem_on_connect leaf d sink_logic m3)))
     | Source_Wrapper inner flow \<Rightarrow>
         and_then (mem_flow_connect_sink flow sink m) (\<lambda>(wrapper, m1). mem_connect leaf d inner wrapper m1)
     | _ \<Rightarrow> Fault Out_Of_Bounds)"

definition mem_pipeline_start :: "(ptr \<Rightarrow> store \<Rightarrow> store res) \<Rightarrow> nat \<Rightarrow> ptr \<Rightarrow> store \<Rightarrow> store res" where
  "mem_pipeline_start leaf d pipeline m =
     and_then (object_at pipeline m) (\<lambda>p.
     case p of
       Pipeline source sink \<Rightarrow>
         (let (wrapper, m1) = malloc (Sink_Scheduler sink) m in mem_connect leaf d source wrapper m1)
     | _ \<Rightarrow> Fault Out_Of_Bounds)"

section \<open>Deallocating\<close>

definition mem_flow_dealloc :: "ptr \<Rightarrow> store \<Rightarrow> store res" where
  "mem_flow_dealloc flow m =
     and_then (object_at flow m) (\<lambda>f.
     case f of Flow_Wrapper ctx \<Rightarrow> and_then (free ctx m) (free flow) | _ \<Rightarrow> Fault Out_Of_Bounds)"

definition mem_source_dealloc :: "ptr \<Rightarrow> bool \<Rightarrow> store \<Rightarrow> store res" where
  "mem_source_dealloc source shallow m =
     and_then (object_at source m) (\<lambda>s.
     case s of
       Source \<Rightarrow> free source m
     | Source_Wrapper inner flow \<Rightarrow>
         and_then (if shallow then Ok m else mem_flow_dealloc flow m) (free source)
     | _ \<Rightarrow> Fault Out_Of_Bounds)"

text \<open>The scheduler is in static storage: deallocating it does nothing.\<close>

definition mem_scheduler_dealloc :: "store \<Rightarrow> store res" where
  "mem_scheduler_dealloc m = Ok m"

text \<open>
  The sinks and logics with an inner one. What deallocates that is an argument, as
  the code calls it through the inner object's pointer.
\<close>

definition map_sink_dealloc ::
    "(ptr \<Rightarrow> bool \<Rightarrow> store \<Rightarrow> store res) \<Rightarrow> ptr \<Rightarrow> ptr \<Rightarrow> bool \<Rightarrow> store \<Rightarrow> store res" where
  "map_sink_dealloc inner_dealloc self inner shallow m =
     and_then (if \<not> shallow then inner_dealloc inner shallow m else Ok m) (free self)"

definition pipeline_sink_dealloc ::
    "(ptr \<Rightarrow> bool \<Rightarrow> store \<Rightarrow> store res) \<Rightarrow> ptr \<Rightarrow> ptr \<Rightarrow> bool \<Rightarrow> store \<Rightarrow> store res" where
  "pipeline_sink_dealloc inner_dealloc self inner shallow m =
     and_then
       (if \<not> shallow then and_then (inner_dealloc inner shallow m) mem_scheduler_dealloc else Ok m)
       (free self)"

fun mem_sink_dealloc :: "nat \<Rightarrow> ptr \<Rightarrow> bool \<Rightarrow> store \<Rightarrow> store res" where
  "mem_sink_dealloc 0 sink shallow m = Fault Out_Of_Fuel"
| "mem_sink_dealloc (Suc d) sink shallow m =
     and_then (object_at sink m) (\<lambda>s.
     case s of
       Sink \<Rightarrow> free sink m
     | Sink_Map inner \<Rightarrow> map_sink_dealloc (mem_sink_dealloc d) sink inner shallow m
     | Sink_Scheduler inner \<Rightarrow> pipeline_sink_dealloc (mem_sink_dealloc d) sink inner shallow m
     | _ \<Rightarrow> Fault Out_Of_Bounds)"

definition mem_worker_dealloc :: "ptr \<Rightarrow> store \<Rightarrow> store res" where
  "mem_worker_dealloc w m = and_then (object_at w m) (\<lambda>x. free w m)"

definition map_logic_dealloc :: "(ptr \<Rightarrow> store \<Rightarrow> store res) \<Rightarrow> ptr \<Rightarrow> ptr \<Rightarrow> store \<Rightarrow> store res" where
  "map_logic_dealloc inner_dealloc self inner m = and_then (inner_dealloc inner m) (free self)"

definition pipeline_sink_logic_dealloc ::
    "(ptr \<Rightarrow> store \<Rightarrow> store res) \<Rightarrow> ptr \<Rightarrow> ptr \<Rightarrow> ptr \<Rightarrow> store \<Rightarrow> store res" where
  "pipeline_sink_logic_dealloc inner_dealloc self inner w m =
     and_then (inner_dealloc inner m) (\<lambda>m1. and_then (mem_worker_dealloc w m1) (free self))"

fun mem_logic_dealloc :: "nat \<Rightarrow> ptr \<Rightarrow> store \<Rightarrow> store res" where
  "mem_logic_dealloc 0 logic m = Fault Out_Of_Fuel"
| "mem_logic_dealloc (Suc d) logic m =
     and_then (object_at logic m) (\<lambda>l.
     case l of
       Sink_Logic \<Rightarrow> free logic m
     | Sink_Logic_Map inner \<Rightarrow> map_logic_dealloc (mem_logic_dealloc d) logic inner m
     | Sink_Logic_Scheduler inner w \<Rightarrow> pipeline_sink_logic_dealloc (mem_logic_dealloc d) logic inner w m
     | _ \<Rightarrow> Fault Out_Of_Bounds)"

text \<open>The library's calls, which are shallow.\<close>

definition rxc_source_dealloc :: "ptr \<Rightarrow> store \<Rightarrow> store res" where
  "rxc_source_dealloc source m = mem_source_dealloc source True m"

definition rxc_sink_dealloc :: "nat \<Rightarrow> ptr \<Rightarrow> store \<Rightarrow> store res" where
  "rxc_sink_dealloc d sink m = mem_sink_dealloc d sink True m"

definition mem_pipeline_dealloc :: "nat \<Rightarrow> ptr \<Rightarrow> store \<Rightarrow> store res" where
  "mem_pipeline_dealloc d pipeline m =
     and_then (object_at pipeline m) (\<lambda>p.
     case p of
       Pipeline source sink \<Rightarrow>
         and_then (rxc_source_dealloc source m) (\<lambda>m1.
         and_then (rxc_sink_dealloc d sink m1) (free pipeline))
     | _ \<Rightarrow> Fault Out_Of_Bounds)"

lemmas dealloc_defs = map_sink_dealloc_def pipeline_sink_dealloc_def map_logic_dealloc_def
  pipeline_sink_logic_dealloc_def rxc_source_dealloc_def rxc_sink_dealloc_def mem_source_dealloc_def
  mem_worker_dealloc_def mem_pipeline_dealloc_def free_def

section \<open>Allocations\<close>

text \<open>A store in which no address is used before it is given out, and in which memory does not run out.\<close>

definition roomy :: "store \<Rightarrow> bool" where
  "roomy m \<longleftrightarrow> dom (objects m) \<subseteq> {..<next_object m} \<and> malloc_gives m = (\<lambda>a. True)"

text \<open>A step that allocates \<open>n\<close> objects and frees none.\<close>

definition grows :: "nat \<Rightarrow> store \<Rightarrow> store \<Rightarrow> bool" where
  "grows n m m' \<longleftrightarrow> roomy m' \<and> next_object m' = next_object m + n \<and>
     objects m \<subseteq>\<^sub>m objects m' \<and> dom (objects m') = dom (objects m) \<union> {next_object m..<next_object m + n}"

lemma growsD:
  "grows n m m' \<Longrightarrow> roomy m'" "grows n m m' \<Longrightarrow> next_object m' = next_object m + n"
  "grows n m m' \<Longrightarrow> objects m a = Some x \<Longrightarrow> objects m' a = Some x"
  by (auto simp: grows_def map_le_def dom_def)

lemma grows_refl [simp]: "grows 0 m m = roomy m"
  by (simp add: grows_def)

lemma grows_trans: "grows k l m \<Longrightarrow> grows n m m' \<Longrightarrow> grows (k + n) l m'"
  by (auto simp: grows_def intro: map_le_trans)

lemma grows_malloc:
  assumes "roomy m"
  obtains m1 where "malloc x m = (Some (next_object m), m1)" "malloc_unchecked x m = Ok (Some (next_object m), m1)"
    "grows 1 m m1" "objects m1 = (objects m)(next_object m \<mapsto> x)" "next_object m1 = Suc (next_object m)"
proof
  let ?m = "m\<lparr>next_object := next_object m + 1, objects := (objects m)(next_object m \<mapsto> x)\<rparr>"
  show "malloc x m = (Some (next_object m), ?m)" "malloc_unchecked x m = Ok (Some (next_object m), ?m)"
    using assms by (simp_all add: malloc_unchecked_def malloc_def roomy_def Let_def)
  show "grows 1 m ?m"
    using assms by (auto simp: roomy_def grows_def map_le_def)
qed simp_all

lemma grows_set:
  assumes g: "grows n m m'" and a: "roomy m" "next_object m \<le> a" "a < next_object m + n"
  shows "grows n m (set_object a x m')"
proof -
  have a1: "objects m a = None" "a \<in> dom (objects m')"
    using g a by (auto simp: grows_def roomy_def)
  have "dom (objects (set_object a x m')) = dom (objects m')"
    using a1(2) by (auto simp: set_object_def)
  moreover have "objects m \<subseteq>\<^sub>m objects (set_object a x m')"
    using g a1(1) by (auto simp: grows_def set_object_def map_le_def)
  moreover have "next_object (set_object a x m') = next_object m'" "malloc_gives (set_object a x m') = malloc_gives m'"
    by (simp_all add: set_object_def)
  ultimately show ?thesis
    using g unfolding grows_def roomy_def by metis
qed

section \<open>Stages\<close>

text \<open>
  A sink of stages: how deep they nest, how many objects their logics take, and
  how many of them schedule.
\<close>

inductive sink_stages :: "store \<Rightarrow> nat \<Rightarrow> nat \<Rightarrow> nat \<Rightarrow> ptr \<Rightarrow> bool" where
  sink_stage: "objects m a = Some Sink \<Longrightarrow> sink_stages m (Suc 0) (Suc 0) 0 (Some a)"
| map_stage: "objects m a = Some (Sink_Map p) \<Longrightarrow> sink_stages m d n s p \<Longrightarrow>
    sink_stages m (Suc d) (Suc n) s (Some a)"
| scheduler_stage: "objects m a = Some (Sink_Scheduler p) \<Longrightarrow> sink_stages m d n s p \<Longrightarrow>
    sink_stages m (Suc d) (Suc (Suc n)) (Suc s) (Some a)"

text \<open>The logics of such a sink, and the objects they are.\<close>

inductive logic_stages :: "store \<Rightarrow> nat \<Rightarrow> nat \<Rightarrow> nat set \<Rightarrow> ptr \<Rightarrow> bool" where
  sink_logic: "objects m a = Some Sink_Logic \<Longrightarrow> logic_stages m (Suc 0) 0 {a} (Some a)"
| map_logic: "objects m a = Some (Sink_Logic_Map p) \<Longrightarrow> logic_stages m d s A p \<Longrightarrow> a \<notin> A \<Longrightarrow>
    logic_stages m (Suc d) s (insert a A) (Some a)"
| scheduler_logic: "objects m a = Some (Sink_Logic_Scheduler p (Some w)) \<Longrightarrow> objects m w = Some Worker \<Longrightarrow>
    logic_stages m d s A p \<Longrightarrow> a \<notin> A \<Longrightarrow> w \<notin> A \<Longrightarrow>
    logic_stages m (Suc d) (Suc s) (insert a (insert w A)) (Some a)"

text \<open>A source behind \<open>k\<close> flows.\<close>

inductive source_stages :: "store \<Rightarrow> nat \<Rightarrow> ptr \<Rightarrow> bool" where
  source_stage: "objects m a = Some Source \<Longrightarrow> source_stages m 0 (Some a)"
| flow_stage: "objects m a = Some (Source_Wrapper p (Some f)) \<Longrightarrow> objects m f = Some (Flow_Wrapper (Some c)) \<Longrightarrow>
    objects m c = Some Map_Ctx \<Longrightarrow> source_stages m k p \<Longrightarrow> source_stages m (Suc k) (Some a)"

lemma stages_grow:
  "sink_stages m d n s p \<Longrightarrow> grows i m m' \<Longrightarrow> sink_stages m' d n s p"
  "logic_stages m d s A p \<Longrightarrow> grows i m m' \<Longrightarrow> logic_stages m' d s A p"
  "source_stages m k p \<Longrightarrow> grows i m m' \<Longrightarrow> source_stages m' k p"
proof -
  show "sink_stages m d n s p \<Longrightarrow> grows i m m' \<Longrightarrow> sink_stages m' d n s p"
    by (induction rule: sink_stages.induct) (auto intro: sink_stages.intros growsD(3))
  show "logic_stages m d s A p \<Longrightarrow> grows i m m' \<Longrightarrow> logic_stages m' d s A p"
    by (induction rule: logic_stages.induct) (auto intro: logic_stages.intros growsD(3))
  show "source_stages m k p \<Longrightarrow> grows i m m' \<Longrightarrow> source_stages m' k p"
    by (induction rule: source_stages.induct) (auto intro: source_stages.intros growsD(3))
qed

lemma logic_stages_set:
  "logic_stages m d s A p \<Longrightarrow> a \<notin> A \<Longrightarrow> logic_stages (set_object a x m) d s A p"
  by (induction rule: logic_stages.induct) (auto simp: set_object_def intro: logic_stages.intros)

lemma stages_live:
  "source_stages m k (Some a) \<Longrightarrow> a \<in> dom (objects m)" "sink_stages m d n s (Some b) \<Longrightarrow> b \<in> dom (objects m)"
  by (auto elim: source_stages.cases sink_stages.cases)

text \<open>The logics that a sink creates: a new object for each stage, and the worker.\<close>

lemma create_logic_stages:
  "sink_stages m d n s p \<Longrightarrow> grows i m l \<Longrightarrow> d \<le> f \<Longrightarrow>
    \<exists>l'. mem_create_logic f p l = Ok (Some (next_object l), l') \<and> grows n l l' \<and>
      logic_stages l' d s {next_object l..<next_object l + n} (Some (next_object l))"
proof (induction arbitrary: f i l rule: sink_stages.induct)
  case (sink_stage m a)
  obtain f' where f: "f = Suc f'"
    using sink_stage.prems(2) by (cases f) auto
  obtain l1 where l1: "malloc Sink_Logic l = (Some (next_object l), l1)" "grows 1 l l1"
    "objects l1 = (objects l)(next_object l \<mapsto> Sink_Logic)"
    by (rule grows_malloc [OF growsD(1) [OF sink_stage.prems(1)]])
  then have "logic_stages l1 (Suc 0) 0 {next_object l} (Some (next_object l))"
    by (auto intro: logic_stages.sink_logic)
  then show ?case
    using growsD(3) [OF sink_stage.prems(1) sink_stage.hyps] l1 by (simp add: f object_at_def)
next
  case (map_stage m a p d n s)
  obtain f' where f: "f = Suc f'" "d \<le> f'"
    using map_stage.prems(2) by (cases f) auto
  let ?a = "next_object l"
  have l: "roomy l" "objects l a = Some (Sink_Map p)"
    using growsD [OF map_stage.prems(1)] map_stage.hyps(1) by blast+
  obtain l1 where l1: "malloc (Sink_Logic_Map None) l = (Some ?a, l1)" "grows 1 l l1" "next_object l1 = Suc ?a"
    by (rule grows_malloc [OF l(1)])
  obtain l2 where l2: "mem_create_logic f' p l1 = Ok (Some (Suc ?a), l2)" "grows n l1 l2"
    "logic_stages l2 d s {Suc ?a..<Suc ?a + n} (Some (Suc ?a))"
    using map_stage.IH [OF grows_trans [OF map_stage.prems(1) l1(2)] f(2)] unfolding l1(3) by blast
  let ?l' = "set_object ?a (Sink_Logic_Map (Some (Suc ?a))) l2"
  have "grows (Suc n) l ?l'"
    using grows_set [OF grows_trans [OF l1(2) l2(2)] l(1)] by simp
  moreover have "mem_create_logic f (Some a) l = Ok (Some ?a, ?l')"
    using l(2) l1(1) l2(1) by (simp add: f(1) object_at_def)
  moreover have "logic_stages ?l' (Suc d) s (insert ?a {Suc ?a..<Suc ?a + n}) (Some ?a)"
    by (rule logic_stages.map_logic [OF _ logic_stages_set [OF l2(3)]]) (simp_all add: set_object_def)
  moreover have "insert ?a {Suc ?a..<Suc ?a + n} = {?a..<?a + Suc n}"
    by auto
  ultimately show ?case by auto
next
  case (scheduler_stage m a p d n s)
  obtain f' where f: "f = Suc f'" "d \<le> f'"
    using scheduler_stage.prems(2) by (cases f) auto
  let ?a = "next_object l"
  let ?w = "Suc (?a + n)"
  have l: "roomy l" "objects l a = Some (Sink_Scheduler p)"
    using growsD [OF scheduler_stage.prems(1)] scheduler_stage.hyps(1) by blast+
  obtain l1 where l1: "malloc (Sink_Logic_Scheduler None None) l = (Some ?a, l1)" "grows 1 l l1" "next_object l1 = Suc ?a"
    by (rule grows_malloc [OF l(1)])
  obtain l2 where l2: "mem_create_logic f' p l1 = Ok (Some (Suc ?a), l2)" "grows n l1 l2"
    "logic_stages l2 d s {Suc ?a..<Suc ?a + n} (Some (Suc ?a))"
    using scheduler_stage.IH [OF grows_trans [OF scheduler_stage.prems(1) l1(2)] f(2)] unfolding l1(3) by blast
  have next2: "next_object l2 = ?w"
    using growsD(2) [OF l2(2)] l1(3) by simp
  obtain l3 where l3: "malloc_unchecked Worker l2 = Ok (Some ?w, l3)" "grows 1 l2 l3" "objects l3 = (objects l2)(?w \<mapsto> Worker)"
    using grows_malloc [OF growsD(1) [OF l2(2)], of Worker] unfolding next2 by metis
  let ?l' = "set_object ?a (Sink_Logic_Scheduler (Some (Suc ?a)) (Some ?w)) l3"
  have "grows (Suc (Suc n)) l ?l'"
    using grows_set [OF grows_trans [OF grows_trans [OF l1(2) l2(2)] l3(2)] l(1)] by simp
  moreover have "mem_create_logic f (Some a) l = Ok (Some ?a, ?l')"
    using l(2) l1(1) l2(1) l3(1) by (simp add: f(1) object_at_def mem_create_worker_def)
  moreover have "logic_stages ?l' (Suc d) (Suc s) (insert ?a (insert ?w {Suc ?a..<Suc ?a + n})) (Some ?a)"
    by (rule logic_stages.scheduler_logic [OF _ _ logic_stages_set [OF stages_grow(2) [OF l2(3) l3(2)]]])
      (simp_all add: set_object_def l3(3))
  moreover have "insert ?a (insert ?w {Suc ?a..<Suc ?a + n}) = {?a..<?a + Suc (Suc n)}"
    by auto
  ultimately show ?case by auto
qed

lemma on_connect_stages:
  "logic_stages m d s A p \<Longrightarrow> grows i m l \<Longrightarrow> d \<le> f \<Longrightarrow>
    \<exists>l'. mem_on_connect (\<lambda>q. Ok) f p l = Ok l' \<and> grows s l l'"
proof (induction arbitrary: f i l rule: logic_stages.induct)
  case (sink_logic m a)
  obtain f' where f: "f = Suc f'"
    using sink_logic.prems(2) by (cases f) auto
  show ?case
    using growsD(1,3) [OF sink_logic.prems(1)] sink_logic.hyps by (simp add: f object_at_def)
next
  case (map_logic m a p d s A)
  obtain f' where f: "f = Suc f'" "d \<le> f'"
    using map_logic.prems(2) by (cases f) auto
  have "objects l a = Some (Sink_Logic_Map p)"
    by (rule growsD(3) [OF map_logic.prems(1) map_logic.hyps(1)])
  then show ?case
    using map_logic.IH [OF map_logic.prems(1) f(2)] by (simp add: f(1) object_at_def)
next
  case (scheduler_logic m a p w d s A)
  obtain f' where f: "f = Suc f'" "d \<le> f'"
    using scheduler_logic.prems(2) by (cases f) auto
  have l: "objects l a = Some (Sink_Logic_Scheduler p (Some w))" "roomy l"
    using growsD [OF scheduler_logic.prems(1)] scheduler_logic.hyps(1) by blast+
  obtain l1 where l1: "malloc_unchecked Inlet_Scheduler l = Ok (Some (next_object l), l1)" "grows 1 l l1"
    by (rule grows_malloc [OF l(2)])
  obtain l' where "mem_on_connect (\<lambda>q. Ok) f' p l1 = Ok l'" "grows s l1 l'"
    using scheduler_logic.IH [OF grows_trans [OF scheduler_logic.prems(1) l1(2)] f(2)] by blast
  moreover from this have "grows (Suc s) l l'"
    using grows_trans [OF l1(2)] by simp
  ultimately show ?case
    using l(1) l1(1) by (simp add: f(1) object_at_def)
qed

lemma connect_stages_grow:
  "source_stages m k p \<Longrightarrow> grows i m l \<Longrightarrow> sink_stages l d n s q \<Longrightarrow> 2 * k + d < f \<Longrightarrow>
    \<exists>l'. mem_connect (\<lambda>q. Ok) f p q l = Ok l' \<and> grows (2 * k + n + s + 2) l l'"
proof (induction arbitrary: f i l d n q rule: source_stages.induct)
  case (source_stage m a)
  obtain f' where f: "f = Suc f'" "d \<le> f'"
    using source_stage.prems(3) by (cases f) auto
  have l: "objects l a = Some Source" "roomy l"
    using growsD [OF source_stage.prems(1)] source_stage.hyps by blast+
  obtain l1 where l1: "malloc Source_Logic l = (Some (next_object l), l1)" "grows 1 l l1"
    "objects l1 = (objects l)(next_object l \<mapsto> Source_Logic)"
    by (rule grows_malloc [OF l(2)])
  obtain l2 where l2: "mem_create_logic f' q l1 = Ok (Some (next_object l1), l2)" "grows n l1 l2"
    "logic_stages l2 d s {next_object l1..<next_object l1 + n} (Some (next_object l1))"
    using create_logic_stages [OF source_stage.prems(2) l1(2) f(2)] by blast
  obtain l3 where l3: "malloc_unchecked Connection l2 = Ok (Some (next_object l2), l3)" "grows 1 l2 l3"
    by (rule grows_malloc [OF growsD(1) [OF l2(2)]])
  have "objects l2 (next_object l) = Some Source_Logic"
    by (rule growsD(3) [OF l2(2)]) (simp add: l1(3))
  then have "objects l3 (next_object l) = Some Source_Logic"
    by (rule growsD(3) [OF l3(2)])
  moreover have "objects l3 (next_object l1) \<noteq> None"
    using stages_grow(2) [OF l2(3) l3(2)] by (auto elim: logic_stages.cases)
  ultimately have conn: "mem_connection_create (Some (next_object l)) (Some (next_object l1)) l2 = Ok l3"
    using l3(1) by (auto simp: mem_connection_create_def object_at_def)
  obtain l4 where l4: "mem_on_connect (\<lambda>q. Ok) f' (Some (next_object l1)) l3 = Ok l4" "grows s l3 l4"
    using on_connect_stages [OF l2(3) l3(2) f(2)] by blast
  have "grows (1 + n + 1 + s) l l4"
    by (rule grows_trans [OF grows_trans [OF grows_trans [OF l1(2) l2(2)] l3(2)] l4(2)])
  then show ?case
    using l(1) l1(1) l2(1) conn l4(1) by (simp add: f(1) object_at_def)
next
  case (flow_stage m a p g c k)
  obtain f' where f: "f = Suc f'" "2 * k + Suc d < f'"
    using flow_stage.prems(3) by (cases f) auto
  have l: "objects l a = Some (Source_Wrapper p (Some g))" "objects l g = Some (Flow_Wrapper (Some c))"
    "objects l c = Some Map_Ctx" "roomy l"
    using growsD [OF flow_stage.prems(1)] flow_stage.hyps(1-3) by blast+
  obtain l1 where l1: "malloc (Sink_Map q) l = (Some (next_object l), l1)" "grows 1 l l1"
    "objects l1 = (objects l)(next_object l \<mapsto> Sink_Map q)"
    by (rule grows_malloc [OF l(4)])
  have "objects l1 c = Some Map_Ctx"
    by (rule growsD(3) [OF l1(2) l(3)])
  then have wrap: "mem_flow_connect_sink (Some g) q l = Ok (Some (next_object l), l1)"
    using l(2) l1(1) by (simp add: mem_flow_connect_sink_def mem_sink_wrap_def object_at_def)
  have "sink_stages l1 (Suc d) (Suc n) s (Some (next_object l))"
    by (rule sink_stages.map_stage [OF _ stages_grow(1) [OF flow_stage.prems(2) l1(2)]]) (simp add: l1(3))
  then obtain l' where l': "mem_connect (\<lambda>q. Ok) f' p (Some (next_object l)) l1 = Ok l'"
    "grows (2 * k + Suc n + s + 2) l1 l'"
    using flow_stage.IH [OF grows_trans [OF flow_stage.prems(1) l1(2)] _ f(2)] by blast
  have "grows (2 * Suc k + n + s + 2) l l'"
    using grows_trans [OF l1(2) l'(2)] by simp
  then show ?case
    using l(1) wrap l'(1) by (simp add: f(1) object_at_def)
qed

lemma pipeline_start_grows:
  assumes m: "roomy m" "objects m p = Some (Pipeline a b)"
    and stages: "source_stages m k a" "sink_stages m d n s b" and f: "2 * k + d + 1 < f"
  shows "\<exists>m'. mem_pipeline_start (\<lambda>q. Ok) f (Some p) m = Ok m' \<and> grows (2 * k + n + s + 6) m m'"
proof -
  obtain m1 where m1: "malloc (Sink_Scheduler b) m = (Some (next_object m), m1)" "grows 1 m m1"
    "objects m1 = (objects m)(next_object m \<mapsto> Sink_Scheduler b)"
    by (rule grows_malloc [OF m(1)])
  have "sink_stages m1 (Suc d) (Suc (Suc n)) (Suc s) (Some (next_object m))"
    by (rule sink_stages.scheduler_stage [OF _ stages_grow(1) [OF stages(2) m1(2)]]) (simp add: m1(3))
  then obtain m' where m': "mem_connect (\<lambda>q. Ok) f a (Some (next_object m)) m1 = Ok m'"
    "grows (2 * k + Suc (Suc n) + Suc s + 2) m1 m'"
    using connect_stages_grow [OF stages(1) m1(2)] f by fastforce
  have "1 + (2 * k + Suc (Suc n) + Suc s + 2) = 2 * k + n + s + 6"
    by simp
  then have "grows (2 * k + n + s + 6) m m'"
    using grows_trans [OF m1(2) m'(2)] by metis
  then show ?thesis
    using m(2) m1(1) m'(1) by (simp add: mem_pipeline_start_def object_at_def)
qed

section \<open>Deallocation\<close>

lemma pipeline_dealloc_shallow:
  assumes p: "objects m p = Some (Pipeline a b)" and stages: "source_stages m k a" "sink_stages m d n s b"
  shows "\<exists>x y. a = Some x \<and> b = Some y \<and> mem_pipeline_dealloc (Suc f) (Some p) m =
    Ok (m\<lparr>objects := (objects m)(x := None, y := None, p := None)\<rparr>)"
proof -
  obtain x sx where x: "a = Some x" "objects m x = Some sx" "sx = Source \<or> (\<exists>i g. sx = Source_Wrapper i g)"
    using stages(1) by (auto elim: source_stages.cases)
  obtain y sy where y: "b = Some y" "objects m y = Some sy"
    "sy = Sink \<or> (\<exists>i. sy = Sink_Map i) \<or> (\<exists>i. sy = Sink_Scheduler i)"
    using stages(2) by (auto elim: sink_stages.cases)
  have "x \<noteq> y" "x \<noteq> p" "y \<noteq> p"
    using p x y by auto
  with p x y show ?thesis
    by (auto simp: dealloc_defs object_at_def)
qed

text \<open>Deallocating the logics of a sink frees them, each once, and nothing else.\<close>

lemma logic_dealloc_stages:
  "logic_stages m d s A p \<Longrightarrow> (\<And>a. a \<in> A \<Longrightarrow> objects l a = objects m a) \<Longrightarrow> d \<le> f \<Longrightarrow>
    mem_logic_dealloc f p l = Ok (l\<lparr>objects := objects l |` (- A)\<rparr>)"
proof (induction arbitrary: f l rule: logic_stages.induct)
  case (sink_logic m a)
  obtain f' where f: "f = Suc f'"
    using sink_logic.prems(2) by (cases f) auto
  show ?case
    using sink_logic by (auto simp: f object_at_def free_def restrict_map_def fun_eq_iff intro!: arg_cong [where f = "\<lambda>g. l\<lparr>objects := g\<rparr>"])
next
  case (map_logic m a p d s A)
  obtain f' where f: "f = Suc f'" "d \<le> f'"
    using map_logic.prems(2) by (cases f) auto
  have "mem_logic_dealloc f' p l = Ok (l\<lparr>objects := objects l |` (- A)\<rparr>)"
    using map_logic.IH [OF _ f(2)] map_logic.prems(1) by simp
  moreover have "(objects l |` (- A))(a := None) = objects l |` (- insert a A)"
    by (auto simp: restrict_map_def fun_eq_iff)
  ultimately show ?case
    using map_logic.hyps(1,3) map_logic.prems(1) [of a] by (simp add: f(1) object_at_def dealloc_defs)
next
  case (scheduler_logic m a p w d s A)
  obtain f' where f: "f = Suc f'" "d \<le> f'"
    using scheduler_logic.prems(2) by (cases f) auto
  have "mem_logic_dealloc f' p l = Ok (l\<lparr>objects := objects l |` (- A)\<rparr>)"
    using scheduler_logic.IH [OF _ f(2)] scheduler_logic.prems(1) by simp
  moreover have "(objects l |` (- A))(w := None, a := None) = objects l |` (- insert a (insert w A))"
    by (auto simp: restrict_map_def fun_eq_iff)
  moreover have "a \<noteq> w"
    using scheduler_logic.hyps(1,2) by auto
  ultimately show ?case
    using scheduler_logic.hyps(1,2,4,5) scheduler_logic.prems(1) [of a] scheduler_logic.prems(1) [of w]
    by (simp add: f(1) object_at_def dealloc_defs)
qed

section \<open>An example\<close>

text \<open>A source, a flow in front of it, a sink, and the pipeline of them.\<close>

definition example_stages :: store where
  "example_stages = \<lparr>objects = [0 \<mapsto> Source, 1 \<mapsto> Map_Ctx, 2 \<mapsto> Flow_Wrapper (Some 1),
     3 \<mapsto> Source_Wrapper (Some 0) (Some 2), 4 \<mapsto> Sink, 5 \<mapsto> Pipeline (Some 3) (Some 4)],
     next_object = 6, malloc_gives = (\<lambda>a. True)\<rparr>"

lemma example_stages_simps:
  "roomy example_stages" "objects example_stages 5 = Some (Pipeline (Some 3) (Some 4))"
  "dom (objects example_stages) = {0, 1, 2, 3, 4, 5}" "next_object example_stages = 6"
  "source_stages example_stages (Suc 0) (Some 3)" "sink_stages example_stages (Suc 0) (Suc 0) 0 (Some 4)"
proof -
  show "source_stages example_stages (Suc 0) (Some 3)"
    by (rule source_stages.flow_stage [where p = "Some 0" and f = 2 and c = 1])
      (auto simp: example_stages_def intro: source_stages.source_stage)
  show "sink_stages example_stages (Suc 0) (Suc 0) 0 (Some 4)"
    by (rule sink_stages.sink_stage) (simp add: example_stages_def)
qed (auto simp: example_stages_def roomy_def)

text \<open>The stages are those that the functions of the library build.\<close>

lemma example_stages_built:
  "and_then (mem_flow_map \<lparr>objects = [0 \<mapsto> Source], next_object = 1, malloc_gives = (\<lambda>a. True)\<rparr>) (\<lambda>(flow, m1).
     and_then (mem_source_via (Some 0) flow m1) (\<lambda>(source, m2).
     let (sink, m3) = malloc Sink m2; (pipeline, m4) = mem_source_to source sink m3 in Ok (pipeline, m4))) =
   Ok (Some 5, example_stages)"
  by (simp add: mem_flow_map_def mem_flow_wrapper_def malloc_unchecked_def malloc_def mem_source_via_def object_at_def
      mem_source_to_def example_stages_def fun_upd_def fun_eq_iff)

section \<open>Properties\<close>

text \<open>C32. What a pipeline leaves behind: starting one whose source is behind \<open>k\<close> flows
  allocates \<open>2 k + n + s + 6\<close> objects, where \<open>n\<close> are the logics and workers of the sink and
  \<open>s\<close> the schedulers in it; deallocating the pipeline then frees the pipeline, the outermost
  source and the outermost sink, and nothing else: all that the start allocated, and the
  stages inside, stay for ever. For the pipeline of a session these are seven objects.\<close>

theorem stopped_pipeline_leaks:
  assumes "roomy m" "objects m p = Some (Pipeline (Some a) (Some b))"
    and "source_stages m k (Some a)" "sink_stages m d n s (Some b)" "2 * k + d + 1 < f"
  shows "\<exists>m1 m2. mem_pipeline_start (\<lambda>l. Ok) f (Some p) m = Ok m1 \<and> mem_pipeline_dealloc f (Some p) m1 = Ok m2 \<and>
    dom (objects m2) = dom (objects m) - {p, a, b} \<union> {next_object m..<next_object m + (2 * k + n + s + 6)}"
proof -
  let ?R = "{next_object m..<next_object m + (2 * k + n + s + 6)}"
  obtain f' where f: "f = Suc f'"
    using assms(5) by (cases f) auto
  obtain m1 where m1: "mem_pipeline_start (\<lambda>l. Ok) f (Some p) m = Ok m1" "grows (2 * k + n + s + 6) m m1"
    using pipeline_start_grows [OF assms] by blast
  have "mem_pipeline_dealloc f (Some p) m1 = Ok (m1\<lparr>objects := (objects m1)(a := None, b := None, p := None)\<rparr>)"
    using pipeline_dealloc_shallow [OF growsD(3) [OF m1(2) assms(2)]
        stages_grow(3) [OF assms(3) m1(2)] stages_grow(1) [OF assms(4) m1(2)], of f'] f by simp
  moreover have "dom (objects (m1\<lparr>objects := (objects m1)(a := None, b := None, p := None)\<rparr>)) =
      dom (objects m) - {p, a, b} \<union> ?R"
  proof -
    have "p \<in> dom (objects m)" "a \<in> dom (objects m)" "b \<in> dom (objects m)"
      using assms(2) stages_live(1) [OF assms(3)] stages_live(2) [OF assms(4)] by auto
    then have "p \<notin> ?R" "a \<notin> ?R" "b \<notin> ?R"
      using assms(1) by (auto simp: roomy_def)
    moreover have "dom (objects m1) = dom (objects m) \<union> ?R"
      using m1(2) by (simp add: grows_def)
    ultimately show ?thesis
      by auto
  qed
  ultimately show ?thesis
    using m1(1) by blast
qed

theorem stopped_pipeline_leaks_witness:
  "\<exists>m1 m2. mem_pipeline_start (\<lambda>l. Ok) 5 (Some 5) example_stages = Ok m1 \<and>
    mem_pipeline_dealloc 5 (Some 5) m1 = Ok m2 \<and> dom (objects m2) = {0, 1, 2} \<union> {6..<15}"
proof -
  have "{0, 1, 2, 3, 4, 5} - {5, 3, 4} = {0, 1, 2 :: nat}"
    by auto
  then show ?thesis
    using stopped_pipeline_leaks [OF example_stages_simps(1,2,5,6), of 5] unfolding example_stages_simps(3,4) by simp
qed

text \<open>C40. The logics that a sink creates are freed by its logic's \<open>dealloc\<close>, which
  nobody calls: after it the store has the objects that it had before.\<close>

theorem logics_freed:
  assumes "roomy m" "sink_stages m d n s p" "d \<le> f"
  shows "\<exists>l m1 m2. mem_create_logic f p m = Ok (l, m1) \<and> next_object m1 = next_object m + n \<and>
    mem_logic_dealloc f l m1 = Ok m2 \<and> objects m2 = objects m"
proof -
  obtain m1 where m1: "mem_create_logic f p m = Ok (Some (next_object m), m1)" "grows n m m1"
    "logic_stages m1 d s {next_object m..<next_object m + n} (Some (next_object m))"
    using create_logic_stages [OF assms(2) _ assms(3), of 0 m] assms(1) by auto
  have "objects m1 |` (- {next_object m..<next_object m + n}) = objects m"
  proof (rule ext)
    fix a
    let ?R = "{next_object m..<next_object m + n}"
    have d: "dom (objects m1) = dom (objects m) \<union> ?R" "dom (objects m) \<inter> ?R = {}" "objects m \<subseteq>\<^sub>m objects m1"
      using m1(2) assms(1) by (auto simp: grows_def roomy_def)
    show "(objects m1 |` (- ?R)) a = objects m a"
    proof (cases "a \<in> dom (objects m)")
      case True
      then have "a \<notin> ?R" "objects m a = objects m1 a"
        using d(2,3) by (auto simp: map_le_def)
      then show ?thesis
        by (simp add: restrict_map_def)
    next
      case False
      then have "objects m a = None" "a \<in> ?R \<or> objects m1 a = None"
        using d(1) by auto
      then show ?thesis
        by (auto simp: restrict_map_def)
    qed
  qed
  then show ?thesis
    using m1(1) growsD(2) [OF m1(2)] logic_dealloc_stages [OF m1(3) refl assms(3)] by simp
qed

theorem logics_freed_witness:
  "\<exists>l m1 m2. mem_create_logic 1 (Some 4) example_stages = Ok (l, m1) \<and> next_object m1 = 7 \<and>
    mem_logic_dealloc 1 l m1 = Ok m2 \<and> objects m2 = objects example_stages"
  using logics_freed [OF example_stages_simps(1,6), of 1] by (simp add: example_stages_simps(4))

text \<open>A start for which memory runs out: although a pipeline that cannot be started is
  to give an error code, starting one follows a null pointer exactly if one of the seven
  allocations fails.\<close>

lemma start_without_memory:
  assumes "objects m p = Some (Pipeline (Some a) (Some b))" "objects m a = Some Source" "objects m b = Some Sink"
    and "dom (objects m) \<subseteq> {..<next_object m}" "2 < f"
  shows "mem_pipeline_start (\<lambda>l. Ok) f (Some p) m = Fault Null_Deref \<longleftrightarrow>
    (\<exists>i < 7. \<not> malloc_gives m (next_object m + i))"
proof -
  let ?x = "next_object m"
  have "f = Suc (Suc (Suc (f - 3)))"
    using assms(5) by simp
  then obtain g where f: "f = Suc (Suc (Suc g))"
    by blast
  have fresh: "a < ?x" "b < ?x" "p < ?x"
    using assms by auto
  have seven: "(\<exists>i < 7. P i) \<longleftrightarrow> P 0 \<or> P (Suc 0) \<or> P (Suc (Suc 0)) \<or> P (Suc (Suc (Suc 0))) \<or>
      P (Suc (Suc (Suc (Suc 0)))) \<or> P (Suc (Suc (Suc (Suc (Suc 0))))) \<or> P (Suc (Suc (Suc (Suc (Suc (Suc 0))))))" for P
    by (simp add: numeral_eq_Suc Ex_less_Suc disj_commute disj_left_commute)
  show ?thesis
    unfolding seven using assms(1-3) fresh
    by (simp add: f mem_pipeline_start_def malloc_def malloc_unchecked_def object_at_def mem_connection_create_def
        mem_create_worker_def set_object_def Let_def)
qed

lemma start_without_memory_witness:
  "mem_pipeline_start (\<lambda>l. Ok) 3 (Some 2) \<lparr>objects = [0 \<mapsto> Source, 1 \<mapsto> Sink, 2 \<mapsto> Pipeline (Some 0) (Some 1)],
     next_object = 3, malloc_gives = (\<lambda>a. a \<noteq> 5)\<rparr> = Fault Null_Deref"
proof -
  let ?m = "\<lparr>objects = [0 \<mapsto> Source, 1 \<mapsto> Sink, 2 \<mapsto> Pipeline (Some 0) (Some 1)],
     next_object = 3, malloc_gives = (\<lambda>a. a \<noteq> 5)\<rparr>"
  have "\<exists>i < 7. \<not> malloc_gives ?m (next_object ?m + i)"
    by (intro exI [of _ 2]) simp
  moreover have "dom (objects ?m) \<subseteq> {..<next_object ?m}"
    by auto
  ultimately show ?thesis
    using start_without_memory [of ?m 2 0 1 3] by simp
qed

end
