(* ===== verification/Transport.thy ===== *)
theory Transport
  imports Sas_Prelude
begin

text \<open>
  The wire format (\<open>sas-core/include/sas/transport.h\<close> and
  \<open>sas-core/src/transport.c\<close>): the packet structs as records, the in-place
  conversions between host and network byte order, the layout of the structs
  in memory on a little-endian LP64 host, and the state and flag constants.
\<close>

unbundle bit_operations_syntax

section \<open>Bytes of an integer in memory\<close>

definition u16_bytes :: "u16 \<Rightarrow> bytes" where
  "u16_bytes x = [ucast x, ucast (drop_bit 8 x)]"

definition u32_bytes :: "u32 \<Rightarrow> bytes" where
  "u32_bytes x = [ucast x, ucast (drop_bit 8 x), ucast (drop_bit 16 x), ucast (drop_bit 24 x)]"

definition u16_of :: "u8 \<Rightarrow> u8 \<Rightarrow> u16" where
  "u16_of a b = ucast a OR push_bit 8 (ucast b)"

definition u32_of :: "u8 \<Rightarrow> u8 \<Rightarrow> u8 \<Rightarrow> u8 \<Rightarrow> u32" where
  "u32_of a b c d =
     ucast a OR push_bit 8 (ucast b) OR push_bit 16 (ucast c) OR push_bit 24 (ucast d)"

lemma u16_byte_of [simp, layout_simps]:
  "ucast (u16_of a b) = a" "ucast (drop_bit 8 (u16_of a b)) = b"
  unfolding u16_of_def by (rule bit_word_eqI, auto simp: bit_simps dest: bit_imp_le_length)+

lemma u32_byte_of [simp, layout_simps]:
  "ucast (u32_of a b c d) = a"
  "ucast (drop_bit 8 (u32_of a b c d)) = b"
  "ucast (drop_bit 16 (u32_of a b c d)) = c"
  "ucast (drop_bit 24 (u32_of a b c d)) = d"
  unfolding u32_of_def by (rule bit_word_eqI, auto simp: bit_simps dest: bit_imp_le_length)+

lemma u16_of_bytes [simp, layout_simps]: "u16_of (ucast x) (ucast (drop_bit 8 x)) = x"
  unfolding u16_of_def by (rule bit_word_eqI) (auto simp: bit_simps)

lemma u32_of_bytes [simp, layout_simps]:
  "u32_of (ucast x) (ucast (drop_bit 8 x)) (ucast (drop_bit 16 x)) (ucast (drop_bit 24 x)) = x"
  unfolding u32_of_def
proof (rule bit_word_eqI)
  fix n
  assume "n < LENGTH(32)"
  then consider "n < 8" | "8 \<le> n" "n < 16" | "16 \<le> n" "n < 24" | "24 \<le> n" "n < 32"
    by fastforce
  then show "bit (ucast (ucast x :: u8) OR push_bit 8 (ucast (ucast (drop_bit 8 x) :: u8)) OR
      push_bit 16 (ucast (ucast (drop_bit 16 x) :: u8)) OR
      push_bit 24 (ucast (ucast (drop_bit 24 x) :: u8)) :: u32) n = bit x n"
    by cases (auto simp: bit_simps)
qed

text \<open>
  The library's byte order conversions on a little-endian host: the bytes of
  the value in the opposite order.
\<close>

definition htons :: "u16 \<Rightarrow> u16" where
  "htons x = u16_of (ucast (drop_bit 8 x)) (ucast x)"

definition htonl :: "u32 \<Rightarrow> u32" where
  "htonl x = u32_of (ucast (drop_bit 24 x)) (ucast (drop_bit 16 x)) (ucast (drop_bit 8 x)) (ucast x)"

definition ntohs :: "u16 \<Rightarrow> u16" where
  "ntohs = htons"

definition ntohl :: "u32 \<Rightarrow> u32" where
  "ntohl = htonl"

lemma byte_order_inverse [simp, layout_simps]:
  "ntohs (htons x) = x" "htons (ntohs x) = x" "ntohl (htonl y) = y" "htonl (ntohl y) = y"
  by (simp_all add: ntohs_def ntohl_def htons_def htonl_def)

lemma bytes_htonl: "u32_bytes (htonl x) = rev (u32_bytes x)"
  by (simp add: u32_bytes_def htonl_def)

lemma bytes_htons: "u16_bytes (htons x) = rev (u16_bytes x)"
  by (simp add: u16_bytes_def htons_def)


section \<open>Reading and writing memory\<close>

definition load_u8 :: "bytes \<Rightarrow> nat \<Rightarrow> u8 res" where
  "load_u8 buf off = (case drop off buf of a # _ \<Rightarrow> Ok a | _ \<Rightarrow> Fault Out_Of_Bounds)"

definition load_u16 :: "bytes \<Rightarrow> nat \<Rightarrow> u16 res" where
  "load_u16 buf off =
     (case drop off buf of a # b # _ \<Rightarrow> Ok (u16_of a b) | _ \<Rightarrow> Fault Out_Of_Bounds)"

definition load_u32 :: "bytes \<Rightarrow> nat \<Rightarrow> u32 res" where
  "load_u32 buf off =
     (case drop off buf of a # b # c # d # _ \<Rightarrow> Ok (u32_of a b c d) | _ \<Rightarrow> Fault Out_Of_Bounds)"

definition store_bytes :: "bytes \<Rightarrow> nat \<Rightarrow> bytes \<Rightarrow> bytes" where
  "store_bytes buf off bs = take off buf @ bs @ drop (off + length bs) buf"

section \<open>Flags and session states\<close>

definition FLAG_FIN :: u8 where "FLAG_FIN = push_bit 0 1"
definition FLAG_SYN :: u8 where "FLAG_SYN = push_bit 1 1"
definition FLAG_RST :: u8 where "FLAG_RST = push_bit 2 1"
definition FLAG_ACK :: u8 where "FLAG_ACK = push_bit 3 1"
definition FLAG_ERR :: u8 where "FLAG_ERR = push_bit 4 1"

lemmas flag_defs = FLAG_FIN_def FLAG_SYN_def FLAG_RST_def FLAG_ACK_def FLAG_ERR_def

definition flag_isset :: "u8 \<Rightarrow> u8 \<Rightarrow> bool" where
  "flag_isset flags flag \<longleftrightarrow> flags AND flag = flag"

text \<open>The flag tests on the combinations that the two programs send.\<close>

lemma flag_isset_sent [simp]:
  "flag_isset 0 FLAG_RST = False"
  "flag_isset FLAG_RST FLAG_RST" "flag_isset (FLAG_RST OR FLAG_FIN) FLAG_RST"
  "flag_isset (FLAG_RST OR FLAG_FIN) FLAG_FIN" "flag_isset FLAG_RST FLAG_FIN = False"
  "flag_isset (FLAG_RST OR FLAG_FIN) FLAG_ERR = False" "flag_isset FLAG_RST FLAG_ERR = False"
  "flag_isset (FLAG_RST OR FLAG_ERR) FLAG_RST" "flag_isset (FLAG_RST OR FLAG_ERR) FLAG_ERR"
  "flag_isset (FLAG_SYN OR FLAG_ACK) FLAG_RST = False"
  "flag_isset FLAG_SYN FLAG_SYN" "flag_isset FLAG_SYN FLAG_RST = False"
  "flag_isset FLAG_ACK FLAG_RST = False" "flag_isset FLAG_ACK FLAG_SYN = False"
  by (simp_all add: flag_isset_def flag_defs)

datatype transport_state =
    STATE_INITIAL
  | STATE_SYN_RCVD
  | STATE_SYN_SENT
  | STATE_SACK_SENT
  | STATE_ESTABLSH
  | STATE_FINISHED

primrec state_code :: "transport_state \<Rightarrow> nat" where
  "state_code STATE_INITIAL = 0"
| "state_code STATE_SYN_RCVD = 1"
| "state_code STATE_SYN_SENT = 2"
| "state_code STATE_SACK_SENT = 3"
| "state_code STATE_ESTABLSH = 4"
| "state_code STATE_FINISHED = 5"

lemma state_code_inject [simp]: "state_code a = state_code b \<longleftrightarrow> a = b"
  by (cases a; cases b) simp_all

text \<open>The states are ordered by their codes: a session only moves up.\<close>

instantiation transport_state :: linorder
begin
definition less_eq_transport_state :: "transport_state \<Rightarrow> transport_state \<Rightarrow> bool" where
  "less_eq_transport_state a b \<longleftrightarrow> state_code a \<le> state_code b"
definition less_transport_state :: "transport_state \<Rightarrow> transport_state \<Rightarrow> bool" where
  "less_transport_state a b \<longleftrightarrow> state_code a < state_code b"
instance
  by standard (auto simp: less_eq_transport_state_def less_transport_state_def)
end

section \<open>The packets\<close>

record header =
  hd_seq :: u32
  hd_ack :: u32
  hd_reserved :: u8
  hd_flags :: u8
  hd_window :: u16
  hd_length :: u16

record packet_cfg =
  cfg_codec :: u8

record packet_cfg_ack =
  ca_sample_rate :: i32
  ca_sample_size :: u8
  ca_channels :: u8
  ca_codec :: u8

record packet_err =
  err_code :: i32

definition header_encode :: "header \<Rightarrow> header" where
  "header_encode h = h\<lparr>hd_seq := htonl (hd_seq h), hd_ack := htonl (hd_ack h),
     hd_window := htons (hd_window h), hd_length := htons (hd_length h)\<rparr>"

definition header_decode :: "header \<Rightarrow> header" where
  "header_decode h = h\<lparr>hd_seq := ntohl (hd_seq h), hd_ack := ntohl (hd_ack h),
     hd_window := ntohs (hd_window h), hd_length := ntohs (hd_length h)\<rparr>"

definition cfg_encode :: "packet_cfg \<Rightarrow> packet_cfg" where
  "cfg_encode p = p"

definition cfg_decode :: "packet_cfg \<Rightarrow> packet_cfg" where
  "cfg_decode p = p"

definition cfg_ack_encode :: "packet_cfg_ack \<Rightarrow> packet_cfg_ack" where
  "cfg_ack_encode p = p\<lparr>ca_sample_rate := htonl (ca_sample_rate p)\<rparr>"

definition cfg_ack_decode :: "packet_cfg_ack \<Rightarrow> packet_cfg_ack" where
  "cfg_ack_decode p = p\<lparr>ca_sample_rate := ntohl (ca_sample_rate p)\<rparr>"

definition err_encode :: "packet_err \<Rightarrow> packet_err" where
  "err_encode p = p\<lparr>err_code := htonl (err_code p)\<rparr>"

definition err_decode :: "packet_err \<Rightarrow> packet_err" where
  "err_decode p = p\<lparr>err_code := ntohl (err_code p)\<rparr>"

section \<open>The structs in memory\<close>

text \<open>
  The images of the structs, with the bytes of the padding the compiler adds
  as an argument: two at the end of the header (14 bytes of fields, aligned to
  4), one at the end of the configuration acknowledgement.
\<close>

definition header_image :: "bytes \<Rightarrow> header \<Rightarrow> bytes" where
  "header_image pad h = u32_bytes (hd_seq h) @ u32_bytes (hd_ack h) @ [hd_reserved h, hd_flags h] @
     u16_bytes (hd_window h) @ u16_bytes (hd_length h) @ pad"

definition cfg_image :: "bytes \<Rightarrow> packet_cfg \<Rightarrow> bytes" where
  "cfg_image pad p = cfg_codec p # pad"

definition cfg_ack_image :: "bytes \<Rightarrow> packet_cfg_ack \<Rightarrow> bytes" where
  "cfg_ack_image pad p =
     u32_bytes (ca_sample_rate p) @ [ca_sample_size p, ca_channels p, ca_codec p] @ pad"

definition err_image :: "bytes \<Rightarrow> packet_err \<Rightarrow> bytes" where
  "err_image pad p = u32_bytes (err_code p) @ pad"

definition sizeof_header :: nat where "sizeof_header = 16"
definition sizeof_cfg :: nat where "sizeof_cfg = 1"
definition sizeof_cfg_ack :: nat where "sizeof_cfg_ack = 8"
definition sizeof_err :: nat where "sizeof_err = 4"

lemmas sizeof_defs = sizeof_header_def sizeof_cfg_def sizeof_cfg_ack_def sizeof_err_def

definition header_load :: "bytes \<Rightarrow> header res" where
  "header_load buf =
     and_then (load_u32 buf 0) (\<lambda>s.
     and_then (load_u32 buf 4) (\<lambda>a.
     and_then (load_u8 buf 8) (\<lambda>r.
     and_then (load_u8 buf 9) (\<lambda>f.
     and_then (load_u16 buf 10) (\<lambda>w.
     and_then (load_u16 buf 12) (\<lambda>l.
     Ok \<lparr>hd_seq = s, hd_ack = a, hd_reserved = r, hd_flags = f, hd_window = w, hd_length = l\<rparr>))))))"

definition cfg_load :: "bytes \<Rightarrow> packet_cfg res" where
  "cfg_load buf = and_then (load_u8 buf 0) (\<lambda>c. Ok \<lparr>cfg_codec = c\<rparr>)"

definition cfg_ack_load :: "bytes \<Rightarrow> packet_cfg_ack res" where
  "cfg_ack_load buf =
     and_then (load_u32 buf 0) (\<lambda>r.
     and_then (load_u8 buf 4) (\<lambda>s.
     and_then (load_u8 buf 5) (\<lambda>c.
     and_then (load_u8 buf 6) (\<lambda>d.
     Ok \<lparr>ca_sample_rate = r, ca_sample_size = s, ca_channels = c, ca_codec = d\<rparr>))))"

definition err_load :: "bytes \<Rightarrow> packet_err res" where
  "err_load buf = and_then (load_u32 buf 0) (\<lambda>e. Ok \<lparr>err_code = e\<rparr>)"

text \<open>
  The in-place decoding of a received buffer writes the decoded header back
  over the first bytes; the padding and the payload stay.
\<close>

definition header_store :: "header \<Rightarrow> bytes \<Rightarrow> bytes" where
  "header_store h buf = store_bytes buf 0 (header_image [] h)"

definition header_decode_in_place :: "bytes \<Rightarrow> bytes res" where
  "header_decode_in_place buf =
     and_then (header_load buf) (\<lambda>h. Ok (header_store (header_decode h) buf))"


section \<open>The contract of a wire format\<close>

text \<open>
  What both programs rely on for each packet type: decoding undoes encoding,
  and loading a struct from the bytes of its image, whatever its padding and
  whatever follows, gives the struct back.
\<close>

locale codec =
  fixes enc :: "'a \<Rightarrow> 'a" and dec :: "'a \<Rightarrow> 'a"
  assumes dec_enc: "dec (enc x) = x" and enc_dec: "enc (dec x) = x"
begin

lemma enc_inj: "enc x = enc y \<Longrightarrow> x = y"
  by (metis dec_enc)

lemma enc_eq_iff: "enc x = y \<longleftrightarrow> x = dec y"
  by (metis dec_enc enc_dec)

end

locale wire_format = codec enc dec for enc :: "'a \<Rightarrow> 'a" and dec :: "'a \<Rightarrow> 'a" +
  fixes image :: "bytes \<Rightarrow> 'a \<Rightarrow> bytes" and load :: "bytes \<Rightarrow> 'a res"
    and pad_len :: nat and size_of :: nat
  assumes load_image: "length pad = pad_len \<Longrightarrow> load (image pad x @ rest) = Ok x"
    and length_image: "length pad = pad_len \<Longrightarrow> length (image pad x) = size_of"
begin

lemma receive_sent:
  assumes "length pad = pad_len"
  shows "and_then (load (image pad (enc x) @ rest)) (\<lambda>y. Ok (dec y)) = Ok x"
  using assms by (simp add: load_image dec_enc)

lemma image_inj:
  assumes "length pad = pad_len" "length pad' = pad_len"
    and "image pad (enc x) @ rest = image pad' (enc y) @ rest'"
  shows "x = y"
proof -
  have "Ok (enc x) = load (image pad (enc x) @ rest)"
    using assms(1) by (simp add: load_image)
  also have "\<dots> = Ok (enc y)"
    using assms(2,3) by (simp add: load_image)
  finally show ?thesis by (simp add: enc_inj)
qed

lemma payload_follows:
  assumes "length pad = pad_len"
  shows "drop size_of (image pad x @ rest) = rest"
  using length_image [OF assms, of x] by simp

end

lemmas image_simps = header_image_def cfg_image_def cfg_ack_image_def err_image_def
  u16_bytes_def u32_bytes_def

lemmas load_simps = header_load_def cfg_load_def cfg_ack_load_def err_load_def
  load_u8_def load_u16_def load_u32_def

interpretation hdr: wire_format header_encode header_decode header_image header_load 2 sizeof_header
  by unfold_locales
    (simp_all add: header_encode_def header_decode_def image_simps load_simps sizeof_defs)

interpretation cfg: wire_format cfg_encode cfg_decode cfg_image cfg_load 0 sizeof_cfg
  by unfold_locales
    (simp_all add: cfg_encode_def cfg_decode_def image_simps load_simps sizeof_defs)

interpretation cack: wire_format cfg_ack_encode cfg_ack_decode cfg_ack_image cfg_ack_load 1 sizeof_cfg_ack
  by unfold_locales
    (simp_all add: cfg_ack_encode_def cfg_ack_decode_def image_simps load_simps sizeof_defs)

interpretation perr: wire_format err_encode err_decode err_image err_load 0 sizeof_err
  by unfold_locales
    (simp_all add: err_encode_def err_decode_def image_simps load_simps sizeof_defs)

section \<open>Receiving in place\<close>

lemma header_store_image:
  "length pad = 2 \<Longrightarrow> header_store h (header_image pad h' @ rest) = header_image pad h @ rest"
  by (simp add: header_store_def store_bytes_def image_simps)

lemma header_decode_in_place_sent:
  assumes "length pad = 2"
  shows "header_decode_in_place (header_image pad (header_encode h) @ rest) =
    Ok (header_image pad h @ rest)"
  using assms by (simp add: header_decode_in_place_def hdr.load_image header_store_image hdr.dec_enc)

lemma header_split:
  assumes "16 \<le> length buf"
  obtains pad h rest where "buf = header_image pad h @ rest" "length pad = 2"
proof -
  obtain a0 a1 a2 a3 a4 a5 a6 a7 a8 a9 a10 a11 a12 a13 a14 a15 rest where
    buf: "buf = [a0, a1, a2, a3, a4, a5, a6, a7, a8, a9, a10, a11, a12, a13, a14, a15] @ rest"
    using assms by (auto simp: Suc_le_length_iff eval_nat_numeral)
  define h where "h = \<lparr>hd_seq = u32_of a0 a1 a2 a3, hd_ack = u32_of a4 a5 a6 a7, hd_reserved = a8,
    hd_flags = a9, hd_window = u16_of a10 a11, hd_length = u16_of a12 a13\<rparr>"
  have "buf = header_image [a14, a15] h @ rest"
    by (simp add: buf h_def image_simps)
  then show ?thesis
    using that [of "[a14, a15]" h rest] by simp
qed

text \<open>Decoding never runs off a buffer of at least one header, and keeps its length.\<close>

lemma header_decode_in_place_total:
  assumes "16 \<le> length buf"
  shows "\<exists>buf'. header_decode_in_place buf = Ok buf' \<and> length buf' = length buf \<and>
    drop 16 buf' = drop 16 buf \<and>
    header_load buf' = and_then (header_load buf) (\<lambda>h. Ok (header_decode h))"
proof -
  obtain pad h rest where buf: "buf = header_image pad h @ rest" and pad: "length pad = 2"
    by (rule header_split [OF assms])
  have len: "length (header_image pad x) = 16" for x
    using hdr.length_image [OF pad] by (simp add: sizeof_defs)
  show ?thesis
    using pad by (simp add: buf header_decode_in_place_def hdr.load_image header_store_image len)
qed

section \<open>Loading from a buffer that is long enough\<close>

lemma load_total:
  "off + 1 \<le> length m \<Longrightarrow> \<exists>w. load_u8 m off = Ok w" "off + 2 \<le> length m \<Longrightarrow> \<exists>w. load_u16 m off = Ok w"
  "off + 4 \<le> length m \<Longrightarrow> \<exists>w. load_u32 m off = Ok w"
proof -
  have l: "k \<le> length (drop off m)" if "off + k \<le> length m" for k
    using that by simp
  show "off + 1 \<le> length m \<Longrightarrow> \<exists>w. load_u8 m off = Ok w"
    using l [of 1] by (cases "drop off m") (simp_all add: load_u8_def)
  have "\<exists>a b bs. xs = a # b # bs" if "2 \<le> length xs" for xs :: bytes
    using that by (auto simp: numeral_2_eq_2 Suc_le_length_iff)
  then show "off + 2 \<le> length m \<Longrightarrow> \<exists>w. load_u16 m off = Ok w"
    using l [of 2] unfolding load_u16_def by fastforce
  have "\<exists>a b c d bs. xs = a # b # c # d # bs" if "4 \<le> length xs" for xs :: bytes
    using that by (auto simp: eval_nat_numeral Suc_le_length_iff)
  then show "off + 4 \<le> length m \<Longrightarrow> \<exists>w. load_u32 m off = Ok w"
    using l [of 4] unfolding load_u32_def by fastforce
qed

lemma header_load_total: "sizeof_header \<le> length buf \<Longrightarrow> \<exists>h. header_load buf = Ok h"
proof -
  assume "sizeof_header \<le> length buf"
  then obtain pad h rest where "buf = header_image pad h @ rest" "length pad = 2"
    using header_split [of buf] by (auto simp: sizeof_header_def)
  then show "\<exists>h. header_load buf = Ok h"
    by (simp add: hdr.load_image)
qed

lemma payload_load_total:
  "sizeof_cfg_ack \<le> length buf \<Longrightarrow> \<exists>w. cfg_ack_load buf = Ok w" "sizeof_err \<le> length buf \<Longrightarrow> \<exists>w. err_load buf = Ok w"
  using load_total(3) [of 0 buf] load_total(1) [of 4 buf] load_total(1) [of 5 buf] load_total(1) [of 6 buf]
  by (auto simp: cfg_ack_load_def err_load_def sizeof_defs)

text \<open>The encoded header on the wire is the layout of the protocol
  document, most significant byte first: sequence number in bytes 0 to 3,
  acknowledgement in 4 to 7, the reserved byte, the control bits, the window
  and the length; but the payload starts at byte 16, behind two bytes of
  padding, not at byte 14.\<close>

lemma header_wire_layout:
  "header_image [p, q] (header_encode h) @ payload =
     rev (u32_bytes (hd_seq h)) @ rev (u32_bytes (hd_ack h)) @ [hd_reserved h, hd_flags h] @
     rev (u16_bytes (hd_window h)) @ rev (u16_bytes (hd_length h)) @ [p, q] @ payload \<and>
   drop 16 (header_image [p, q] (header_encode h) @ payload) = payload \<and>
   drop 14 (header_image [p, q] (header_encode h) @ payload) = p # q # payload"
  by (simp add: header_encode_def header_image_def bytes_htonl bytes_htons)
    (simp add: u32_bytes_def u16_bytes_def)

section \<open>Properties\<close>

text \<open>C27. A packet header survives the network, and has there the layout of the protocol
  document, most significant byte first: sequence number, acknowledgement, the reserved byte, the control bits, the window
  and the length (and, which the document does not have, two bytes of padding before the payload). Decoding it in place,
  in the buffer that the receiver has it in, leaves a struct with exactly the fields that the sender had, for every value of
  the padding, and the payload as it was; so does decoding a copy of it.\<close>

theorem header_wire_roundtrip:
  assumes "length pad = 2"
  shows "header_image pad (header_encode h) @ payload =
      rev (u32_bytes (hd_seq h)) @ rev (u32_bytes (hd_ack h)) @ [hd_reserved h, hd_flags h] @
      rev (u16_bytes (hd_window h)) @ rev (u16_bytes (hd_length h)) @ pad @ payload \<and>
    (\<exists>buf. header_decode_in_place (header_image pad (header_encode h) @ payload) = Ok buf \<and>
      header_load buf = Ok h \<and> take 2 (drop 14 buf) = pad \<and> drop 16 buf = payload) \<and>
    and_then (header_load (header_image pad (header_encode h) @ payload)) (\<lambda>w. Ok (header_decode w)) = Ok h"
proof -
  obtain p q where pad: "pad = [p, q]"
    using assms by (auto simp: numeral_2_eq_2 length_Suc_conv)
  have "header_image pad (header_encode h) @ payload =
      rev (u32_bytes (hd_seq h)) @ rev (u32_bytes (hd_ack h)) @ [hd_reserved h, hd_flags h] @
      rev (u16_bytes (hd_window h)) @ rev (u16_bytes (hd_length h)) @ pad @ payload"
    using header_wire_layout [of p q h payload] by (simp add: pad)
  moreover have "header_load (header_image pad h @ payload) = Ok h"
    by (rule hdr.load_image [OF assms])
  moreover have "take 2 (drop 14 (header_image pad h @ payload)) = pad" "drop 16 (header_image pad h @ payload) = payload"
    by (simp_all add: pad header_image_def u32_bytes_def u16_bytes_def)
  ultimately show ?thesis
    using header_decode_in_place_sent [OF assms, of h payload] hdr.receive_sent [OF assms, of h payload] by blast
qed

theorem header_wire_roundtrip_witness:
  "take 4 (header_image [7, 9] (header_encode \<lparr>hd_seq = 0x01020304, hd_ack = 5,
      hd_reserved = 0, hd_flags = 8, hd_window = 1024, hd_length = 2\<rparr>) @ [1, 2]) = [1, 2, 3, 4] \<and>
   (\<exists>buf. header_decode_in_place (header_image [7, 9] (header_encode \<lparr>hd_seq = 0x01020304, hd_ack = 5,
      hd_reserved = 0, hd_flags = 8, hd_window = 1024, hd_length = 2\<rparr>) @ [1, 2]) = Ok buf \<and>
    header_load buf = Ok \<lparr>hd_seq = 0x01020304, hd_ack = 5, hd_reserved = 0, hd_flags = 8, hd_window = 1024, hd_length = 2\<rparr> \<and>
    drop 16 buf = [1, 2])"
proof -
  have "length [7 :: u8, 9] = 2"
    by simp
  note r = header_wire_roundtrip [OF this, of "\<lparr>hd_seq = 0x01020304, hd_ack = 5,
      hd_reserved = 0, hd_flags = 8, hd_window = 1024, hd_length = 2\<rparr>" "[1, 2]"]
  have "rev (u32_bytes 0x01020304) = [1, 2, 3, 4]"
    by (simp add: u32_bytes_def)
  then have "take 4 (rev (u32_bytes 0x01020304) @ xs) = [1, 2, 3, 4]" for xs
    by simp
  with r show ?thesis
    by (metis (no_types, lifting) header.select_convs(1))
qed

text \<open>The stream configuration and the error code survive the network
  as well: sample rate and error code are converted, the single bytes are
  sent as they are.\<close>

lemma payload_wire_roundtrip:
  "and_then (cfg_ack_load (cfg_ack_image [p] (cfg_ack_encode c) @ rest)) (\<lambda>w. Ok (cfg_ack_decode w)) =
     Ok c \<and>
   and_then (err_load (err_image [] (err_encode e) @ rest)) (\<lambda>w. Ok (err_decode w)) = Ok e \<and>
   and_then (cfg_load (cfg_image [] (cfg_encode d) @ rest)) (\<lambda>w. Ok (cfg_decode w)) = Ok d"
  by (simp add: cack.receive_sent perr.receive_sent cfg.receive_sent)

end
