(* ===== verification/Sas_Packet.thy ===== *)
theory Sas_Packet
  imports Transport
begin

text \<open>
  Chunks of audio (\<open>sas-core/include/sas/chunk.h\<close>), and packets as the two
  programs build them, send them as datagrams and receive them into a buffer.
\<close>

section \<open>Chunks\<close>

record sas_chunk =
  ck_size :: nat
  ck_sample_rate :: i32
  ck_sample_size :: u8
  ck_channels :: u8
  ck_codec :: u8
  ck_buffer :: bytes

section \<open>Packets\<close>

record packet =
  pk_header :: header
  pk_payload :: bytes

text \<open>The bytes of a datagram, given those of the header's padding.\<close>

definition packet_bytes :: "bytes \<Rightarrow> packet \<Rightarrow> bytes" where
  "packet_bytes pad p = header_image pad (pk_header p) @ pk_payload p"

text \<open>
  A header with the fields that the callers of \<open>sas_server_session_send\<close> and
  \<open>sas_client_session_send\<close> set; the other ones are set by these.
\<close>

definition packet_header :: "u8 \<Rightarrow> u16 \<Rightarrow> header" where
  "packet_header flags len =
     \<lparr>hd_seq = 0, hd_ack = 0, hd_reserved = 0, hd_flags = flags, hd_window = 0, hd_length = len\<rparr>"

text \<open>By how much a packet of a length advances the sequence number.\<close>

definition seq_step :: "u16 \<Rightarrow> u32" where
  "seq_step len = (if 0 < len then ucast len else 1)"

text \<open>What the receiver of a packet reads in its header.\<close>

definition sent_seq :: "packet \<Rightarrow> u32" where "sent_seq d = hd_seq (header_decode (pk_header d))"
definition sent_ack :: "packet \<Rightarrow> u32" where "sent_ack d = hd_ack (header_decode (pk_header d))"
definition sent_flags :: "packet \<Rightarrow> u8" where "sent_flags d = hd_flags (header_decode (pk_header d))"

definition sent_window :: "packet \<Rightarrow> u16" where "sent_window d = hd_window (header_decode (pk_header d))"

lemma header_decode_encode [simp]: "header_decode (header_encode h) = h"
  by (simp add: header_decode_def header_encode_def)

text \<open>A client's SYN, as it is sent.\<close>

definition syn_datagram :: "bytes \<Rightarrow> header \<Rightarrow> bytes \<Rightarrow> bytes" where
  "syn_datagram pad h name =
     header_image pad (header_encode h) @ cfg_image [] (cfg_encode \<lparr>cfg_codec = 0\<rparr>) @ name"

section \<open>Receiving into a buffer that is used again\<close>

text \<open>
  \<open>recv\<close> overwrites the front of the buffer with the datagram, cut to the
  size of the buffer, and leaves the bytes behind it as they were.
\<close>

definition recv_into :: "bytes \<Rightarrow> bytes \<Rightarrow> bytes" where
  "recv_into buf dgram = take (length buf) dgram @ drop (length dgram) buf"

lemma length_recv_into [simp]: "length (recv_into buf dgram) = length buf"
  by (simp add: recv_into_def)

lemma length_packet_bytes [simp]: "length pad = 2 \<Longrightarrow> length (packet_bytes pad p) = 16 + length (pk_payload p)"
  by (simp add: packet_bytes_def image_simps)

lemma header_load_recv:
  assumes "header_load d = Ok h" "16 \<le> length d" "16 \<le> length buf"
  shows "header_load (recv_into buf d) = Ok h"
proof -
  obtain pad g rest where d: "d = header_image pad g @ rest" "length pad = 2"
    by (rule header_split [OF assms(2)])
  have len: "length (header_image pad g) = 16"
    using hdr.length_image [OF d(2)] by (simp add: sizeof_defs)
  then obtain rest' where into: "recv_into buf d = header_image pad g @ rest'"
    using assms(3) by (auto simp: recv_into_def d(1))
  have "g = h"
    using assms(1) unfolding d(1) hdr.load_image [OF d(2)] by simp
  then show ?thesis
    unfolding into hdr.load_image [OF d(2)] by simp
qed

lemma datagram_decoded:
  assumes "header_load d = Ok h" "16 \<le> length d" "16 \<le> length buf"
  shows "\<exists>buf'. header_decode_in_place (recv_into buf d) = Ok buf' \<and> length buf' = length buf \<and>
    header_load buf' = Ok (header_decode h)"
  using header_load_recv [OF assms] header_decode_in_place_total [of "recv_into buf d"] assms(3) by auto

text \<open>A packet with the right length in its header, in the receive buffer.\<close>

definition packet_ok :: "packet \<Rightarrow> bool" where
  "packet_ok p \<longleftrightarrow> hd_length (header_decode (pk_header p)) = of_nat (length (pk_payload p)) \<and>
     length (pk_payload p) \<le> 1024"

lemma packet_load:
  assumes "length pad = 2"
  shows "header_load (packet_bytes pad p) = Ok (pk_header p)"
  unfolding packet_bytes_def by (rule hdr.load_image [OF assms])

lemma packet_received:
  assumes "length pad = 2" "16 + length (pk_payload p) \<le> length buf"
  shows "header_decode_in_place (recv_into buf (packet_bytes pad p)) =
    Ok (header_image pad (header_decode (pk_header p)) @ pk_payload p @ drop (16 + length (pk_payload p)) buf)"
proof -
  have "header_encode (header_decode h) = h" for h
    by (simp add: hdr.enc_dec)
  then show ?thesis
    using header_decode_in_place_sent [OF assms(1), of "header_decode (pk_header p)"] assms
    by (simp add: recv_into_def) (simp add: packet_bytes_def)
qed

text \<open>Packets whose sequence numbers count the bytes sent from \<open>seq\<close> on, and the number behind them.\<close>

fun numbered :: "u32 \<Rightarrow> packet list \<Rightarrow> bool" where
  "numbered seq [] \<longleftrightarrow> True"
| "numbered seq (d # ds) \<longleftrightarrow>
     sent_seq d = seq \<and> numbered (seq + seq_step (of_nat (length (pk_payload d)))) ds"

fun seq_after :: "u32 \<Rightarrow> packet list \<Rightarrow> u32" where
  "seq_after seq [] = seq"
| "seq_after seq (d # ds) = seq_after (seq + seq_step (of_nat (length (pk_payload d)))) ds"

lemma seq_after_append [simp]: "seq_after seq (ds @ es) = seq_after (seq_after seq ds) es"
  by (induction ds arbitrary: seq) simp_all

lemma numbered_append [simp]:
  "numbered seq (ds @ es) \<longleftrightarrow> numbered seq ds \<and> numbered (seq_after seq ds) es"
  by (induction ds arbitrary: seq) simp_all

lemma numbered_nth:
  "numbered seq ds \<Longrightarrow> i < length ds \<Longrightarrow> sent_seq (ds ! i) = seq_after seq (take i ds)"
proof (induction ds arbitrary: seq i)
  case (Cons d ds)
  then show ?case by (cases i) simp_all
qed simp

end
