(* ===== verification/Sas_Os.thy ===== *)
theory Sas_Os
  imports Sas_Packet
begin

text \<open>
  The operating system as the programs use it: the clock, files and
  descriptors, the error number, and datagrams that are sent. The server's
  and the client's states extend the record \<open>os\<close>. What the environment
  decides, that is the readings of the clock, the files there are and which
  sends fail, are fields that no operation changes.
\<close>

section \<open>Files and descriptors\<close>

text \<open>
  An open file: the bytes not read yet, and the error that a read behind the
  last of them gives, if it is an error and not the end of the file.
\<close>

record open_file =
  f_rest :: bytes
  f_err :: "i32 option"

record 'addr os =
  os_files :: "bytes \<Rightarrow> i32 + open_file"
  os_clock :: "nat \<Rightarrow> int"
  os_send_error :: "nat \<Rightarrow> i32 option"
  os_ticks :: nat
  os_sends :: nat
  os_fds :: "open_file option list"
  os_errno :: i32
  os_sent :: "('addr \<times> packet) list"

definition EBADF :: i32 where "EBADF = 9"
definition EINVAL :: i32 where "EINVAL = 22"
definition ECONNRESET :: i32 where "ECONNRESET = 104"
definition ETIMEDOUT :: i32 where "ETIMEDOUT = 110"

text \<open>\<open>open\<close> gives the lowest descriptor that is not in use.\<close>

fun lowest_free :: "'a option list \<Rightarrow> nat" where
  "lowest_free [] = 0"
| "lowest_free (None # fds) = 0"
| "lowest_free (Some f # fds) = Suc (lowest_free fds)"

definition set_fd :: "nat \<Rightarrow> 'a option \<Rightarrow> 'a option list \<Rightarrow> 'a option list" where
  "set_fd i f fds = (if i < length fds then fds[i := f] else fds @ [f])"

definition fd_open :: "int \<Rightarrow> ('addr, 'a) os_scheme \<Rightarrow> open_file option" where
  "fd_open fd o' =
     (if 0 \<le> fd \<and> nat fd < length (os_fds o') then os_fds o' ! nat fd else None)"

definition os_open :: "bytes \<Rightarrow> ('addr, 'a) os_scheme \<Rightarrow> int \<times> ('addr, 'a) os_scheme" where
  "os_open path o' =
     (case os_files o' path of
        Inl e \<Rightarrow> (- 1, o'\<lparr>os_errno := e\<rparr>)
      | Inr f \<Rightarrow>
          let fd = lowest_free (os_fds o')
          in (int fd, o'\<lparr>os_fds := set_fd fd (Some f) (os_fds o')\<rparr>))"

text \<open>A socket takes a descriptor as well, and has nothing that \<open>read\<close> would give.\<close>

definition os_socket :: "('addr, 'a) os_scheme \<Rightarrow> int \<times> ('addr, 'a) os_scheme" where
  "os_socket o' =
     (let fd = lowest_free (os_fds o')
      in (int fd, o'\<lparr>os_fds := set_fd fd (Some \<lparr>f_rest = [], f_err = None\<rparr>) (os_fds o')\<rparr>))"

definition os_close :: "int \<Rightarrow> ('addr, 'a) os_scheme \<Rightarrow> ('addr, 'a) os_scheme" where
  "os_close fd o' =
     (case fd_open fd o' of
        None \<Rightarrow> o'\<lparr>os_errno := EBADF\<rparr>
      | Some f \<Rightarrow> o'\<lparr>os_fds := (os_fds o')[nat fd := None]\<rparr>)"

text \<open>\<open>read\<close>: \<open>None\<close> is the result \<open>-1\<close>, \<open>Some bs\<close> the bytes read.\<close>

definition os_read ::
    "int \<Rightarrow> nat \<Rightarrow> ('addr, 'a) os_scheme \<Rightarrow> bytes option \<times> ('addr, 'a) os_scheme" where
  "os_read fd n o' =
     (case fd_open fd o' of
        None \<Rightarrow> (None, o'\<lparr>os_errno := EBADF\<rparr>)
      | Some f \<Rightarrow>
          if f_rest f = [] then
            (case f_err f of
               Some e \<Rightarrow> (None, o'\<lparr>os_errno := e\<rparr>)
             | None \<Rightarrow> (Some [], o'))
          else
            (Some (take n (f_rest f)),
             o'\<lparr>os_fds := (os_fds o')[nat fd := Some (f\<lparr>f_rest := drop n (f_rest f)\<rparr>)]\<rparr>))"

text \<open>A descriptor that is not open behaves like a file that cannot be read.\<close>

definition file_at :: "int \<Rightarrow> ('addr, 'a) os_scheme \<Rightarrow> open_file" where
  "file_at fd o' = (case fd_open fd o' of None \<Rightarrow> \<lparr>f_rest = [], f_err = Some EBADF\<rparr> | Some f \<Rightarrow> f)"

lemma file_at_open [simp]: "fd_open fd o' = Some f \<Longrightarrow> file_at fd o' = f"
  by (simp add: file_at_def)

lemma os_read_file_at:
  "file_at fd o' = f \<Longrightarrow> os_read fd n o' =
    (if f_rest f = [] then
       (case f_err f of Some e \<Rightarrow> (None, o'\<lparr>os_errno := e\<rparr>) | None \<Rightarrow> (Some [], o'))
     else (Some (take n (f_rest f)),
       o'\<lparr>os_fds := (os_fds o')[nat fd := Some (f\<lparr>f_rest := drop n (f_rest f)\<rparr>)]\<rparr>))"
  by (auto simp: os_read_def file_at_def split: option.splits)

section \<open>Clock and datagrams\<close>

definition os_time :: "('addr, 'a) os_scheme \<Rightarrow> int \<times> ('addr, 'a) os_scheme" where
  "os_time o' = (os_clock o' (os_ticks o'), o'\<lparr>os_ticks := os_ticks o' + 1\<rparr>)"

definition os_send ::
    "'addr \<Rightarrow> packet \<Rightarrow> ('addr, 'a) os_scheme \<Rightarrow> i32 \<times> ('addr, 'a) os_scheme" where
  "os_send to p o' =
     (let o1 = o'\<lparr>os_sends := os_sends o' + 1\<rparr>
      in case os_send_error o' (os_sends o') of
           Some e \<Rightarrow> (e, o1\<lparr>os_errno := e\<rparr>)
         | None \<Rightarrow> (0, o1\<lparr>os_sent := os_sent o' @ [(to, p)]\<rparr>))"

text \<open>An operating system with nothing open and nothing sent, on which sends succeed.\<close>

definition fresh_os :: "(bytes \<Rightarrow> i32 + open_file) \<Rightarrow> (nat \<Rightarrow> int) \<Rightarrow> 'addr os" where
  "fresh_os files clock =
     \<lparr>os_files = files, os_clock = clock, os_send_error = (\<lambda>_. None), os_ticks = 0, os_sends = 0,
      os_fds = [], os_errno = 0, os_sent = []\<rparr>"

section \<open>Opening\<close>

lemma lowest_free_unused: "i = lowest_free fds \<Longrightarrow> i < length fds \<Longrightarrow> fds ! i = None"
  by (induction fds arbitrary: i rule: lowest_free.induct) auto

lemma lowest_free_le: "lowest_free fds \<le> length fds"
  by (induction fds rule: lowest_free.induct) auto

lemma fd_open_closed:
  "fd_open fd (os_close fd' o') = (if fd = fd' then None else fd_open fd o')"
  by (auto simp: os_close_def fd_open_def nth_list_update split: option.split)

lemma fd_open_set_fd:
  "fd_open (int (lowest_free (os_fds o'))) (o'\<lparr>os_fds := set_fd (lowest_free (os_fds o')) f (os_fds o')\<rparr>) = f"
  using lowest_free_le [of "os_fds o'"] by (auto simp: fd_open_def set_fd_def nth_append)

lemma fd_open_set_fd_other:
  assumes "fd_open fd o' = Some g"
  shows "fd \<noteq> int (lowest_free (os_fds o'))"
    "fd_open fd (o'\<lparr>os_fds := set_fd (lowest_free (os_fds o')) f (os_fds o')\<rparr>) = Some g"
proof -
  have fd: "0 \<le> fd" "nat fd < length (os_fds o')" "os_fds o' ! nat fd = Some g"
    using assms by (auto simp: fd_open_def split: if_splits)
  then show "fd \<noteq> int (lowest_free (os_fds o'))"
    using lowest_free_unused [OF refl, of "os_fds o'"] by auto
  then show "fd_open fd (o'\<lparr>os_fds := set_fd (lowest_free (os_fds o')) f (os_fds o')\<rparr>) = Some g"
    using fd by (auto simp: fd_open_def set_fd_def nth_append nth_list_update)
qed

end
