(* ===== verification/Wav.thy ===== *)
theory Wav
  imports Rxc_Pipeline Sas_Os
begin

text \<open>
  The source that reads chunks of audio from a WAV file
  (\<open>sas-server/src/formats/wav.c\<close>).
\<close>

section \<open>The source and its state\<close>

text \<open>
  A pipeline from a WAV source: the connection and worker, the fields of the
  source, and the environment, which has the operating system in it.
\<close>

record 'w wav_rx = rx +
  ws_fd :: int
  ws_finished :: bool
  ws_sample_rate :: i32
  ws_sample_size :: u8
  ws_channels :: u8
  wenv :: 'w

definition wav_chunk :: "bytes \<Rightarrow> 'w wav_rx \<Rightarrow> sas_chunk" where
  "wav_chunk bs s =
     \<lparr>ck_size = length bs, ck_sample_rate = ws_sample_rate s, ck_sample_size = ws_sample_size s,
      ck_channels = ws_channels s, ck_codec = 0, ck_buffer = bs\<rparr>"

definition wav_close :: "('addr, 'a) os_scheme wav_rx \<Rightarrow> ('addr, 'a) os_scheme wav_rx" where
  "wav_close s = s\<lparr>wenv := os_close (ws_fd s) (wenv s)\<rparr>"

function wav_pull_loop ::
    "(sas_chunk, ('addr, 'a) os_scheme wav_rx) sink_logic \<Rightarrow> long \<Rightarrow>
     ('addr, 'a) os_scheme wav_rx \<Rightarrow> ('addr, 'a) os_scheme wav_rx res" where
  "wav_pull_loop out n s =
     (if sint n \<le> 0 then Ok s
      else
        let (nread, o') = os_read (ws_fd s) 1024 (wenv s);
            s1 = s\<lparr>wenv := o'\<rparr>
        in case nread of
             None \<Rightarrow>
               and_then (rxc_outlet_fail out s1) (\<lambda>s2. Ok (wav_close (s2\<lparr>ws_finished := True\<rparr>)))
           | Some bs \<Rightarrow>
               if bs = [] then rxc_outlet_complete out (wav_close (s1\<lparr>ws_finished := True\<rparr>))
               else
                 and_then (rxc_outlet_emit out (wav_chunk bs s1) s1)
                   (\<lambda>(_, s2). wav_pull_loop out (n - 1) s2))"
  by pat_completeness auto
termination
  by (relation "measure (\<lambda>(out, n, s). nat (sint n))") (auto simp: long_minus_one)

declare wav_pull_loop.simps [simp del]

definition wav_on_pull ::
    "(sas_chunk, ('addr, 'a) os_scheme wav_rx) sink_logic \<Rightarrow> long \<Rightarrow>
     ('addr, 'a) os_scheme wav_rx \<Rightarrow> ('addr, 'a) os_scheme wav_rx res" where
  "wav_on_pull out n s =
     (if ws_finished s then rxc_outlet_complete out s else wav_pull_loop out n s)"

definition wav_source_logic ::
    "(sas_chunk, ('addr, 'a) os_scheme wav_rx) sink_logic \<Rightarrow> ('addr, 'a) os_scheme wav_rx source_logic" where
  "wav_source_logic out = \<lparr>on_pull = wav_on_pull out, on_downstream_finish = Ok\<rparr>"

definition wav_source :: "nat \<Rightarrow> (sas_chunk, ('addr, 'a) os_scheme wav_rx) source" where
  "wav_source d = \<lparr>connect = (\<lambda>sink s. connect_stages wav_source_logic d sink s)\<rparr>"

definition wav_dealloc :: "('addr, 'a) os_scheme wav_rx \<Rightarrow> ('addr, 'a) os_scheme wav_rx" where
  "wav_dealloc s = (if 0 \<le> ws_fd s then wav_close s else s)"

section \<open>Opening a file\<close>

definition RIFF :: bytes where "RIFF = [0x52, 0x49, 0x46, 0x46]"
definition WAVEFMT :: bytes where "WAVEFMT = [0x57, 0x41, 0x56, 0x45, 0x66, 0x6D, 0x74]"
definition PCM_CODE :: u16 where "PCM_CODE = 1"
definition sizeof_WaveHeader :: nat where "sizeof_WaveHeader = 44"

record wave_header =
  wh_main_chunk :: bytes
  wh_length :: u32
  wh_chunk_type :: bytes
  wh_sc_len :: u32
  wh_format :: u16
  wh_chans :: u16
  wh_sample_fq :: u32
  wh_byte_p_sec :: u32
  wh_byte_p_spl :: u16
  wh_bit_p_spl :: u16
  wh_data_chunk :: u32
  wh_data_length :: u32

record wav_info =
  wi_fd :: int
  wi_finished :: bool
  wi_sample_rate :: i32
  wi_sample_size :: u8
  wi_channels :: u8

text \<open>
  The struct in memory: one byte of padding follows the seven characters of
  the chunk type.
\<close>

definition wave_header_image :: "u8 \<Rightarrow> wave_header \<Rightarrow> bytes" where
  "wave_header_image pad w =
     wh_main_chunk w @ u32_bytes (wh_length w) @ wh_chunk_type w @ [pad] @ u32_bytes (wh_sc_len w) @
     u16_bytes (wh_format w) @ u16_bytes (wh_chans w) @ u32_bytes (wh_sample_fq w) @
     u32_bytes (wh_byte_p_sec w) @ u16_bytes (wh_byte_p_spl w) @ u16_bytes (wh_bit_p_spl w) @
     u32_bytes (wh_data_chunk w) @ u32_bytes (wh_data_length w)"

definition wave_header_load :: "bytes \<Rightarrow> wave_header res" where
  "wave_header_load m =
     and_then (load_u32 m 4) (\<lambda>len. and_then (load_u32 m 16) (\<lambda>sc.
     and_then (load_u16 m 20) (\<lambda>fmt. and_then (load_u16 m 22) (\<lambda>ch.
     and_then (load_u32 m 24) (\<lambda>fq. and_then (load_u32 m 28) (\<lambda>bps.
     and_then (load_u16 m 32) (\<lambda>bpl. and_then (load_u16 m 34) (\<lambda>bits.
     and_then (load_u32 m 36) (\<lambda>dc. and_then (load_u32 m 40) (\<lambda>dl.
     Ok \<lparr>wh_main_chunk = take 4 m, wh_length = len, wh_chunk_type = take 7 (drop 8 m), wh_sc_len = sc,
         wh_format = fmt, wh_chans = ch, wh_sample_fq = fq, wh_byte_p_sec = bps, wh_byte_p_spl = bpl,
         wh_bit_p_spl = bits, wh_data_chunk = dc, wh_data_length = dl\<rparr>))))))))))"

text \<open>
  \<open>junk\<close> are the bytes of the header struct on the stack before the read,
  which stay where a short or failed read does not reach.
\<close>

definition sas_formats_wav ::
    "bytes \<Rightarrow> int \<Rightarrow> ('addr, 'a) os_scheme \<Rightarrow> (wav_info option \<times> ('addr, 'a) os_scheme) res" where
  "sas_formats_wav junk fd o' =
     (let (nread, o1) = os_read fd sizeof_WaveHeader o';
          bs = (case nread of None \<Rightarrow> [] | Some bs \<Rightarrow> bs)
      in and_then (wave_header_load (bs @ drop (length bs) junk)) (\<lambda>wh.
         if wh_main_chunk wh \<noteq> RIFF \<or> wh_chunk_type wh \<noteq> WAVEFMT then Ok (None, o1)
         else if wh_format wh \<noteq> PCM_CODE then Ok (None, o1)
         else if 2 < unat (wh_chans wh) then Ok (None, o1)
         else
           Ok (Some \<lparr>wi_fd = fd, wi_finished = False, wi_sample_rate = wh_sample_fq wh,
                     wi_sample_size = ucast (wh_bit_p_spl wh), wi_channels = ucast (wh_chans wh)\<rparr>, o1)))"

lemma wave_header_load_image:
  assumes "length (wh_main_chunk w) = 4" "length (wh_chunk_type w) = 7"
  shows "wave_header_load (wave_header_image pad w @ rest) = Ok w"
proof -
  obtain a b c d where m: "wh_main_chunk w = [a, b, c, d]"
    using assms(1) by (auto simp: length_Suc_conv eval_nat_numeral)
  obtain e f g h i j k where t: "wh_chunk_type w = [e, f, g, h, i, j, k]"
    using assms(2) by (auto simp: length_Suc_conv eval_nat_numeral)
  show ?thesis
    by (cases w)
      (use m t in \<open>simp add: wave_header_load_def wave_header_image_def load_simps image_simps\<close>)
qed

lemma length_wave_header_image:
  "length (wh_main_chunk w) = 4 \<Longrightarrow> length (wh_chunk_type w) = 7 \<Longrightarrow>
    length (wave_header_image pad w) = sizeof_WaveHeader"
  by (simp add: wave_header_image_def image_simps sizeof_WaveHeader_def)

section \<open>One pull\<close>

text \<open>A pull for a single element reads one chunk, or notices the end or an error.\<close>

lemma wav_on_pull_one:
  assumes "file_at (ws_fd s) (wenv s) = f" "\<not> ws_finished s"
  shows "wav_on_pull out 1 s =
    (if f_rest f \<noteq> [] then
       and_then (rxc_outlet_emit out (wav_chunk (take 1024 (f_rest f)) s)
         (s\<lparr>wenv := (wenv s)\<lparr>os_fds := (os_fds (wenv s))[nat (ws_fd s) := Some (f\<lparr>f_rest := drop 1024 (f_rest f)\<rparr>)]\<rparr>\<rparr>))
         (\<lambda>(_, s2). Ok s2)
     else case f_err f of
         None \<Rightarrow> rxc_outlet_complete out (wav_close (s\<lparr>ws_finished := True\<rparr>))
       | Some e \<Rightarrow> and_then (rxc_outlet_fail out (s\<lparr>wenv := (wenv s)\<lparr>os_errno := e\<rparr>\<rparr>))
           (\<lambda>s2. Ok (wav_close (s2\<lparr>ws_finished := True\<rparr>))))"
proof -
  have zero: "wav_pull_loop out 0 = Ok"
    by (rule ext) (simp add: wav_pull_loop.simps [of out 0])
  have same: "s\<lparr>wenv := wenv s\<rparr> = s"
    by simp
  have chunk: "wav_chunk bs (s\<lparr>wenv := v\<rparr>) = wav_chunk bs s" for bs v
    by (simp add: wav_chunk_def)
  show ?thesis
    using assms
    by (simp add: wav_on_pull_def wav_pull_loop.simps [of out 1] os_read_file_at zero chunk
        split: option.splits)
qed

section \<open>Properties\<close>

text \<open>Opening a WAV file: a file that starts with a header of the
  format and goes on with some data is accepted exactly if the format is PCM
  and it has at most two channels; the stream then has the header's sample
  rate, and its sample size and channel count cut to eight bits, and reading
  goes on with the first byte behind the header.\<close>

lemma wav_opened:
  assumes "wh_main_chunk w = RIFF" "wh_chunk_type w = WAVEFMT"
    and "fd_open fd o' = Some \<lparr>f_rest = wave_header_image pad w @ data, f_err = e\<rparr>"
  shows "sas_formats_wav junk fd o' = Ok
    (if wh_format w = PCM_CODE \<and> unat (wh_chans w) \<le> 2
     then Some \<lparr>wi_fd = fd, wi_finished = False, wi_sample_rate = wh_sample_fq w,
       wi_sample_size = ucast (wh_bit_p_spl w), wi_channels = ucast (wh_chans w)\<rparr>
     else None,
     o'\<lparr>os_fds := (os_fds o')[nat fd := Some \<lparr>f_rest = data, f_err = e\<rparr>]\<rparr>)"
proof -
  have len: "length (wh_main_chunk w) = 4" "length (wh_chunk_type w) = 7"
    using assms by (simp_all add: RIFF_def WAVEFMT_def)
  note l = length_wave_header_image [OF len, of pad]
  have read: "os_read fd sizeof_WaveHeader o' = (Some (wave_header_image pad w),
      o'\<lparr>os_fds := (os_fds o')[nat fd := Some \<lparr>f_rest = data, f_err = e\<rparr>]\<rparr>)"
    using assms(3) l by (auto simp: os_read_def sizeof_WaveHeader_def)
  show ?thesis
    by (simp add: sas_formats_wav_def read wave_header_load_image [OF len] assms(1,2) not_less)
qed

definition example_wav :: wave_header where
  "example_wav = \<lparr>wh_main_chunk = RIFF, wh_length = 38, wh_chunk_type = WAVEFMT, wh_sc_len = 16,
     wh_format = 1, wh_chans = 2, wh_sample_fq = 44100, wh_byte_p_sec = 176400, wh_byte_p_spl = 4,
     wh_bit_p_spl = 16, wh_data_chunk = 0x61746164, wh_data_length = 2\<rparr>"

lemma wav_opened_witness:
  "sas_formats_wav (replicate 44 0) 0 ((fresh_os (\<lambda>_. Inl 2) (\<lambda>_. 0) :: nat os)
      \<lparr>os_fds := [Some \<lparr>f_rest = wave_header_image 0x20 example_wav @ [1, 2], f_err = None\<rparr>]\<rparr>) =
    Ok (Some \<lparr>wi_fd = 0, wi_finished = False, wi_sample_rate = 44100, wi_sample_size = 16, wi_channels = 2\<rparr>,
      (fresh_os (\<lambda>_. Inl 2) (\<lambda>_. 0))\<lparr>os_fds := [Some \<lparr>f_rest = [1, 2], f_err = None\<rparr>]\<rparr>)"
  using wav_opened [where w = example_wav and fd = 0 and pad = "0x20" and data = "[1, 2]" and e = None
      and junk = "replicate 44 0"
      and o' = "(fresh_os (\<lambda>_. Inl 2) (\<lambda>_. 0) :: nat os)
        \<lparr>os_fds := [Some \<lparr>f_rest = wave_header_image 0x20 example_wav @ [1, 2], f_err = None\<rparr>]\<rparr>"]
  by (simp add: fd_open_def PCM_CODE_def example_wav_def)

end
