(* ===== verification/Server_State.thy ===== *)
theory Server_State
  imports Wav
begin

text \<open>
  The state of the server (\<open>sas-server/src/server.h\<close>, \<open>session.h\<close> and
  \<open>timeout.h\<close>): sessions live in a store and are known by their address in
  it, as the table, the timeout heap and the sinks of the pipelines share
  them. An address that is not, or no longer, allocated has no session.
\<close>

type_synonym sid = nat

text \<open>A socket address: the 16 bytes of the IPv6 address, and the port as stored.\<close>

record sockaddr6 =
  sa_addr :: bytes
  sa_port :: u16

type_synonym wav_pipe = "unit wav_rx"

record session =
  s_addr :: sockaddr6
  s_state :: transport_state
  s_seq :: u32
  s_ack :: u32
  s_send_window :: u16
  s_receive_window :: u16
  s_pipeline :: "wav_pipe option"
  s_sink_logic :: bool
  s_timeout :: int
  s_sample_rate :: i32
  s_sample_size :: u8
  s_channels :: u8
  s_codec :: u8
  s_fd :: int
  s_next :: "sid option"

text \<open>
  \<open>srv_mem\<close> are the allocated sessions and \<open>srv_fresh\<close> is the next address
  that \<open>malloc\<close> gives; \<open>srv_malloc_ok\<close> says which of these allocations
  succeed, \<open>srv_junk\<close> what fresh memory holds, and \<open>srv_stack\<close> what the header
  struct of \<open>sas_formats_wav\<close> holds before it is read.
\<close>

record server = "sockaddr6 os" +
  srv_fd :: int
  ss_count :: int
  ss_capacity :: nat
  ss_table :: "sid option list"
  th_count :: nat
  th_capacity :: nat
  th_heap :: "sid option list"
  srv_mem :: "sid \<Rightarrow> session option"
  srv_fresh :: sid
  srv_malloc_ok :: "nat \<Rightarrow> bool"
  srv_junk :: session
  srv_stack :: bytes

definition SESSION_TABLE_INITIAL_CAPACITY :: nat where "SESSION_TABLE_INITIAL_CAPACITY = 32"
definition TIMEOUT_HEAP_INITIAL_CAPACITY :: nat where "TIMEOUT_HEAP_INITIAL_CAPACITY = 32"
definition SESSION_TIMEOUT :: int where "SESSION_TIMEOUT = 30"
definition SESSION_WINDOW_SIZE :: u16 where "SESSION_WINDOW_SIZE = 1024"

text \<open>A new server, in a given environment.\<close>

definition sas_server_alloc ::
    "sockaddr6 os \<Rightarrow> (nat \<Rightarrow> bool) \<Rightarrow> session \<Rightarrow> bytes \<Rightarrow> server" where
  "sas_server_alloc env malloc_ok junk stack =
     os.extend env
       (server.fields (- 1) 0 SESSION_TABLE_INITIAL_CAPACITY
         (replicate SESSION_TABLE_INITIAL_CAPACITY None)
         0 TIMEOUT_HEAP_INITIAL_CAPACITY (replicate TIMEOUT_HEAP_INITIAL_CAPACITY None)
         (\<lambda>_. None) 0 malloc_ok junk stack)"

text \<open>The session a pointer refers to, and an update of it.\<close>

definition session_at :: "sid \<Rightarrow> server \<Rightarrow> session res" where
  "session_at p srv = deref Use_After_Free (srv_mem srv p)"

definition set_session :: "sid \<Rightarrow> session \<Rightarrow> server \<Rightarrow> server" where
  "set_session p s srv = srv\<lparr>srv_mem := (srv_mem srv)(p \<mapsto> s)\<rparr>"

definition update_session :: "sid \<Rightarrow> (session \<Rightarrow> session) \<Rightarrow> server \<Rightarrow> server res" where
  "update_session p f srv = and_then (session_at p srv) (\<lambda>s. Ok (set_session p (f s) srv))"

lemma session_at_set [simp]: "session_at p (set_session p s srv) = Ok s"
  by (simp add: session_at_def set_session_def)

lemma set_session_twice [simp]: "set_session p s (set_session p t srv) = set_session p s srv"
  by (simp add: set_session_def)

lemma srv_mem_set_session [simp]: "srv_mem (set_session p s srv) = (srv_mem srv)(p \<mapsto> s)"
  by (simp add: set_session_def)

lemma sas_server_alloc_simps [simp]:
  "ss_count (sas_server_alloc env m j st) = 0" "ss_capacity (sas_server_alloc env m j st) = 32"
  "ss_table (sas_server_alloc env m j st) = replicate 32 None"
  "th_count (sas_server_alloc env m j st) = 0" "th_capacity (sas_server_alloc env m j st) = 32"
  "th_heap (sas_server_alloc env m j st) = replicate 32 None"
  "srv_mem (sas_server_alloc env m j st) = (\<lambda>_. None)" "srv_fresh (sas_server_alloc env m j st) = 0"
  "srv_malloc_ok (sas_server_alloc env m j st) = m" "srv_junk (sas_server_alloc env m j st) = j"
  "srv_stack (sas_server_alloc env m j st) = st" "srv_fd (sas_server_alloc env m j st) = - 1"
  by (simp_all add: sas_server_alloc_def os.defs server.defs
      SESSION_TABLE_INITIAL_CAPACITY_def TIMEOUT_HEAP_INITIAL_CAPACITY_def)

end
