(* ===== verification/Session_Table.thy ===== *)
theory Session_Table
  imports Server_State
begin

text \<open>
  The hash table of sessions (first half of \<open>sas-server/src/session.c\<close>): the
  hash and the comparison of addresses, and finding, creating and deleting a
  session in the chain of its bucket.
\<close>

section \<open>Hashing and comparing addresses\<close>

definition addr_bytes :: "sockaddr6 \<Rightarrow> bytes" where
  "addr_bytes a = sa_addr a @ u16_bytes (sa_port a)"

text \<open>\<open>hash * 33 + c\<close> in 64 bits; the signed \<open>char\<close> is extended with its sign.\<close>

definition hash_step :: "u64 \<Rightarrow> u8 \<Rightarrow> u64" where
  "hash_step h b = (push_bit 5 h + h) + scast b"

definition addr_hash :: "sockaddr6 \<Rightarrow> u64" where
  "addr_hash a = fold (\<lambda>b h. hash_step h b) (addr_bytes a) 5381"

text \<open>\<open>memcmp\<close>: the difference of the first two bytes that differ.\<close>

fun memcmp :: "bytes \<Rightarrow> bytes \<Rightarrow> int" where
  "memcmp (a # as) (b # bs) = (if a = b then memcmp as bs else uint a - uint b)"
| "memcmp _ _ = 0"

text \<open>
  The comparison, used as a truth value by its callers. \<open>same\<close> is whether the
  two pointers are equal.
\<close>

definition addr_eq :: "bool \<Rightarrow> sockaddr6 \<Rightarrow> sockaddr6 \<Rightarrow> int" where
  "addr_eq same a b =
     (if same then 1
      else
        let res = memcmp (sa_addr a) (sa_addr b)
        in if res \<noteq> 0 then res
           else if ntohs (sa_port a) = ntohs (sa_port b) then 1 else 0)"

definition bucket_of :: "server \<Rightarrow> sockaddr6 \<Rightarrow> nat" where
  "bucket_of srv a = unat (addr_hash a) mod ss_capacity srv"

section \<open>Walking a bucket\<close>

text \<open>The loops follow the links of a chain; the first argument bounds their steps.\<close>

fun find_loop :: "nat \<Rightarrow> server \<Rightarrow> sockaddr6 \<Rightarrow> sid option \<Rightarrow> sid option res" where
  "find_loop 0 srv a session = Fault Out_Of_Fuel"
| "find_loop (Suc k) srv a session =
     (case session of
        None \<Rightarrow> Ok None
      | Some p \<Rightarrow>
          and_then (session_at p srv) (\<lambda>s.
          if addr_eq False (s_addr s) a \<noteq> 0 then Ok (Some p)
          else find_loop k srv a (s_next s)))"

definition sas_server_session_find :: "server \<Rightarrow> sockaddr6 \<Rightarrow> sid option res" where
  "sas_server_session_find srv a =
     find_loop (srv_fresh srv + 1) srv a (ss_table srv ! bucket_of srv a)"

text \<open>
  The loop of \<open>get\<close> either finds a session (\<open>Inl\<close>), or ends with the last
  session of the chain, or none if it is empty (\<open>Inr\<close>).
\<close>

fun get_loop :: "nat \<Rightarrow> server \<Rightarrow> sockaddr6 \<Rightarrow> sid option \<Rightarrow> (sid + sid option) res" where
  "get_loop 0 srv a prev = Fault Out_Of_Fuel"
| "get_loop (Suc k) srv a prev =
     (case prev of
        None \<Rightarrow> Ok (Inr None)
      | Some p \<Rightarrow>
          and_then (session_at p srv) (\<lambda>s.
          if addr_eq False (s_addr s) a \<noteq> 0 then Ok (Inl p)
          else if s_next s = None then Ok (Inr (Some p))
          else get_loop k srv a (s_next s)))"

text \<open>A fresh session: the fields not set keep what the memory held.\<close>

definition new_session :: "session \<Rightarrow> sockaddr6 \<Rightarrow> session" where
  "new_session junk a = junk\<lparr>s_addr := a, s_state := STATE_INITIAL, s_seq := 0, s_ack := 0,
     s_send_window := 0, s_receive_window := SESSION_WINDOW_SIZE, s_pipeline := None,
     s_sink_logic := False, s_fd := - 1, s_next := None\<rparr>"

definition sas_server_session_get :: "server \<Rightarrow> sockaddr6 \<Rightarrow> (sid option \<times> server) res" where
  "sas_server_session_get srv a =
     (let index = bucket_of srv a
      in and_then (get_loop (srv_fresh srv + 1) srv a (ss_table srv ! index)) (\<lambda>r.
         case r of
           Inl p \<Rightarrow> Ok (Some p, srv)
         | Inr prev \<Rightarrow>
             let session = srv_fresh srv;
                 srv0 = srv\<lparr>srv_fresh := session + 1\<rparr>
             in if \<not> srv_malloc_ok srv session then Ok (None, srv0)
                else
                  let srv1 = set_session session (new_session (srv_junk srv) a) srv0
                  in and_then
                       (case prev of
                          Some p \<Rightarrow> update_session p (\<lambda>s. s\<lparr>s_next := Some session\<rparr>) srv1
                        | None \<Rightarrow> Ok (srv1\<lparr>ss_table := (ss_table srv1)[index := Some session]\<rparr>))
                       (\<lambda>srv2. Ok (Some session, srv2\<lparr>ss_count := ss_count srv2 + 1\<rparr>))))"

section \<open>Deleting a session\<close>

text \<open>
  A pipeline is stored without the environment it runs in, and released with
  its source, which closes its descriptor, and its sink.
\<close>

definition pipe_with :: "'v \<Rightarrow> 'w wav_rx \<Rightarrow> 'v wav_rx" where
  "pipe_with v s = \<lparr>requested = requested s, worker = worker s, in_parent = in_parent s,
     ws_fd = ws_fd s, ws_finished = ws_finished s, ws_sample_rate = ws_sample_rate s,
     ws_sample_size = ws_sample_size s, ws_channels = ws_channels s, wenv = v\<rparr>"

definition rxc_pipeline_dealloc :: "wav_pipe \<Rightarrow> server \<Rightarrow> server" where
  "rxc_pipeline_dealloc p srv = wenv (wav_dealloc (pipe_with srv p))"

definition close_session :: "session \<Rightarrow> server \<Rightarrow> server" where
  "close_session s srv =
     (let srv1 = (case s_pipeline s of None \<Rightarrow> srv | Some pl \<Rightarrow> rxc_pipeline_dealloc pl srv)
      in if 0 \<le> s_fd s then os_close (s_fd s) srv1 else srv1)"

definition session_release :: "sid \<Rightarrow> server \<Rightarrow> server res" where
  "session_release p srv =
     and_then (session_at p srv) (\<lambda>s.
     let srv2 = close_session s srv
     in Ok (srv2\<lparr>srv_mem := (srv_mem srv2)(p := None), ss_count := ss_count srv2 - 1\<rparr>))"

fun delete_loop :: "nat \<Rightarrow> nat \<Rightarrow> sid \<Rightarrow> sid option \<Rightarrow> sid option \<Rightarrow> server \<Rightarrow> server res" where
  "delete_loop 0 index p prev cur srv = Fault Out_Of_Fuel"
| "delete_loop (Suc k) index p prev cur srv =
     (case cur of
        None \<Rightarrow> Ok srv
      | Some c \<Rightarrow>
          and_then (session_at c srv) (\<lambda>cs.
          and_then (session_at p srv) (\<lambda>s.
          if addr_eq (c = p) (s_addr cs) (s_addr s) \<noteq> 0 then
            and_then
              (case prev of
                 Some q \<Rightarrow> update_session q (\<lambda>qs. qs\<lparr>s_next := s_next cs\<rparr>) srv
               | None \<Rightarrow> Ok (srv\<lparr>ss_table := (ss_table srv)[index := s_next cs]\<rparr>))
              (session_release p)
          else delete_loop k index p (Some c) (s_next cs) srv)))"

definition sas_server_session_delete :: "server \<Rightarrow> sid \<Rightarrow> server res" where
  "sas_server_session_delete srv p =
     and_then (session_at p srv) (\<lambda>s.
     let index = bucket_of srv (s_addr s)
     in delete_loop (srv_fresh srv + 1) index p None (ss_table srv ! index) srv)"

section \<open>The comparison and the hash\<close>

lemma memcmp_zero: "length as = length bs \<Longrightarrow> memcmp as bs = 0 \<longleftrightarrow> as = bs"
  by (induction as bs rule: memcmp.induct) (auto simp: word_uint_eq_iff)

lemma ntohs_inject [simp]: "ntohs x = ntohs y \<longleftrightarrow> x = y"
  by (metis byte_order_inverse(2))

text \<open>
  As a truth value, the comparison holds for addresses that differ, and for
  equal addresses with equal ports.
\<close>

definition addr_match :: "sockaddr6 \<Rightarrow> sockaddr6 \<Rightarrow> bool" where
  "addr_match a b \<longleftrightarrow> addr_eq False a b \<noteq> 0"

lemma addr_match_iff:
  assumes "length (sa_addr a) = length (sa_addr b)"
  shows "addr_match a b \<longleftrightarrow> sa_addr a \<noteq> sa_addr b \<or> sa_port a = sa_port b"
  using memcmp_zero [OF assms] by (auto simp: addr_match_def addr_eq_def Let_def)

lemma addr_eq_same [simp]: "addr_eq True a b = 1"
  by (simp add: addr_eq_def)

text \<open>33 is 1 modulo 32: the bytes of an address enter its bucket as a sum.\<close>

lemma hash_step_mod: "uint (hash_step h b) mod 32 = (uint h + sint b) mod 32"
proof -
  have "hash_step h b = 33 * h + scast b"
    by (simp add: hash_step_def push_bit_eq_mult)
  also have "\<dots> = word_of_int (33 * uint h) + word_of_int (sint b)"
    by (subst scast_eq) simp
  also have "\<dots> = word_of_int (33 * uint h + sint b)"
    by (rule wi_hom_add)
  finally have eq: "hash_step h b = word_of_int (33 * uint h + sint b)" .
  have "uint (hash_step h b) = (33 * uint h + sint b) mod 2 ^ 64"
    unfolding eq uint_word_of_int by simp
  then have "uint (hash_step h b) mod 32 = (33 * uint h + sint b) mod 2 ^ 64 mod 32"
    by simp
  also have "\<dots> = (33 * uint h + sint b) mod 32"
    by (rule mod_mod_cancel) simp
  also have "\<dots> = (uint h + sint b + 32 * uint h) mod 32"
    by (simp add: algebra_simps)
  also have "\<dots> = (uint h + sint b) mod 32"
    by (rule mod_mult_self2)
  finally show ?thesis .
qed

lemma hash_fold_mod:
  "uint (fold (\<lambda>b h. hash_step h b) bs h) mod 32 = (uint h + sum_list (map sint bs)) mod 32"
proof (induction bs arbitrary: h)
  case Nil
  then show ?case by simp
next
  case (Cons b bs)
  have "uint (fold (\<lambda>b h. hash_step h b) bs (hash_step h b)) mod 32 =
      (uint (hash_step h b) + sum_list (map sint bs)) mod 32"
    by (rule Cons.IH)
  also have "\<dots> = (uint (hash_step h b) mod 32 + sum_list (map sint bs)) mod 32"
    by (simp add: mod_add_left_eq)
  also have "\<dots> = ((uint h + sint b) mod 32 + sum_list (map sint bs)) mod 32"
    by (simp add: hash_step_mod)
  also have "\<dots> = (uint h + (sint b + sum_list (map sint bs))) mod 32"
    by (simp add: mod_add_left_eq add.assoc)
  finally show ?case by simp
qed

lemma bucket_of_sum:
  assumes "ss_capacity srv = 32"
  shows "int (bucket_of srv a) = (5381 + sum_list (map sint (addr_bytes a))) mod 32"
proof -
  have "int (bucket_of srv a) = uint (addr_hash a) mod 32"
    by (simp add: bucket_of_def assms zmod_int)
  also have "\<dots> = (5381 + sum_list (map sint (addr_bytes a))) mod 32"
    unfolding addr_hash_def hash_fold_mod by simp
  finally show ?thesis .
qed

section \<open>The table as lists\<close>

definition next_of :: "server \<Rightarrow> sid \<Rightarrow> sid option option" where
  "next_of srv p = map_option s_next (srv_mem srv p)"

text \<open>
  \<open>table_rep srv cs\<close>: bucket \<open>i\<close> holds the sessions \<open>cs ! i\<close>, in order. Every
  allocated session is in the bucket of its address and in no other, the
  count is right, and no session of a bucket is taken for another one.
\<close>

definition in_bucket :: "server \<Rightarrow> nat \<Rightarrow> sid \<Rightarrow> bool" where
  "in_bucket srv i p \<longleftrightarrow> p < srv_fresh srv \<and>
     (\<exists>s. srv_mem srv p = Some s \<and> bucket_of srv (s_addr s) = i \<and> length (sa_addr (s_addr s)) = 16)"

definition bucket_rep :: "server \<Rightarrow> nat \<Rightarrow> sid option \<Rightarrow> sid list \<Rightarrow> bool" where
  "bucket_rep srv i h ps \<longleftrightarrow> chain (next_of srv) h ps \<and> distinct ps \<and> (\<forall>p \<in> set ps. in_bucket srv i p) \<and>
     (\<forall>p \<in> set ps. \<forall>q \<in> set ps. \<forall>s t. p \<noteq> q \<longrightarrow> srv_mem srv p = Some s \<longrightarrow> srv_mem srv q = Some t \<longrightarrow>
        \<not> addr_match (s_addr s) (s_addr t))"

definition table_rep :: "server \<Rightarrow> sid list list \<Rightarrow> bool" where
  "table_rep srv cs \<longleftrightarrow> length (ss_table srv) = ss_capacity srv \<and> 0 < ss_capacity srv \<and>
     length cs = ss_capacity srv \<and>
     (\<forall>i < ss_capacity srv. bucket_rep srv i (ss_table srv ! i) (cs ! i)) \<and>
     (\<forall>p s. srv_mem srv p = Some s \<longrightarrow> p \<in> set (cs ! bucket_of srv (s_addr s))) \<and>
     ss_count srv = int (sum_list (map length cs))"

lemma table_rep_bucket:
  assumes "table_rep srv cs"
  shows "bucket_of srv a < ss_capacity srv"
    and "bucket_rep srv (bucket_of srv a) (ss_table srv ! bucket_of srv a) (cs ! bucket_of srv a)"
  using assms by (simp_all add: table_rep_def bucket_of_def)

lemma bucket_length:
  assumes "bucket_rep srv i h ps"
  shows "length ps \<le> srv_fresh srv"
proof -
  have "distinct ps" "set ps \<subseteq> {..<srv_fresh srv}"
    using assms by (auto simp: bucket_rep_def in_bucket_def)
  then show ?thesis
    by (metis card_lessThan card_mono distinct_card finite_lessThan)
qed

definition matches :: "server \<Rightarrow> sockaddr6 \<Rightarrow> sid \<Rightarrow> bool" where
  "matches srv a p \<longleftrightarrow> (case srv_mem srv p of None \<Rightarrow> False | Some s \<Rightarrow> addr_match (s_addr s) a)"

lemma find_loop_chain:
  "chain (next_of srv) h ps \<Longrightarrow> length ps < k \<Longrightarrow> find_loop k srv a h = Ok (find (matches srv a) ps)"
proof (induction ps arbitrary: k h)
  case Nil
  then show ?case by (cases k) auto
next
  case (Cons p ps)
  then obtain j where "k = Suc j" by (cases k) auto
  with Cons show ?case
    by (auto simp: next_of_def session_at_def matches_def addr_match_def)
qed

lemma get_loop_chain:
  "chain (next_of srv) h ps \<Longrightarrow> length ps < k \<Longrightarrow> get_loop k srv a h =
     Ok (case find (matches srv a) ps of
           Some p \<Rightarrow> Inl p
         | None \<Rightarrow> Inr (if ps = [] then None else Some (last ps)))"
proof (induction ps arbitrary: k h)
  case Nil
  then show ?case by (cases k) auto
next
  case (Cons p ps)
  then obtain j where "k = Suc j" by (cases k) auto
  with Cons show ?case
    by (cases ps) (auto simp: next_of_def session_at_def matches_def addr_match_def chain_Some split: option.split)
qed

text \<open>
  Which session of a bucket the code takes for an address: the first one if
  it is from another address, else the one with the port.
\<close>

definition port_of :: "server \<Rightarrow> sid \<Rightarrow> u16 option" where
  "port_of srv p = map_option (\<lambda>s. sa_port (s_addr s)) (srv_mem srv p)"

definition ip_of :: "server \<Rightarrow> sid \<Rightarrow> bytes option" where
  "ip_of srv p = map_option (\<lambda>s. sa_addr (s_addr s)) (srv_mem srv p)"

definition bucket_lookup :: "server \<Rightarrow> sockaddr6 \<Rightarrow> sid list \<Rightarrow> sid option" where
  "bucket_lookup srv a ps =
     (case ps of
        [] \<Rightarrow> None
      | p # _ \<Rightarrow>
          if ip_of srv p \<noteq> Some (sa_addr a) then Some p
          else find (\<lambda>q. port_of srv q = Some (sa_port a)) ps)"

lemma bucket_rep_memberD:
  assumes "bucket_rep srv i h ps" "p \<in> set ps"
  obtains s where "p < srv_fresh srv" "srv_mem srv p = Some s" "bucket_of srv (s_addr s) = i"
    "length (sa_addr (s_addr s)) = 16"
  using assms by (auto simp: bucket_rep_def in_bucket_def)

lemma bucket_rep_no_match:
  assumes "bucket_rep srv i h ps" "p \<in> set ps" "q \<in> set ps" "p \<noteq> q"
    "srv_mem srv p = Some s" "srv_mem srv q = Some t"
  shows "\<not> addr_match (s_addr s) (s_addr t)"
  using assms unfolding bucket_rep_def by blast

lemma bucket_same_ip:
  assumes "bucket_rep srv i h ps" "p \<in> set ps" "q \<in> set ps"
  shows "ip_of srv p = ip_of srv q"
proof (cases "p = q")
  case False
  obtain s where s: "srv_mem srv p = Some s" "length (sa_addr (s_addr s)) = 16"
    using assms by (elim bucket_rep_memberD)
  obtain t where t: "srv_mem srv q = Some t" "length (sa_addr (s_addr t)) = 16"
    using assms by (elim bucket_rep_memberD)
  have "\<not> addr_match (s_addr s) (s_addr t)"
    using bucket_rep_no_match [OF assms False s(1) t(1)] .
  then show ?thesis
    using s t by (simp add: addr_match_iff ip_of_def)
qed simp

lemma bucket_find:
  assumes "bucket_rep srv i h ps" "length (sa_addr a) = 16"
  shows "find (matches srv a) ps = bucket_lookup srv a ps"
proof (cases ps)
  case Nil
  then show ?thesis by (simp add: bucket_lookup_def)
next
  case (Cons p qs)
  have m: "matches srv a q \<longleftrightarrow> ip_of srv q \<noteq> Some (sa_addr a) \<or> port_of srv q = Some (sa_port a)"
    if "q \<in> set ps" for q
    using that assms by (auto simp: bucket_rep_def in_bucket_def matches_def addr_match_iff
        ip_of_def port_of_def)
  have "ip_of srv q = ip_of srv p" if "q \<in> set ps" for q
    using bucket_same_ip [OF assms(1) that, of p] Cons by simp
  with m have "matches srv a q \<longleftrightarrow> ip_of srv p \<noteq> Some (sa_addr a) \<or> port_of srv q = Some (sa_port a)"
    if "q \<in> set ps" for q
    using that by simp
  then have "find (matches srv a) ps =
      find (\<lambda>q. ip_of srv p \<noteq> Some (sa_addr a) \<or> port_of srv q = Some (sa_port a)) ps"
    by (intro find_cong) auto
  then show ?thesis
    by (auto simp: bucket_lookup_def Cons)
qed

lemma table_rep_lookup:
  assumes "table_rep srv cs" "length (sa_addr a) = 16"
  shows "get_loop (srv_fresh srv + 1) srv a (ss_table srv ! bucket_of srv a) =
      Ok (case bucket_lookup srv a (cs ! bucket_of srv a) of
           Some p \<Rightarrow> Inl p
         | None \<Rightarrow> Inr (if cs ! bucket_of srv a = [] then None else Some (last (cs ! bucket_of srv a))))"
    and "find_loop (srv_fresh srv + 1) srv a (ss_table srv ! bucket_of srv a) =
      Ok (bucket_lookup srv a (cs ! bucket_of srv a))"
proof -
  let ?ps = "cs ! bucket_of srv a"
  have b: "bucket_rep srv (bucket_of srv a) (ss_table srv ! bucket_of srv a) ?ps"
    using table_rep_bucket(2) [OF assms(1)] .
  then have c: "chain (next_of srv) (ss_table srv ! bucket_of srv a) ?ps" "length ?ps < srv_fresh srv + 1"
    using bucket_length by (auto simp: bucket_rep_def less_Suc_eq_le)
  show "get_loop (srv_fresh srv + 1) srv a (ss_table srv ! bucket_of srv a) =
      Ok (case bucket_lookup srv a ?ps of
           Some p \<Rightarrow> Inl p
         | None \<Rightarrow> Inr (if ?ps = [] then None else Some (last ?ps)))"
    unfolding get_loop_chain [OF c] bucket_find [OF b assms(2)] ..
  show "find_loop (srv_fresh srv + 1) srv a (ss_table srv ! bucket_of srv a) =
      Ok (bucket_lookup srv a ?ps)"
    unfolding find_loop_chain [OF c] bucket_find [OF b assms(2)] ..
qed

section \<open>What the operations keep\<close>

lemma addr_match_sym:
  "length (sa_addr a) = 16 \<Longrightarrow> length (sa_addr b) = 16 \<Longrightarrow> addr_match a b \<longleftrightarrow> addr_match b a"
  by (auto simp: addr_match_iff)

text \<open>A bucket is a matter of the links and addresses of its sessions.\<close>

lemma bucket_of_capacity:
  "ss_capacity srv' = ss_capacity srv \<Longrightarrow> bucket_of srv' = bucket_of srv"
  by (simp add: bucket_of_def fun_eq_iff)

lemma bucket_rep_frame:
  assumes "bucket_rep srv i h ps"
    and "ss_capacity srv' = ss_capacity srv" "srv_fresh srv \<le> srv_fresh srv'"
    and "\<And>p. p \<in> set ps \<Longrightarrow> srv_mem srv' p = srv_mem srv p"
  shows "bucket_rep srv' i h ps"
proof -
  have "chain (next_of srv') h ps"
    using assms(1,4) by (subst chain_cong [where nxt' = "next_of srv"]) (auto simp: bucket_rep_def next_of_def)
  moreover have "in_bucket srv' i p" if "p \<in> set ps" for p
    using assms(1,3) assms(4) [OF that] that bucket_of_capacity [OF assms(2)]
    by (fastforce simp: bucket_rep_def in_bucket_def)
  ultimately show ?thesis
    using assms(1,4) unfolding bucket_rep_def by metis
qed

lemma table_rep_update_bucket:
  assumes rep: "table_rep srv cs" and i: "i < ss_capacity srv"
    and same: "ss_capacity srv' = ss_capacity srv" "ss_table srv' = (ss_table srv)[i := h]"
      "srv_fresh srv \<le> srv_fresh srv'"
    and b: "bucket_rep srv' i h ps"
    and frame: "\<And>p. p \<notin> set (cs ! i) \<Longrightarrow> p \<notin> set ps \<Longrightarrow> srv_mem srv' p = srv_mem srv p"
    and new: "\<And>p. p \<in> set ps \<Longrightarrow> p \<in> set (cs ! i) \<or> srv_fresh srv \<le> p"
    and gone: "\<And>p. p \<in> set (cs ! i) \<Longrightarrow> p \<notin> set ps \<Longrightarrow> srv_mem srv' p = None"
    and count: "ss_count srv' = ss_count srv + int (length ps) - int (length (cs ! i))"
  shows "table_rep srv' (cs[i := ps])"
proof -
  have len: "length cs = ss_capacity srv" "length (ss_table srv) = ss_capacity srv"
    using rep by (auto simp: table_rep_def)
  have old: "bucket_rep srv j (ss_table srv ! j) (cs ! j)" if "j < ss_capacity srv" for j
    using rep that by (simp add: table_rep_def)
  have apart: "p \<notin> set (cs ! i) \<and> p \<notin> set ps" if "j < ss_capacity srv" "j \<noteq> i" "p \<in> set (cs ! j)" for j p
  proof -
    note j = that
    obtain s where s: "p < srv_fresh srv" "srv_mem srv p = Some s" "bucket_of srv (s_addr s) = j"
      using old [OF j(1)] j(3) by (elim bucket_rep_memberD)
    have "p \<notin> set (cs ! i)"
    proof
      assume "p \<in> set (cs ! i)"
      then obtain s' where "srv_mem srv p = Some s'" "bucket_of srv (s_addr s') = i"
        using old [OF i] by (elim bucket_rep_memberD)
      with s j(2) show False by simp
    qed
    moreover note s(1)
    ultimately show ?thesis
      using new [of p] by auto
  qed
  have "bucket_rep srv' j (ss_table srv' ! j) (cs[i := ps] ! j)" if "j < ss_capacity srv'" for j
  proof (cases "j = i")
    case True
    then show ?thesis using b i same len by simp
  next
    case False
    have j: "j < ss_capacity srv"
      using that same(1) by simp
    have "bucket_rep srv' j (ss_table srv ! j) (cs ! j)"
    proof (rule bucket_rep_frame [OF old [OF j] same(1,3)])
      show "srv_mem srv' p = srv_mem srv p" if "p \<in> set (cs ! j)" for p
        using apart [OF j False that] by (intro frame) auto
    qed
    then show ?thesis using False same by simp
  qed
  moreover have "p \<in> set (cs[i := ps] ! bucket_of srv' (s_addr s))" if "srv_mem srv' p = Some s" for p s
  proof (cases "p \<in> set ps")
    case True
    then obtain s' where "srv_mem srv' p = Some s'" "bucket_of srv' (s_addr s') = i"
      using b by (elim bucket_rep_memberD)
    then show ?thesis
      using that i len True by simp
  next
    case False
    have p: "p \<notin> set (cs ! i)"
      using gone [OF _ False] that by auto
    then have mem: "srv_mem srv p = Some s"
      using frame [OF p False] that by simp
    then have m: "p \<in> set (cs ! bucket_of srv (s_addr s))"
      using rep by (simp add: table_rep_def)
    then have "bucket_of srv (s_addr s) \<noteq> i"
      using p by metis
    then show ?thesis
      using m bucket_of_capacity [OF same(1)] by simp
  qed
  moreover have "ss_count srv' = int (sum_list (map length (cs[i := ps])))"
  proof -
    have "length (cs ! i) \<le> sum_list (map length cs)"
      using i len by (intro elem_le_sum_list [of i "map length cs", simplified]) auto
    then have "sum_list (map length (cs[i := ps])) = sum_list (map length cs) + length ps - length (cs ! i)"
      using i len by (simp add: map_update sum_list_update)
    then show ?thesis
      using count rep \<open>length (cs ! i) \<le> sum_list (map length cs)\<close> by (auto simp: table_rep_def)
  qed
  ultimately show ?thesis
    using rep same len by (simp add: table_rep_def)
qed

text \<open>The sessions without the links of the buckets.\<close>

definition contents :: "server \<Rightarrow> sid \<Rightarrow> session option" where
  "contents srv p = map_option (\<lambda>s. s\<lparr>s_next := None\<rparr>) (srv_mem srv p)"

lemma table_rep_fresh:
  assumes "table_rep srv cs" "srv_fresh srv \<le> p"
  shows "srv_mem srv p = None" and "j < ss_capacity srv \<Longrightarrow> p \<notin> set (cs ! j)"
proof -
  have out: "p \<notin> set (cs ! j)" if "j < ss_capacity srv" for j
  proof
    assume "p \<in> set (cs ! j)"
    moreover have "bucket_rep srv j (ss_table srv ! j) (cs ! j)"
      using assms(1) that by (simp add: table_rep_def)
    ultimately have "p < srv_fresh srv"
      by (elim bucket_rep_memberD)
    with assms(2) show False by simp
  qed
  then show "j < ss_capacity srv \<Longrightarrow> p \<notin> set (cs ! j)" .
  show "srv_mem srv p = None"
    using assms(1) out table_rep_bucket(1) [OF assms(1)] by (metis not_Some_eq table_rep_def)
qed

lemma bucket_insert:
  assumes b: "bucket_rep srv i h ps" and i: "bucket_of srv a = i" and len: "length (sa_addr a) = 16"
    and none: "find (matches srv a) ps = None"
    and cap: "ss_capacity srv' = ss_capacity srv" and fresh: "srv_fresh srv \<le> f" "f < srv_fresh srv'"
    and old: "\<And>p. p \<in> set ps \<Longrightarrow> contents srv' p = contents srv p"
    and nxt: "chain (next_of srv') h' (ps @ [f])"
    and mem: "srv_mem srv' f = Some n" "s_addr n = a"
  shows "bucket_rep srv' i h' (ps @ [f])"
proof -
  have lt: "p < srv_fresh srv" if "p \<in> set ps" for p
    using b that by (elim bucket_rep_memberD)
  have addr: "\<exists>s. srv_mem srv p = Some s \<and> s_addr s = s_addr s'" if pm: "p \<in> set ps" "srv_mem srv' p = Some s'" for p s'
  proof -
    obtain s where s: "srv_mem srv p = Some s"
      using b pm(1) by (elim bucket_rep_memberD)
    with pm old [OF pm(1)] have "s'\<lparr>s_next := None\<rparr> = s\<lparr>s_next := None\<rparr>"
      by (simp add: contents_def)
    then have "s_addr (s'\<lparr>s_next := None\<rparr>) = s_addr (s\<lparr>s_next := None\<rparr>)"
      by (rule arg_cong)
    with s show ?thesis by simp
  qed
  have mem_in: "in_bucket srv' i p" if pm: "p \<in> set ps" for p
  proof -
    obtain s where s: "srv_mem srv p = Some s" "bucket_of srv (s_addr s) = i" "length (sa_addr (s_addr s)) = 16"
      using b pm by (elim bucket_rep_memberD)
    with old [OF pm] obtain s' where s': "srv_mem srv' p = Some s'"
      by (auto simp: contents_def)
    with addr [OF pm s'] s lt [OF pm] fresh show ?thesis
      using bucket_of_capacity [OF cap] by (auto simp: in_bucket_def)
  qed
  have apart: "\<not> addr_match (s_addr s) a \<and> \<not> addr_match a (s_addr s)" if pm: "p \<in> set ps" "srv_mem srv' p = Some s" for p s
  proof -
    obtain s0 where s0: "srv_mem srv p = Some s0" "s_addr s0 = s_addr s"
      using addr [OF pm] by auto
    have "\<not> matches srv a p"
      using none pm(1) by (auto simp: find_None_iff)
    then have no: "\<not> addr_match (s_addr s) a"
      using s0 by (simp add: matches_def)
    have "length (sa_addr (s_addr s)) = 16"
      using mem_in [OF pm(1)] pm(2) by (auto simp: in_bucket_def)
    then show ?thesis
      using no addr_match_sym [OF _ len] by auto
  qed
  have "\<not> addr_match (s_addr s) (s_addr t)"
    if pq: "p \<in> set (ps @ [f])" "q \<in> set (ps @ [f])" "p \<noteq> q" "srv_mem srv' p = Some s" "srv_mem srv' q = Some t" for p q s t
  proof -
    consider "p \<in> set ps" "q \<in> set ps" | "p \<in> set ps" "q = f" | "p = f" "q \<in> set ps"
      using pq(1-3) by auto
    then show ?thesis
    proof cases
      case 1
      obtain s0 where "srv_mem srv p = Some s0" "s_addr s0 = s_addr s"
        using addr [OF 1(1) pq(4)] by auto
      moreover obtain t0 where "srv_mem srv q = Some t0" "s_addr t0 = s_addr t"
        using addr [OF 1(2) pq(5)] by auto
      ultimately show ?thesis
        using bucket_rep_no_match [OF b 1 pq(3)] by metis
    next
      case 2
      then show ?thesis using apart [OF _ pq(4)] pq(5) mem by auto
    next
      case 3
      then show ?thesis using apart [OF _ pq(5)] pq(4) mem by auto
    qed
  qed
  moreover have "distinct (ps @ [f])"
    using b lt [of f] fresh by (auto simp: bucket_rep_def)
  moreover have "in_bucket srv' i f"
    using mem i len fresh bucket_of_capacity [OF cap] by (simp add: in_bucket_def)
  ultimately show ?thesis
    using nxt mem_in unfolding bucket_rep_def by auto
qed

lemma session_get_found:
  assumes "table_rep srv cs" "length (sa_addr a) = 16"
    and "bucket_lookup srv a (cs ! bucket_of srv a) = Some p"
  shows "sas_server_session_get srv a = Ok (Some p, srv)"
  using table_rep_lookup(1) [OF assms(1,2)] assms(3) by (simp add: sas_server_session_get_def Let_def)

lemma session_get_no_memory:
  assumes "table_rep srv cs" "length (sa_addr a) = 16"
    and "bucket_lookup srv a (cs ! bucket_of srv a) = None" "\<not> srv_malloc_ok srv (srv_fresh srv)"
  shows "sas_server_session_get srv a = Ok (None, srv\<lparr>srv_fresh := srv_fresh srv + 1\<rparr>)"
  using table_rep_lookup(1) [OF assms(1,2)] assms(3,4) by (simp add: sas_server_session_get_def Let_def)

text \<open>What a successful creation leaves.\<close>

definition link_session :: "nat \<Rightarrow> sid list \<Rightarrow> session \<Rightarrow> server \<Rightarrow> server" where
  "link_session i ps n srv =
     (let f = srv_fresh srv;
          mem = (srv_mem srv)(f \<mapsto> n)
      in srv\<lparr>srv_fresh := f + 1,
            srv_mem := (if ps = [] then mem
                        else mem(last ps := map_option (\<lambda>s. s\<lparr>s_next := Some f\<rparr>) (mem (last ps)))),
            ss_table := (if ps = [] then (ss_table srv)[i := Some f] else ss_table srv),
            ss_count := ss_count srv + 1\<rparr>)"

lemma session_get_new:
  assumes rep: "table_rep srv cs" and len: "length (sa_addr a) = 16"
    and none: "bucket_lookup srv a (cs ! bucket_of srv a) = None" and ok: "srv_malloc_ok srv (srv_fresh srv)"
  shows "sas_server_session_get srv a = Ok (Some (srv_fresh srv),
    link_session (bucket_of srv a) (cs ! bucket_of srv a) (new_session (srv_junk srv) a) srv)"
proof (cases "cs ! bucket_of srv a = []")
  case True
  then show ?thesis
    using table_rep_lookup(1) [OF rep len] none ok
    by (simp add: sas_server_session_get_def Let_def link_session_def set_session_def)
next
  case False
  let ?ps = "cs ! bucket_of srv a"
  have "last ?ps \<in> set ?ps"
    using False by simp
  then obtain s where s: "srv_mem srv (last ?ps) = Some s" "last ?ps < srv_fresh srv"
    using table_rep_bucket(2) [OF rep, of a] by (elim bucket_rep_memberD)
  then show ?thesis
    using table_rep_lookup(1) [OF rep len] none ok False
    by (simp add: sas_server_session_get_def Let_def link_session_def set_session_def
        update_session_def session_at_def)
qed

lemma contents_link_session:
  assumes "table_rep srv cs" "i < ss_capacity srv" "s_next n = None"
  shows "contents (link_session i (cs ! i) n srv) = (contents srv)(srv_fresh srv \<mapsto> n)"
proof (cases "cs ! i = []")
  case False
  then have "last (cs ! i) \<noteq> srv_fresh srv"
    using table_rep_fresh(2) [OF assms(1) order_refl assms(2)] by (metis last_in_set)
  with False assms(3) show ?thesis
    by (auto simp: contents_def link_session_def Let_def fun_eq_iff option.map_comp comp_def)
qed (use assms(3) in \<open>auto simp: contents_def link_session_def Let_def fun_eq_iff\<close>)

lemma table_rep_link:
  assumes rep: "table_rep srv cs" and len: "length (sa_addr a) = 16" and i: "i = bucket_of srv a"
    and none: "bucket_lookup srv a (cs ! i) = None" and n: "s_addr n = a" "s_next n = None"
  shows "table_rep (link_session i (cs ! i) n srv) (cs[i := cs ! i @ [srv_fresh srv]])"
proof -
  let ?ps = "cs ! i" and ?f = "srv_fresh srv" and ?srv = "link_session i (cs ! i) n srv"
  have il: "i < ss_capacity srv" and b: "bucket_rep srv i (ss_table srv ! i) ?ps"
    using table_rep_bucket [OF rep] i by auto
  have f: "srv_mem srv ?f = None" "?f \<notin> set ?ps"
    using table_rep_fresh [OF rep order_refl] il by auto
  have lf: "last ?ps \<noteq> ?f" if "?ps \<noteq> []"
    using f(2) that by (metis last_in_set)
  define h where "h = (if ?ps = [] then Some ?f else ss_table srv ! i)"
  have lin: "i < length (ss_table srv)"
    using rep il by (simp add: table_rep_def)
  have nxt: "chain (next_of ?srv) h (?ps @ [?f])"
  proof (cases "?ps = []")
    case True
    then show ?thesis using n by (simp add: h_def next_of_def link_session_def Let_def)
  next
    case False
    then obtain s where s: "srv_mem srv (last ?ps) = Some s"
      using b bucket_rep_memberD last_in_set by metis
    have "next_of ?srv = (next_of srv)(?f := Some None, last ?ps := Some (Some ?f))"
      using False n s lf by (auto simp: next_of_def link_session_def Let_def fun_eq_iff)
    moreover have "chain (next_of srv) h ?ps" "distinct ?ps"
      using b False by (simp_all add: bucket_rep_def h_def)
    ultimately show ?thesis
      using chain_snoc [of "next_of srv" h ?ps ?f] False f(2) by simp
  qed
  have find: "find (matches srv a) ?ps = None"
    using bucket_find [OF b len] none by simp
  have mem: "srv_mem ?srv ?f = Some n"
    using lf by (auto simp: link_session_def Let_def)
  have simps: "ss_capacity ?srv = ss_capacity srv" "?f < srv_fresh ?srv" "srv_fresh srv \<le> srv_fresh ?srv"
    "ss_count ?srv = ss_count srv + int (length (?ps @ [?f])) - int (length ?ps)"
    "ss_table ?srv = (ss_table srv)[i := h]"
    using lin by (simp_all add: link_session_def Let_def h_def)
  show ?thesis
  proof (rule table_rep_update_bucket [OF rep il simps(1,5,3)])
    have "contents ?srv p = contents srv p" if "p \<in> set ?ps" for p
      using contents_link_session [OF rep il n(2)] that f(2) by auto
    then show "bucket_rep ?srv i h (?ps @ [?f])"
      using bucket_insert [OF b i [symmetric] len find simps(1) order_refl simps(2) _ nxt mem n(1)] by blast
    show "srv_mem ?srv p = srv_mem srv p" if "p \<notin> set ?ps" "p \<notin> set (?ps @ [?f])" for p
      using that last_in_set [of ?ps] by (auto simp: link_session_def Let_def)
  qed (use simps(4) in auto)
qed

text \<open>Closing a descriptor leaves everything but the descriptors and the error number.\<close>

lemma os_close_frame: "\<exists>fds e. os_close fd srv = srv\<lparr>os_fds := fds, os_errno := e\<rparr>"
proof (cases "fd_open fd srv")
  case None
  have "os_close fd srv = srv\<lparr>os_fds := os_fds srv, os_errno := EBADF\<rparr>"
    by (simp add: os_close_def None)
  then show ?thesis by blast
next
  case (Some f)
  have "os_close fd srv = srv\<lparr>os_fds := (os_fds srv)[nat fd := None], os_errno := os_errno srv\<rparr>"
    by (simp add: os_close_def Some)
  then show ?thesis by blast
qed

lemma close_session_frame: "\<exists>fds e. close_session s srv = srv\<lparr>os_fds := fds, os_errno := e\<rparr>"
proof -
  have same: "\<exists>fds e. srv = srv\<lparr>os_fds := fds, os_errno := e\<rparr>" for srv :: server
  proof -
    have "srv = srv\<lparr>os_fds := os_fds srv, os_errno := os_errno srv\<rparr>"
      by simp
    then show ?thesis by blast
  qed
  have d: "\<exists>fds e. rxc_pipeline_dealloc pl srv = srv\<lparr>os_fds := fds, os_errno := e\<rparr>" for pl
    using os_close_frame [of "ws_fd pl" srv] same [of srv]
    by (cases "0 \<le> ws_fd pl")
      (simp_all add: rxc_pipeline_dealloc_def wav_dealloc_def wav_close_def pipe_with_def)
  have "\<exists>fds e. (case s_pipeline s of None \<Rightarrow> srv | Some pl \<Rightarrow> rxc_pipeline_dealloc pl srv) =
      srv\<lparr>os_fds := fds, os_errno := e\<rparr>"
    using same [of srv] d by (cases "s_pipeline s") simp_all
  then obtain fds e where "(case s_pipeline s of None \<Rightarrow> srv | Some pl \<Rightarrow> rxc_pipeline_dealloc pl srv) =
      srv\<lparr>os_fds := fds, os_errno := e\<rparr>"
    by blast
  moreover obtain fds' e' where "os_close (s_fd s) (srv\<lparr>os_fds := fds, os_errno := e\<rparr>) =
      srv\<lparr>os_fds := fds, os_errno := e\<rparr>\<lparr>os_fds := fds', os_errno := e'\<rparr>"
    using os_close_frame by blast
  ultimately show ?thesis
    by (auto simp: close_session_def Let_def)
qed

lemma close_session_simps [simp]:
  "ss_table (close_session s srv) = ss_table srv" "ss_capacity (close_session s srv) = ss_capacity srv"
  "ss_count (close_session s srv) = ss_count srv" "srv_mem (close_session s srv) = srv_mem srv"
  "srv_fresh (close_session s srv) = srv_fresh srv" "th_heap (close_session s srv) = th_heap srv"
  "th_count (close_session s srv) = th_count srv" "th_capacity (close_session s srv) = th_capacity srv"
  "srv_malloc_ok (close_session s srv) = srv_malloc_ok srv" "os_sent (close_session s srv) = os_sent srv"
  "os_sends (close_session s srv) = os_sends srv" "os_ticks (close_session s srv) = os_ticks srv"
  "os_clock (close_session s srv) = os_clock srv" "srv_junk (close_session s srv) = srv_junk srv"
  "os_send_error (close_session s srv) = os_send_error srv" "os_files (close_session s srv) = os_files srv"
  "srv_fd (close_session s srv) = srv_fd srv" "srv_stack (close_session s srv) = srv_stack srv"
  using close_session_frame [of s srv] by auto

text \<open>The descriptors that it closes: the session's own, and that of its pipeline.\<close>

lemma pipeline_dealloc_fds:
  "fd_open fd (rxc_pipeline_dealloc pl srv) = (if fd = ws_fd pl then None else fd_open fd srv)"
proof (cases "0 \<le> ws_fd pl")
  case False
  then show ?thesis
    by (auto simp: rxc_pipeline_dealloc_def wav_dealloc_def pipe_with_def fd_open_def)
qed (simp add: rxc_pipeline_dealloc_def wav_dealloc_def wav_close_def pipe_with_def fd_open_closed)

definition closed_with :: "session \<Rightarrow> int set" where
  "closed_with s = insert (s_fd s) (case s_pipeline s of None \<Rightarrow> {} | Some pl \<Rightarrow> {ws_fd pl})"

lemma close_session_fds: "fd_open fd (close_session s srv) = (if fd \<in> closed_with s then None else fd_open fd srv)"
proof -
  let ?srv1 = "case s_pipeline s of None \<Rightarrow> srv | Some pl \<Rightarrow> rxc_pipeline_dealloc pl srv"
  have one: "fd_open fd ?srv1 = (if fd \<in> closed_with s - {s_fd s} then None else fd_open fd srv)" if "fd \<noteq> s_fd s"
    using that by (simp add: closed_with_def pipeline_dealloc_fds split: option.split)
  show ?thesis
  proof (cases "0 \<le> s_fd s")
    case True
    then show ?thesis
      using one by (simp add: close_session_def Let_def fd_open_closed) (simp add: closed_with_def)
  next
    case False
    then have "fd_open fd srv = None" if "fd = s_fd s" for srv :: server
      using that by (simp add: fd_open_def)
    then show ?thesis
      using False one by (cases "fd = s_fd s") (simp_all add: close_session_def Let_def)
  qed
qed

text \<open>What a deletion leaves.\<close>

definition unlink_session :: "nat \<Rightarrow> sid list \<Rightarrow> sid option \<Rightarrow> server \<Rightarrow> server" where
  "unlink_session i xs q srv =
     (if xs = [] then srv\<lparr>ss_table := (ss_table srv)[i := q]\<rparr>
      else srv\<lparr>srv_mem := (srv_mem srv)(last xs := map_option (\<lambda>t. t\<lparr>s_next := q\<rparr>) (srv_mem srv (last xs)))\<rparr>)"

definition drop_session :: "nat \<Rightarrow> sid list \<Rightarrow> sid \<Rightarrow> session \<Rightarrow> server \<Rightarrow> server" where
  "drop_session i xs p s srv =
     (let srv2 = close_session s (unlink_session i xs (s_next s) srv)
      in srv2\<lparr>srv_mem := (srv_mem srv2)(p := None), ss_count := ss_count srv2 - 1\<rparr>)"

lemma delete_loop_chain:
  assumes b: "bucket_rep srv i h (us @ vs)" and p: "p \<in> set vs" "srv_mem srv p = Some s"
    and c: "chain (next_of srv) cur vs" and k: "length vs < k"
  shows "delete_loop k i p (if us = [] then None else Some (last us)) cur srv =
    Ok (drop_session i (us @ takeWhile (\<lambda>q. q \<noteq> p) vs) p s srv)"
  using assms
proof (induction vs arbitrary: us cur k)
  case Nil
  then show ?case by simp
next
  case (Cons v vs)
  obtain j where j: "k = Suc j" using Cons.prems by (cases k) auto
  have v: "cur = Some v"
    using Cons.prems by auto
  obtain q where "next_of srv v = Some q" "chain (next_of srv) q vs"
    using Cons.prems by auto
  then obtain t where t: "srv_mem srv v = Some t" "chain (next_of srv) (s_next t) vs"
    by (auto simp: next_of_def [of srv v])
  show ?case
  proof (cases "v = p")
    case True
    with t p have st: "t = s" by simp
    have "v \<notin> set us"
      using Cons.prems(1) by (simp add: bucket_rep_def)
    then have ne: "last us \<noteq> p" if "us \<noteq> []"
      using that True last_in_set by metis
    have u: "srv_mem srv (last us) \<noteq> None" if "us \<noteq> []"
      using Cons.prems(1) that bucket_rep_memberD [of srv i h "us @ v # vs" "last us"] by auto
    show ?thesis
      using True st t u ne p
      by (auto simp: j v session_at_def drop_session_def unlink_session_def Let_def
          session_release_def update_session_def set_session_def)
  next
    case False
    have "\<not> addr_match (s_addr t) (s_addr s)"
      using Cons.prems(1,2) False t(1) p
      by (intro bucket_rep_no_match [of srv i h "us @ v # vs" v p]) auto
    moreover have "delete_loop j i p (if us @ [v] = [] then None else Some (last (us @ [v]))) (s_next t) srv =
        Ok (drop_session i ((us @ [v]) @ takeWhile (\<lambda>q. q \<noteq> p) vs) p s srv)"
      using Cons.prems False t j by (intro Cons.IH) auto
    ultimately show ?thesis
      using False t p by (simp add: j v session_at_def addr_match_def)
  qed
qed

lemma session_delete_live:
  assumes rep: "table_rep srv cs" and p: "srv_mem srv p = Some s"
  shows "sas_server_session_delete srv p = Ok (drop_session (bucket_of srv (s_addr s))
    (takeWhile (\<lambda>q. q \<noteq> p) (cs ! bucket_of srv (s_addr s))) p s srv)"
proof -
  let ?i = "bucket_of srv (s_addr s)"
  have b: "bucket_rep srv ?i (ss_table srv ! ?i) (cs ! ?i)"
    using table_rep_bucket [OF rep] by auto
  then have "chain (next_of srv) (ss_table srv ! ?i) (cs ! ?i)" "length (cs ! ?i) < srv_fresh srv + 1"
    using bucket_length [OF b] by (simp_all add: bucket_rep_def)
  moreover have "p \<in> set (cs ! ?i)"
    using rep p by (simp add: table_rep_def)
  ultimately show ?thesis
    using delete_loop_chain [of srv ?i _ "[]" "cs ! ?i" p s] b p
    by (simp add: sas_server_session_delete_def session_at_def Let_def del: delete_loop.simps)
qed

lemma contents_SomeD:
  assumes "contents srv p = Some s"
  shows "\<exists>t. srv_mem srv p = Some t \<and> s = t\<lparr>s_next := None\<rparr> \<and> s_addr t = s_addr s"
proof -
  obtain t where t: "srv_mem srv p = Some t" "t\<lparr>s_next := None\<rparr> = s"
    using assms unfolding contents_def map_option_eq_Some by blast
  then have "s_addr t = s_addr s"
    by (auto simp flip: t(2))
  with t show ?thesis by blast
qed

lemma contents_addr:
  assumes "contents srv' p = contents srv p" "srv_mem srv' p = Some s'"
  shows "\<exists>s. srv_mem srv p = Some s \<and> s_addr s = s_addr s'"
proof -
  have "contents srv p = Some (s'\<lparr>s_next := None\<rparr>)"
    using assms by (simp add: contents_def)
  from contents_SomeD [OF this] show ?thesis by auto
qed

lemma bucket_shrink:
  assumes b: "bucket_rep srv i h ps" and qs: "set qs \<subseteq> set ps" "distinct qs"
    and cap: "ss_capacity srv' = ss_capacity srv" "srv_fresh srv' = srv_fresh srv"
    and old: "\<And>p. p \<in> set qs \<Longrightarrow> contents srv' p = contents srv p"
    and nxt: "chain (next_of srv') h' qs"
  shows "bucket_rep srv' i h' qs"
proof -
  have "in_bucket srv' i p" if pq: "p \<in> set qs" for p
  proof -
    have pp: "p \<in> set ps"
      using pq qs by auto
    obtain s where s: "p < srv_fresh srv" "srv_mem srv p = Some s" "bucket_of srv (s_addr s) = i"
      "length (sa_addr (s_addr s)) = 16"
      using b pp by (elim bucket_rep_memberD)
    with old [OF pq] obtain s' where s': "srv_mem srv' p = Some s'"
      by (auto simp: contents_def)
    then show ?thesis
      using contents_addr [OF old [OF pq] s'] s cap bucket_of_capacity [OF cap(1)] by (auto simp: in_bucket_def)
  qed
  moreover have "\<not> addr_match (s_addr s) (s_addr t)"
    if pq: "p \<in> set qs" "q \<in> set qs" "p \<noteq> q" "srv_mem srv' p = Some s" "srv_mem srv' q = Some t" for p q s t
  proof -
    obtain s0 where s0: "srv_mem srv p = Some s0" "s_addr s0 = s_addr s"
      using contents_addr [OF old [OF pq(1)] pq(4)] by auto
    obtain t0 where t0: "srv_mem srv q = Some t0" "s_addr t0 = s_addr t"
      using contents_addr [OF old [OF pq(2)] pq(5)] by auto
    have "p \<in> set ps" "q \<in> set ps"
      using pq(1,2) qs by auto
    then show ?thesis
      using bucket_rep_no_match [OF b _ _ pq(3) s0(1) t0(1)] s0(2) t0(2) by simp
  qed
  ultimately show ?thesis
    using nxt qs(2) unfolding bucket_rep_def by auto
qed

lemma drop_session_simps [simp]:
  "ss_capacity (drop_session i xs p s srv) = ss_capacity srv"
  "srv_fresh (drop_session i xs p s srv) = srv_fresh srv"
  "ss_count (drop_session i xs p s srv) = ss_count srv - 1"
  "srv_mem (drop_session i xs p s srv) = (srv_mem (unlink_session i xs (s_next s) srv))(p := None)"
  "ss_table (drop_session i xs p s srv) = ss_table (unlink_session i xs (s_next s) srv)"
  "th_heap (drop_session i xs p s srv) = th_heap srv" "th_count (drop_session i xs p s srv) = th_count srv"
  "th_capacity (drop_session i xs p s srv) = th_capacity srv"
  "os_sent (drop_session i xs p s srv) = os_sent srv" "os_ticks (drop_session i xs p s srv) = os_ticks srv"
  "os_clock (drop_session i xs p s srv) = os_clock srv"
  by (simp_all add: drop_session_def unlink_session_def Let_def)

lemma drop_session_fds:
  "fd_open fd (drop_session i xs p s srv) = (if fd \<in> closed_with s then None else fd_open fd srv)"
proof -
  have "fd_open fd (drop_session i xs p s srv) = fd_open fd (close_session s (unlink_session i xs (s_next s) srv))"
    by (simp add: drop_session_def Let_def fd_open_def)
  moreover have "fd_open fd (unlink_session i xs (s_next s) srv) = fd_open fd srv"
    by (auto simp: unlink_session_def fd_open_def)
  ultimately show ?thesis
    by (simp add: close_session_fds)
qed

lemma contents_drop_session:
  "contents (drop_session i xs p s srv) = (contents srv)(p := None)"
  by (auto simp: contents_def unlink_session_def fun_eq_iff option.map_comp comp_def)

lemma remove1_split: "p \<notin> set xs \<Longrightarrow> remove1 p (xs @ p # ys) = xs @ ys"
  by (simp add: remove1_append)

lemma table_rep_drop:
  assumes rep: "table_rep srv cs" and p: "srv_mem srv p = Some s" and i: "i = bucket_of srv (s_addr s)"
  shows "table_rep (drop_session i (takeWhile (\<lambda>q. q \<noteq> p) (cs ! i)) p s srv) (cs[i := remove1 p (cs ! i)])"
proof -
  let ?ps = "cs ! i" and ?xs = "takeWhile (\<lambda>q. q \<noteq> p) (cs ! i)"
  let ?srv = "drop_session i ?xs p s srv"
  have il: "i < ss_capacity srv" and b: "bucket_rep srv i (ss_table srv ! i) ?ps"
    using table_rep_bucket [OF rep] i by auto
  have pin: "p \<in> set ?ps"
    using rep p i by (simp add: table_rep_def)
  then obtain zs ys where zs: "?ps = zs @ p # ys" "p \<notin> set zs"
    by (meson split_list_first)
  have "?xs = zs"
    unfolding zs(1) using zs(2) by (auto simp: takeWhile_tail)
  with zs have ps: "?ps = ?xs @ p # ys"
    by simp
  have dist: "distinct ?ps" and ch: "chain (next_of srv) (ss_table srv ! i) ?ps"
    using b by (simp_all add: bucket_rep_def)
  have xs: "p \<notin> set ?xs" "p \<notin> set ys" "distinct (?xs @ ys)" "set ?xs \<inter> set ys = {}"
  proof -
    have "distinct (?xs @ p # ys)"
      unfolding ps [symmetric] by (rule dist)
    then show "p \<notin> set ?xs" "p \<notin> set ys" "distinct (?xs @ ys)" "set ?xs \<inter> set ys = {}"
      by (auto dest: set_takeWhileD)
  qed
  have rem: "remove1 p ?ps = ?xs @ ys"
    using remove1_split [OF xs(1), of ys] unfolding ps [symmetric] .
  have nx: "next_of srv p = Some (s_next s)"
    using p by (simp add: next_of_def)
  have tail: "chain (next_of srv) (s_next s) ys"
    using chain_suffix [of "next_of srv" "ss_table srv ! i" ?xs p ys] ch nx
    unfolding ps [symmetric] by auto
  define h where "h = (if ?xs = [] then s_next s else ss_table srv ! i)"
  have lin: "i < length (ss_table srv)"
    using rep il by (simp add: table_rep_def)
  have table: "ss_table ?srv = (ss_table srv)[i := h]"
    using lin by (simp add: unlink_session_def h_def)
  have nxt: "chain (next_of ?srv) h (?xs @ ys)"
  proof (cases "?xs = []")
    case True
    then have "chain (next_of ?srv) (s_next s) ys \<longleftrightarrow> chain (next_of srv) (s_next s) ys"
      using xs by (intro chain_cong) (auto simp: next_of_def unlink_session_def)
    with tail True show ?thesis by (simp add: h_def)
  next
    case False
    then obtain us a where us: "?xs = us @ [a]"
      by (metis rev_exhaust)
    have "chain ((next_of srv)(a := Some (s_next s))) (ss_table srv ! i) (us @ a # ys)"
    proof (rule chain_unlink [where b = p])
      have eq: "us @ a # p # ys = ?ps"
        using ps us by (metis append_assoc append_Cons append_Nil)
      show "chain (next_of srv) (ss_table srv ! i) (us @ a # p # ys)" "distinct (us @ a # p # ys)"
        unfolding eq by (fact ch, fact dist)
    qed (rule nx)
    moreover have "a \<in> set ?ps"
      using ps us by (metis in_set_conv_decomp append_assoc append_Cons)
    then obtain t where "srv_mem srv a = Some t"
      using b by (elim bucket_rep_memberD)
    then have "next_of ?srv q = ((next_of srv)(a := Some (s_next s))) q" if "q \<in> set (us @ a # ys)" for q
      using that False xs us by (auto simp: next_of_def unlink_session_def)
    then have "chain (next_of ?srv) (ss_table srv ! i) (us @ a # ys) \<longleftrightarrow>
        chain ((next_of srv)(a := Some (s_next s))) (ss_table srv ! i) (us @ a # ys)"
      by (rule chain_cong)
    ultimately show ?thesis
      using False us by (simp add: h_def)
  qed
  have set_rem: "set (?xs @ ys) = set ?ps - {p}"
    using xs(1,2) arg_cong [OF ps, of set] by auto
  have len: "length ?ps = length (?xs @ ys) + 1"
    using arg_cong [OF ps, of length] by simp
  show ?thesis
    unfolding rem
  proof (rule table_rep_update_bucket [OF rep il _ table])
    show "bucket_rep ?srv i h (?xs @ ys)"
    proof (rule bucket_shrink [OF b _ xs(3) _ _ _ nxt])
      show "set (?xs @ ys) \<subseteq> set ?ps"
        using set_rem by blast
      show "contents ?srv q = contents srv q" if "q \<in> set (?xs @ ys)" for q
        using that xs(1,2) by (auto simp: contents_drop_session)
    qed simp_all
    show "srv_mem ?srv q = srv_mem srv q" if "q \<notin> set ?ps" "q \<notin> set (?xs @ ys)" for q
      using that pin last_in_set [of ?xs] by (auto simp: unlink_session_def)
    show "srv_mem ?srv q = None" if "q \<in> set ?ps" "q \<notin> set (?xs @ ys)" for q
    proof -
      have "q = p"
        using that set_rem by blast
      then show ?thesis by simp
    qed
  qed (use set_rem len in auto)
qed

section \<open>The contract of the table\<close>

text \<open>
  What the rest of the server relies on: which session an address is given,
  what creating and deleting one does to the other sessions, and that neither
  goes wrong on a table in order.
\<close>

locale session_store =
  fixes ok :: "'s \<Rightarrow> bool" and valid :: "'a \<Rightarrow> bool" and lookup :: "'s \<Rightarrow> 'a \<Rightarrow> 'k option"
    and content :: "'s \<Rightarrow> 'k \<Rightarrow> 'v option" and fresh :: "'s \<Rightarrow> 'a \<Rightarrow> 'v"
    and get :: "'s \<Rightarrow> 'a \<Rightarrow> ('k option \<times> 's) res" and del :: "'s \<Rightarrow> 'k \<Rightarrow> 's res"
  assumes lookup_live: "ok s \<Longrightarrow> valid a \<Longrightarrow> lookup s a = Some k \<Longrightarrow> content s k \<noteq> None"
    and get_found: "ok s \<Longrightarrow> valid a \<Longrightarrow> lookup s a = Some k \<Longrightarrow> get s a = Ok (Some k, s)"
    and get_new: "ok s \<Longrightarrow> valid a \<Longrightarrow> lookup s a = None \<Longrightarrow>
      (\<exists>s'. get s a = Ok (None, s') \<and> ok s' \<and> content s' = content s) \<or>
      (\<exists>k s'. get s a = Ok (Some k, s') \<and> ok s' \<and> content s k = None \<and>
        content s' = (content s)(k \<mapsto> fresh s a) \<and> lookup s' a = Some k)"
    and del_live: "ok s \<Longrightarrow> content s k \<noteq> None \<Longrightarrow>
      \<exists>s'. del s k = Ok s' \<and> ok s' \<and> content s' = (content s)(k := None)"
begin

lemma get_total: "ok s \<Longrightarrow> valid a \<Longrightarrow> \<exists>r s'. get s a = Ok (r, s') \<and> ok s'"
  using get_found [of s a] get_new [of s a] by (cases "lookup s a") auto

lemma get_again: "ok s \<Longrightarrow> valid a \<Longrightarrow> get s a = Ok (Some k, s') \<Longrightarrow> get s' a = Ok (Some k, s')"
  using get_found [of s a] get_found [of s' a] get_new [of s a] by (cases "lookup s a") auto

lemma get_live: "ok s \<Longrightarrow> valid a \<Longrightarrow> get s a = Ok (Some k, s') \<Longrightarrow> content s' k \<noteq> None"
  using get_found [of s a] get_new [of s a] lookup_live [of s a] by (cases "lookup s a") auto

lemma get_others:
  "ok s \<Longrightarrow> valid a \<Longrightarrow> get s a = Ok (r, s') \<Longrightarrow> content s j = Some v \<Longrightarrow> content s' j = Some v"
  using get_found [of s a] get_new [of s a] by (cases "lookup s a") auto

lemma deleted_not_found:
  "ok s \<Longrightarrow> content s k \<noteq> None \<Longrightarrow> del s k = Ok s' \<Longrightarrow> valid a \<Longrightarrow> lookup s' a \<noteq> Some k"
  using del_live [of s k] lookup_live [of s' a k] by auto

end

definition table_ok :: "server \<Rightarrow> bool" where
  "table_ok srv \<longleftrightarrow> (\<exists>cs. table_rep srv cs)"

definition addr_ok :: "sockaddr6 \<Rightarrow> bool" where
  "addr_ok a \<longleftrightarrow> length (sa_addr a) = 16"

definition session_lookup :: "server \<Rightarrow> sockaddr6 \<Rightarrow> sid option" where
  "session_lookup srv a = (case sas_server_session_find srv a of Ok r \<Rightarrow> r | Fault e \<Rightarrow> None)"

lemma session_find_total:
  "table_rep srv cs \<Longrightarrow> addr_ok a \<Longrightarrow>
    sas_server_session_find srv a = Ok (bucket_lookup srv a (cs ! bucket_of srv a))"
  using table_rep_lookup(2) by (simp add: sas_server_session_find_def addr_ok_def del: find_loop.simps)

lemma session_lookup_bucket:
  "table_rep srv cs \<Longrightarrow> addr_ok a \<Longrightarrow> session_lookup srv a = bucket_lookup srv a (cs ! bucket_of srv a)"
  by (simp add: session_lookup_def session_find_total)

lemma table_rep_alloc: "table_rep (sas_server_alloc env m j st) (replicate 32 [])"
  by (simp add: table_rep_def bucket_rep_def)

lemma table_rep_fresh_up: "table_rep srv cs \<Longrightarrow> table_rep (srv\<lparr>srv_fresh := srv_fresh srv + 1\<rparr>) cs"
proof -
  assume rep: "table_rep srv cs"
  have "bucket_rep (srv\<lparr>srv_fresh := srv_fresh srv + 1\<rparr>) i (ss_table srv ! i) (cs ! i)" if "i < ss_capacity srv" for i
  proof (rule bucket_rep_frame)
    show "bucket_rep srv i (ss_table srv ! i) (cs ! i)"
      using rep that by (simp add: table_rep_def)
  qed simp_all
  moreover have "bucket_of (srv\<lparr>srv_fresh := srv_fresh srv + 1\<rparr>) = bucket_of srv"
    by (rule bucket_of_capacity) simp
  ultimately show ?thesis
    using rep by (simp add: table_rep_def)
qed

lemma bucket_lookup_in: "bucket_lookup srv a ps = Some p \<Longrightarrow> p \<in> set ps"
  by (auto simp: bucket_lookup_def find_Some_iff split: list.splits if_splits)

lemma session_lookup_linked:
  assumes rep: "table_rep srv cs" and a: "addr_ok a" and none: "session_lookup srv a = None"
  shows "session_lookup (link_session (bucket_of srv a) (cs ! bucket_of srv a)
    (new_session (srv_junk srv) a) srv) a = Some (srv_fresh srv)"
proof -
  let ?i = "bucket_of srv a"
  let ?srv = "link_session ?i (cs ! ?i) (new_session (srv_junk srv) a) srv"
  have il: "?i < ss_capacity srv" "?i < length cs"
    using table_rep_bucket(1) [OF rep, of a] rep by (simp_all add: table_rep_def)
  have no: "bucket_lookup srv a (cs ! ?i) = None"
    using none session_lookup_bucket [OF rep a] by simp
  have rep': "table_rep ?srv (cs[?i := cs ! ?i @ [srv_fresh srv]])"
    using table_rep_link [OF rep _ refl no] a by (simp add: addr_ok_def new_session_def)
  have "bucket_of ?srv a = ?i"
    by (simp add: bucket_of_def link_session_def Let_def)
  then have find: "session_lookup ?srv a = find (matches ?srv a) (cs ! ?i @ [srv_fresh srv])"
    using session_lookup_bucket [OF rep' a] bucket_find [OF table_rep_bucket(2) [OF rep', of a]] a il
    by (simp add: addr_ok_def)
  have c: "contents ?srv = (contents srv)(srv_fresh srv \<mapsto> new_session (srv_junk srv) a)"
    by (rule contents_link_session [OF rep il(1)]) (simp add: new_session_def)
  have "\<not> matches ?srv a p" if "p \<in> set (cs ! ?i)" for p
  proof -
    have "find (matches srv a) (cs ! ?i) = None"
      using no bucket_find [OF table_rep_bucket(2) [OF rep, of a], of a] a by (simp add: addr_ok_def)
    then have "\<not> matches srv a p"
      using that unfolding find_None_iff by blast
    moreover have "contents ?srv p = contents srv p"
      using c that table_rep_fresh(2) [OF rep order_refl il(1)] by auto
    ultimately show ?thesis
      using contents_addr [of ?srv p srv] by (auto simp: matches_def split: option.splits)
  qed
  moreover have "matches ?srv a (srv_fresh srv)"
  proof -
    have "contents ?srv (srv_fresh srv) = Some (new_session (srv_junk srv) a)"
      using c by simp
    from contents_SomeD [OF this]
    obtain n where "srv_mem ?srv (srv_fresh srv) = Some n" "s_addr n = s_addr (new_session (srv_junk srv) a)"
      by blast
    then have "srv_mem ?srv (srv_fresh srv) = Some n" "s_addr n = a"
      by (simp_all add: new_session_def)
    then show ?thesis
      by (simp add: matches_def addr_match_iff)
  qed
  ultimately show ?thesis
    unfolding find by (simp add: find_snoc find_None_iff)
qed

text \<open>
  The sessions that the code takes for those of an address: of the address's bucket, those of other IP addresses
  (the comparison is the wrong way round), and the one of the same IP address and port.
\<close>

definition taken :: "server \<Rightarrow> sockaddr6 \<Rightarrow> sid \<Rightarrow> bool" where
  "taken srv a p \<longleftrightarrow> (\<exists>s. contents srv p = Some s \<and> bucket_of srv (s_addr s) = bucket_of srv a \<and>
     (sa_addr (s_addr s) \<noteq> sa_addr a \<or> sa_port (s_addr s) = sa_port a))"

lemma taken_matches:
  assumes "table_rep srv cs" "addr_ok a"
  shows "taken srv a p \<longleftrightarrow> p \<in> set (cs ! bucket_of srv a) \<and> matches srv a p"
proof
  assume "taken srv a p"
  then obtain s where s: "srv_mem srv p = Some s" "bucket_of srv (s_addr s) = bucket_of srv a"
    "sa_addr (s_addr s) \<noteq> sa_addr a \<or> sa_port (s_addr s) = sa_port a"
    by (auto simp: taken_def contents_def)
  then have p: "p \<in> set (cs ! bucket_of srv a)"
    using assms(1) unfolding table_rep_def by metis
  then have "length (sa_addr (s_addr s)) = length (sa_addr a)"
    using table_rep_bucket(2) [OF assms(1), of a] s(1) assms(2) by (auto simp: addr_ok_def elim: bucket_rep_memberD)
  then show "p \<in> set (cs ! bucket_of srv a) \<and> matches srv a p"
    using p s by (simp add: matches_def addr_match_iff)
next
  assume p: "p \<in> set (cs ! bucket_of srv a) \<and> matches srv a p"
  then obtain s where s: "srv_mem srv p = Some s" "bucket_of srv (s_addr s) = bucket_of srv a" "length (sa_addr (s_addr s)) = 16"
    using table_rep_bucket(2) [OF assms(1), of a] by (auto elim: bucket_rep_memberD)
  then have "addr_match (s_addr s) a"
    using p by (simp add: matches_def)
  then show "taken srv a p"
    using s assms(2) by (auto simp: taken_def contents_def addr_match_iff addr_ok_def)
qed

lemma session_find_lookup:
  assumes "table_ok srv" "addr_ok a"
  shows "sas_server_session_find srv a = Ok (session_lookup srv a)"
proof -
  obtain cs where "table_rep srv cs"
    using assms(1) by (auto simp: table_ok_def)
  then show ?thesis
    using session_find_total [OF _ assms(2)] session_lookup_bucket [OF _ assms(2)] by simp
qed

lemma lookup_taken:
  assumes ok: "table_ok srv" "addr_ok a"
  shows "session_lookup srv a = Some p \<Longrightarrow> taken srv a p" and "session_lookup srv a = None \<Longrightarrow> \<not> taken srv a p"
proof -
  obtain cs where rep: "table_rep srv cs"
    using ok(1) by (auto simp: table_ok_def)
  let ?ps = "cs ! bucket_of srv a"
  have find: "session_lookup srv a = find (matches srv a) ?ps"
    using session_lookup_bucket [OF rep ok(2)] bucket_find [OF table_rep_bucket(2) [OF rep], of a] ok(2)
    by (simp add: addr_ok_def)
  show "taken srv a p" if "session_lookup srv a = Some p"
  proof -
    have "find (matches srv a) ?ps = Some p"
      using find that by simp
    then have "p \<in> set ?ps \<and> matches srv a p"
      by (auto simp: find_Some_iff)
    then show ?thesis
      by (simp add: taken_matches [OF rep ok(2)])
  qed
  show "\<not> taken srv a p" if "session_lookup srv a = None"
  proof -
    have "find (matches srv a) ?ps = None"
      using find that by simp
    then show ?thesis
      unfolding taken_matches [OF rep ok(2)] find_None_iff by blast
  qed
qed

text \<open>A client that has a session finds it.\<close>

lemma lookup_own:
  assumes ok: "table_ok srv" "addr_ok a" and q: "contents srv q = Some s" "s_addr s = a"
  shows "session_lookup srv a = Some q"
proof -
  obtain cs where rep: "table_rep srv cs"
    using ok(1) by (auto simp: table_ok_def)
  have "taken srv a q"
    using q by (auto simp: taken_def)
  then obtain p where p: "session_lookup srv a = Some p" "taken srv a p"
    using lookup_taken [OF ok] by (cases "session_lookup srv a") auto
  have in_bucket: "p \<in> set (cs ! bucket_of srv a)" "q \<in> set (cs ! bucket_of srv a)"
    using p(2) \<open>taken srv a q\<close> by (simp_all add: taken_matches [OF rep ok(2)])
  note b = table_rep_bucket(2) [OF rep, of a]
  obtain t where t: "srv_mem srv q = Some t" "s_addr t = a"
    using contents_SomeD [OF q(1)] q(2) by auto
  obtain u where u: "srv_mem srv p = Some u" "addr_match (s_addr u) a"
    using p(2) by (auto simp: taken_matches [OF rep ok(2)] matches_def split: option.splits)
  have "p = q"
  proof (rule ccontr)
    assume "p \<noteq> q"
    from bucket_rep_no_match [OF b in_bucket this u(1) t(1)] show False
      using u(2) t(2) by simp
  qed
  with p(1) show ?thesis by simp
qed

interpretation sessions: session_store table_ok addr_ok session_lookup contents
    "\<lambda>srv. new_session (srv_junk srv)" sas_server_session_get sas_server_session_delete
proof unfold_locales
  fix srv :: server and a p
  assume ok: "table_ok srv" and a: "addr_ok a"
  obtain cs where rep: "table_rep srv cs"
    using ok by (auto simp: table_ok_def)
  note b = table_rep_bucket [OF rep, of a]
  note look = session_lookup_bucket [OF rep a]
  have len: "length (sa_addr a) = 16"
    using a by (simp add: addr_ok_def)
  { assume "session_lookup srv a = Some p"
    with look have p: "bucket_lookup srv a (cs ! bucket_of srv a) = Some p"
      by simp
    show "contents srv p \<noteq> None"
      using b(2) bucket_lookup_in [OF p] by (auto simp: contents_def elim: bucket_rep_memberD)
    show "sas_server_session_get srv a = Ok (Some p, srv)"
      by (rule session_get_found [OF rep len p]) }
  assume none: "session_lookup srv a = None"
  then have no: "bucket_lookup srv a (cs ! bucket_of srv a) = None"
    using look by simp
  show "(\<exists>s'. sas_server_session_get srv a = Ok (None, s') \<and> table_ok s' \<and> contents s' = contents srv) \<or>
      (\<exists>k s'. sas_server_session_get srv a = Ok (Some k, s') \<and> table_ok s' \<and> contents srv k = None \<and>
        contents s' = (contents srv)(k \<mapsto> new_session (srv_junk srv) a) \<and> session_lookup s' a = Some k)"
  proof (cases "srv_malloc_ok srv (srv_fresh srv)")
    case True
    have "s_addr (new_session (srv_junk srv) a) = a" "s_next (new_session (srv_junk srv) a) = None"
      by (simp_all add: new_session_def)
    note n = this
    have "contents srv (srv_fresh srv) = None"
      using table_rep_fresh(1) [OF rep order_refl] by (simp add: contents_def)
    then show ?thesis
      using session_get_new [OF rep len no True] table_rep_link [OF rep len refl no n]
        contents_link_session [OF rep b(1) n(2)] session_lookup_linked [OF rep a none]
      by (auto simp: table_ok_def)
  next
    case False
    show ?thesis
      using session_get_no_memory [OF rep len no False] table_rep_fresh_up [OF rep]
      by (auto simp: table_ok_def contents_def)
  qed
next
  fix srv p
  assume "table_ok srv" and p: "contents srv p \<noteq> None"
  then obtain cs s where rep: "table_rep srv cs" and s: "srv_mem srv p = Some s"
    by (auto simp: table_ok_def contents_def)
  show "\<exists>s'. sas_server_session_delete srv p = Ok s' \<and> table_ok s' \<and> contents s' = (contents srv)(p := None)"
    using session_delete_live [OF rep s] table_rep_drop [OF rep s refl] contents_drop_session
    by (auto simp: table_ok_def)
qed

text \<open>The table is a matter of the addresses and links of the sessions, and of its own fields.\<close>

definition linked :: "server \<Rightarrow> sid \<Rightarrow> (sockaddr6 \<times> sid option) option" where
  "linked srv p = map_option (\<lambda>s. (s_addr s, s_next s)) (srv_mem srv p)"

lemma linked_SomeD:
  assumes "linked srv' = linked srv" "srv_mem srv' p = Some s'"
  obtains s where "srv_mem srv p = Some s" "s_addr s = s_addr s'" "s_next s = s_next s'"
proof -
  have "linked srv p = Some (s_addr s', s_next s')"
    unfolding assms(1) [symmetric] by (simp add: linked_def assms(2))
  then show thesis
    using that by (auto simp: linked_def)
qed

lemma table_rep_linked:
  assumes rep: "table_rep srv cs" and mem: "linked srv' = linked srv"
    and same: "ss_table srv' = ss_table srv" "ss_capacity srv' = ss_capacity srv"
      "ss_count srv' = ss_count srv" "srv_fresh srv' = srv_fresh srv"
  shows "table_rep srv' cs"
proof -
  note bucket = bucket_of_capacity [OF same(2)]
  have "next_of srv' p = map_option snd (linked srv' p)" "next_of srv p = map_option snd (linked srv p)" for p
    by (simp_all add: next_of_def linked_def option.map_comp comp_def)
  then have next_same: "next_of srv' = next_of srv"
    using mem by (simp add: fun_eq_iff)
  have inb: "in_bucket srv' i p" if ib: "in_bucket srv i p" for i p
  proof -
    obtain s where s: "srv_mem srv p = Some s" "bucket_of srv (s_addr s) = i" "length (sa_addr (s_addr s)) = 16"
      using ib by (auto simp: in_bucket_def)
    obtain s' where "srv_mem srv' p = Some s'" "s_addr s' = s_addr s"
      using linked_SomeD [OF mem [symmetric] s(1)] by metis
    then show ?thesis
      using s ib bucket same(4) by (simp add: in_bucket_def)
  qed
  have "bucket_rep srv' i h ps" if b: "bucket_rep srv i h ps" for i h ps
  proof -
    have "\<not> addr_match (s_addr s) (s_addr t)"
      if pq: "p \<in> set ps" "q \<in> set ps" "p \<noteq> q" "srv_mem srv' p = Some s" "srv_mem srv' q = Some t" for p q s t
    proof -
      obtain s0 where "srv_mem srv p = Some s0" "s_addr s0 = s_addr s"
        using linked_SomeD [OF mem pq(4)] by metis
      moreover obtain t0 where "srv_mem srv q = Some t0" "s_addr t0 = s_addr t"
        using linked_SomeD [OF mem pq(5)] by metis
      ultimately show ?thesis
        using bucket_rep_no_match [OF b pq(1-3)] by metis
    qed
    moreover have "\<forall>p \<in> set ps. in_bucket srv' i p"
      using b inb by (simp add: bucket_rep_def)
    ultimately show ?thesis
      using b next_same unfolding bucket_rep_def by simp
  qed
  moreover have "p \<in> set (cs ! bucket_of srv' (s_addr s'))" if pm: "srv_mem srv' p = Some s'" for p s'
  proof -
    obtain s where s: "srv_mem srv p = Some s" "s_addr s = s_addr s'"
      using linked_SomeD [OF mem pm] by metis
    have "p \<in> set (cs ! bucket_of srv (s_addr s))"
      using rep s(1) by (simp add: table_rep_def)
    then show ?thesis
      by (simp add: bucket s(2))
  qed
  ultimately show ?thesis
    using rep same by (simp add: table_rep_def)
qed

lemma table_ok_linked:
  assumes "table_ok srv" "linked srv' = linked srv"
    and "ss_table srv' = ss_table srv" "ss_capacity srv' = ss_capacity srv"
      "ss_count srv' = ss_count srv" "srv_fresh srv' = srv_fresh srv"
  shows "table_ok srv'"
  using assms table_rep_linked unfolding table_ok_def by blast

section \<open>An example\<close>

definition blank_session :: session where
  "blank_session = \<lparr>s_addr = \<lparr>sa_addr = [], sa_port = 0\<rparr>, s_state = STATE_INITIAL, s_seq = 0, s_ack = 0,
     s_send_window = 0, s_receive_window = 0, s_pipeline = None, s_sink_logic = False, s_timeout = 0,
     s_sample_rate = 0, s_sample_size = 0, s_channels = 0, s_codec = 0, s_fd = 0, s_next = None\<rparr>"

definition example_server :: server where
  "example_server = sas_server_alloc (fresh_os (\<lambda>_. Inl 2) (\<lambda>_. 0)) (\<lambda>_. True) blank_session []"

text \<open>The clients \<open>2001:db8::n\<close> and \<open>2001:db8::n:0\<close>, on the same port.\<close>

definition example_addr :: "u8 \<Rightarrow> sockaddr6" where
  "example_addr n = \<lparr>sa_addr = [0x20, 1, 0x0D, 0xB8] @ replicate 11 0 @ [n], sa_port = 0x901F\<rparr>"

definition example_addr2 :: "u8 \<Rightarrow> sockaddr6" where
  "example_addr2 n = \<lparr>sa_addr = [0x20, 1, 0x0D, 0xB8] @ replicate 9 0 @ [n, 0, 0], sa_port = 0x901F\<rparr>"

lemma example_addr_ok [simp]: "addr_ok (example_addr n)" "addr_ok (example_addr2 n)"
  by (simp_all add: addr_ok_def example_addr_def example_addr2_def)

lemma example_table: "table_rep example_server (replicate 32 [])"
  unfolding example_server_def by (rule table_rep_alloc)

lemma example_table_ok [simp]: "table_ok example_server"
  using example_table by (auto simp: table_ok_def)

lemma example_capacity [simp]:
  "ss_capacity example_server = 32" "srv_fresh example_server = 0" "srv_malloc_ok example_server = (\<lambda>_. True)"
  "srv_junk example_server = blank_session" "contents example_server p = None"
  by (simp_all add: example_server_def contents_def)

text \<open>The server after the first packet of the client \<open>2001:db8::1\<close>.\<close>

definition example_served :: server where
  "example_served = link_session (bucket_of example_server (example_addr 1)) []
     (new_session blank_session (example_addr 1)) example_server"

lemma example_get:
  "sas_server_session_get example_server (example_addr 1) = Ok (Some 0, example_served)"
  using session_get_new [OF example_table, of "example_addr 1"] table_rep_bucket(1) [OF example_table, of "example_addr 1"]
    example_addr_ok(1) [of 1]
  by (simp add: addr_ok_def bucket_lookup_def example_served_def)

lemma example_served_simps:
  "table_ok example_served" "contents example_served = [0 \<mapsto> new_session blank_session (example_addr 1)]"
proof -
  have lookup: "session_lookup example_server (example_addr 1) = None"
    using session_lookup_bucket [OF example_table, of "example_addr 1"]
      table_rep_bucket(1) [OF example_table, of "example_addr 1"]
    by (simp add: bucket_lookup_def)
  then show "table_ok example_served" "contents example_served = [0 \<mapsto> new_session blank_session (example_addr 1)]"
    using sessions.get_new [OF example_table_ok example_addr_ok(1) lookup] example_get
    by (auto simp: fun_eq_iff)
qed

section \<open>Properties\<close>

text \<open>C21. A packet's session: on a table in order, \<open>sas_server_session_get\<close>
  ends without a fault and leaves the table in order. A client that has a session is given it. Where the comparison of the
  code takes a session of the address's bucket for the client's (\<open>taken\<close>: one of another IP address, or with the
  same port), it gives such a one and changes nothing. Else it creates one at a fresh address with the initial contents, if the
  allocation succeeds, and gives none if it fails; the other
  sessions stay as they are. A next call for the address, and \<open>sas_server_session_find\<close>, then give the same session and change nothing.\<close>

theorem session_get_contract:
  assumes "table_ok srv" "addr_ok a"
  shows "\<exists>r srv'. sas_server_session_get srv a = Ok (r, srv') \<and> table_ok srv' \<and>
    (\<forall>q s. contents srv q = Some s \<longrightarrow> s_addr s = a \<longrightarrow> r = Some q) \<and>
    (if \<exists>q. taken srv a q then srv' = srv \<and> (\<exists>p. r = Some p \<and> taken srv a p)
     else if srv_malloc_ok srv (srv_fresh srv) then r = Some (srv_fresh srv) \<and> contents srv (srv_fresh srv) = None \<and>
       contents srv' = (contents srv)(srv_fresh srv \<mapsto> new_session (srv_junk srv) a)
     else r = None \<and> contents srv' = contents srv) \<and>
    sas_server_session_find srv' a = Ok r \<and> (\<forall>p. r = Some p \<longrightarrow> sas_server_session_get srv' a = Ok (Some p, srv'))"
proof (cases "session_lookup srv a")
  case (Some p)
  have get: "sas_server_session_get srv a = Ok (Some p, srv)"
    by (rule sessions.get_found [OF assms Some])
  moreover have "taken srv a p"
    by (rule lookup_taken(1) [OF assms Some])
  moreover have "r = p" if "contents srv r = Some s" "s_addr s = a" for r s
    using lookup_own [OF assms that] Some by simp
  ultimately show ?thesis
    using Some assms session_find_lookup [OF assms] by (intro exI [of _ "Some p"] exI [of _ srv]) auto
next
  case None
  have free: "\<not> taken srv a q" for q
    by (rule lookup_taken(2) [OF assms None])
  have own: "\<not> (contents srv q = Some s \<and> s_addr s = a)" for q s
    using lookup_own [OF assms, of q s] None by auto
  obtain cs where rep: "table_rep srv cs"
    using assms(1) by (auto simp: table_ok_def)
  have len: "length (sa_addr a) = 16" and none: "bucket_lookup srv a (cs ! bucket_of srv a) = None"
    using assms(2) None session_lookup_bucket [OF rep assms(2)] by (simp_all add: addr_ok_def)
  show ?thesis
  proof (cases "srv_malloc_ok srv (srv_fresh srv)")
    case True
    let ?n = "new_session (srv_junk srv) a" and ?i = "bucket_of srv a"
    let ?srv = "link_session ?i (cs ! ?i) ?n srv"
    have get: "sas_server_session_get srv a = Ok (Some (srv_fresh srv), ?srv)"
      by (rule session_get_new [OF rep len none True])
    have n: "s_addr ?n = a" "s_next ?n = None"
      by (simp_all add: new_session_def)
    have ok: "table_ok ?srv"
      using table_rep_link [OF rep len refl none n] by (auto simp: table_ok_def)
    have c: "contents srv (srv_fresh srv) = None" "contents ?srv = (contents srv)(srv_fresh srv \<mapsto> ?n)"
      using table_rep_fresh(1) [OF rep order_refl] contents_link_session [OF rep table_rep_bucket(1) [OF rep] n(2)]
      by (simp_all add: contents_def)
    have look: "session_lookup ?srv a = Some (srv_fresh srv)"
      by (rule session_lookup_linked [OF rep assms(2) None])
    show ?thesis
      using get ok c True free own sessions.get_found [OF ok assms(2) look] session_find_lookup [OF ok assms(2)] look
      by (intro exI [of _ "Some (srv_fresh srv)"] exI [of _ ?srv]) simp
  next
    case False
    let ?srv = "srv\<lparr>srv_fresh := srv_fresh srv + 1\<rparr>"
    have get: "sas_server_session_get srv a = Ok (None, ?srv)"
      by (rule session_get_no_memory [OF rep len none False])
    have rep': "table_rep ?srv cs"
      by (rule table_rep_fresh_up [OF rep])
    have "bucket_of ?srv = bucket_of srv"
      by (rule bucket_of_capacity) simp
    moreover have "ip_of ?srv = ip_of srv" "port_of ?srv = port_of srv"
      by (simp_all add: ip_of_def port_of_def fun_eq_iff)
    then have "bucket_lookup ?srv a ps = bucket_lookup srv a ps" for ps
      by (cases ps) (simp_all add: bucket_lookup_def)
    ultimately have "sas_server_session_find ?srv a = Ok None"
      using session_find_total [OF rep' assms(2)] none by simp
    moreover have "contents ?srv = contents srv"
      by (simp add: contents_def fun_eq_iff)
    ultimately show ?thesis
      using get rep' False free own by (intro exI [of _ None] exI [of _ ?srv]) (auto simp: table_ok_def)
  qed
qed

theorem session_get_contract_witness:
  "sas_server_session_get example_server (example_addr 1) = Ok (Some 0, example_served) \<and>
    contents example_served = [0 \<mapsto> new_session blank_session (example_addr 1)] \<and>
    sas_server_session_get example_served (example_addr 1) = Ok (Some 0, example_served)"
  using session_get_contract [OF example_table_ok, of "example_addr 1"] example_get example_served_simps
  by auto

text \<open>C24. Deleting an allocated session, on a table in order, ends without a
  fault: the session is freed and uncounted, its pipeline's descriptor and its
  own are closed and no others, the other sessions and everything sent stay as they are, the table is in
  order, and no address finds the session any more.\<close>

theorem session_delete_contract:
  assumes "table_ok srv" "srv_mem srv p = Some s"
  shows "\<exists>srv'. sas_server_session_delete srv p = Ok srv' \<and> table_ok srv' \<and>
    contents srv' = (contents srv)(p := None) \<and> ss_count srv' = ss_count srv - 1 \<and>
    os_sent srv' = os_sent srv \<and> {a. addr_ok a \<and> sas_server_session_find srv' a = Ok (Some p)} = {} \<and>
    (\<forall>fd. fd_open fd srv' = (if fd = s_fd s \<or> (\<exists>pl. s_pipeline s = Some pl \<and> fd = ws_fd pl) then None else fd_open fd srv))"
proof -
  obtain cs where rep: "table_rep srv cs"
    using assms(1) by (auto simp: table_ok_def)
  have live: "contents srv p \<noteq> None"
    using assms(2) by (simp add: contents_def)
  obtain srv' where srv': "sas_server_session_delete srv p = Ok srv'" "table_ok srv'"
    "contents srv' = (contents srv)(p := None)"
    using sessions.del_live [OF assms(1) live] by blast
  moreover have "ss_count srv' = ss_count srv - 1" "os_sent srv' = os_sent srv"
    using session_delete_live [OF rep assms(2)] srv'(1) by auto
  moreover have "fd_open fd srv' =
      (if fd = s_fd s \<or> (\<exists>pl. s_pipeline s = Some pl \<and> fd = ws_fd pl) then None else fd_open fd srv)" for fd
    using session_delete_live [OF rep assms(2)] srv'(1) by (auto simp: drop_session_fds closed_with_def split: option.splits)
  moreover have "sas_server_session_find srv' a \<noteq> Ok (Some p)" if "addr_ok a" for a
    using sessions.deleted_not_found [OF assms(1) live srv'(1)] session_find_lookup [OF srv'(2) that] that by auto
  ultimately show ?thesis
    by auto
qed

theorem session_delete_contract_witness:
  "\<exists>srv'. sas_server_session_delete example_served 0 = Ok srv' \<and> contents srv' = Map.empty"
proof -
  obtain s where "srv_mem example_served 0 = Some s"
    using contents_SomeD [of example_served 0] example_served_simps(2) by auto
  from session_delete_contract [OF example_served_simps(1) this] show ?thesis
    using example_served_simps(2) by auto
qed

text \<open>The bucket of a client's address depends on the sum of the signed
  bytes of the IP address and port only, although the hash is 64 bits wide:
  the multiplier 33 is 1 modulo the table's capacity of 32.\<close>

lemma bucket_is_byte_sum:
  "int (bucket_of (sas_server_alloc env malloc_ok junk stack) a) =
    (5381 + sum_list (map sint (sa_addr a)) + sum_list (map sint (u16_bytes (sa_port a)))) mod 32"
  using bucket_of_sum [of "sas_server_alloc env malloc_ok junk stack" a]
  by (simp add: addr_bytes_def algebra_simps)

text \<open>C39. A client is given another client's session: where a bucket has a
  session of some IP address, a packet from any other IP address of that
  bucket is taken for one from that address, and no session is created for it.\<close>

theorem session_of_other_client:
  assumes "table_ok srv" "addr_ok a" "srv_mem srv p = Some s"
    and "bucket_of srv (s_addr s) = bucket_of srv a" "sa_addr (s_addr s) \<noteq> sa_addr a"
  shows "\<exists>q t. sas_server_session_get srv a = Ok (Some q, srv) \<and> srv_mem srv q = Some t \<and>
    sa_addr (s_addr t) = sa_addr (s_addr s)"
proof -
  obtain cs where rep: "table_rep srv cs"
    using assms(1) by (auto simp: table_ok_def)
  note b = table_rep_bucket(2) [OF rep, of a]
  have "p \<in> set (cs ! bucket_of srv (s_addr s))"
    using rep assms(3) by (simp add: table_rep_def)
  then have p: "p \<in> set (cs ! bucket_of srv a)"
    by (simp add: assms(4))
  then obtain q qs where q: "cs ! bucket_of srv a = q # qs"
    by (cases "cs ! bucket_of srv a") auto
  have "ip_of srv q = ip_of srv p"
    using bucket_same_ip [OF b _ p, of q] q by simp
  then obtain t where t: "srv_mem srv q = Some t" "sa_addr (s_addr t) = sa_addr (s_addr s)"
    using assms(3) by (auto simp: ip_of_def)
  have "bucket_lookup srv a (cs ! bucket_of srv a) = Some q"
    using t assms(5) by (simp add: bucket_lookup_def q ip_of_def)
  then show ?thesis
    using session_get_found [OF rep] assms(2) t by (auto simp: addr_ok_def)
qed

theorem session_of_other_client_witness:
  "sas_server_session_get example_served (example_addr2 1) = Ok (Some 0, example_served) \<and>
    sa_addr (example_addr2 1) \<noteq> sa_addr (example_addr 1)"
proof -
  obtain s where s: "srv_mem example_served 0 = Some s" "s_addr s = example_addr 1"
    using contents_SomeD [of example_served 0] example_served_simps(2) by (auto simp: new_session_def)
  have cap: "ss_capacity example_served = 32"
    by (simp add: example_served_def link_session_def Let_def)
  have "int (bucket_of example_served (example_addr2 1)) = int (bucket_of example_served (example_addr 1))"
    unfolding bucket_of_sum [OF cap]
    by (simp add: addr_bytes_def example_addr_def example_addr2_def sum_list_replicate)
  then have bucket: "bucket_of example_served (s_addr s) = bucket_of example_served (example_addr2 1)"
    using s by simp
  have other: "sa_addr (example_addr2 1) \<noteq> sa_addr (example_addr 1)"
    by (simp add: example_addr_def example_addr2_def eval_nat_numeral)
  then have "sa_addr (s_addr s) \<noteq> sa_addr (example_addr2 1)"
    using s by simp
  from session_of_other_client [OF example_served_simps(1) example_addr_ok(2) s(1) bucket this]
  obtain q t where q: "sas_server_session_get example_served (example_addr2 1) = Ok (Some q, example_served)"
    "srv_mem example_served q = Some t" by blast
  have "contents example_served q \<noteq> None"
    using q(2) by (simp add: contents_def)
  then have "q = 0"
    using example_served_simps(2) by (simp split: if_splits)
  with q other show ?thesis by simp
qed

end
