(* ===== verification/Timeout_Heap.thy ===== *)
theory Timeout_Heap
  imports Session_Table
begin

text \<open>
  The heap of sessions by the time they expire
  (\<open>sas-server/src/timeout.c\<close>): an array of pointers to sessions, of which
  the first \<open>th_count\<close> are in use. The order is that of the timeouts the
  sessions have when the heap compares them.
\<close>

section \<open>The operations\<close>

text \<open>\<open>server->timeouts.heap[i]->timeout\<close>\<close>

definition heap_at :: "nat \<Rightarrow> server \<Rightarrow> sid res" where
  "heap_at i srv = (if i < length (th_heap srv) then deref Null_Deref (th_heap srv ! i) else Fault Out_Of_Bounds)"

definition heap_timeout :: "nat \<Rightarrow> server \<Rightarrow> int res" where
  "heap_timeout i srv =
     and_then (heap_at i srv) (\<lambda>p. and_then (session_at p srv) (\<lambda>s. Ok (s_timeout s)))"

definition heap_swap :: "nat \<Rightarrow> nat \<Rightarrow> server \<Rightarrow> server" where
  "heap_swap i j srv = srv\<lparr>th_heap := swap_at i j (th_heap srv)\<rparr>"

lemma heap_swap_simps [simp]:
  "th_count (heap_swap i j srv) = th_count srv" "th_capacity (heap_swap i j srv) = th_capacity srv"
  "srv_mem (heap_swap i j srv) = srv_mem srv" "th_heap (heap_swap i j srv) = swap_at i j (th_heap srv)"
  by (simp_all add: heap_swap_def)

function bubble_up :: "nat \<Rightarrow> server \<Rightarrow> server res" where
  "bubble_up index srv =
     (if index = 0 then Ok srv
      else
        let parent = (index - 1) div 2
        in and_then (heap_timeout parent srv) (\<lambda>tp.
           and_then (heap_timeout index srv) (\<lambda>ti.
           if tp < ti then Ok srv else bubble_up parent (heap_swap index parent srv))))"
  by pat_completeness auto
termination
  by (relation "measure fst") auto

declare bubble_up.simps [simp del]

definition sas_server_timeout_add :: "server \<Rightarrow> sid \<Rightarrow> server res" where
  "sas_server_timeout_add srv p =
     (let srv1 =
        (if th_count srv = th_capacity srv then
           srv\<lparr>th_capacity := th_capacity srv * 2, th_heap := th_heap srv @ replicate (th_capacity srv) None\<rparr>
         else srv);
          index = th_count srv1
      in if index < length (th_heap srv1) then
           bubble_up index (srv1\<lparr>th_count := index + 1, th_heap := (th_heap srv1)[index := Some p]\<rparr>)
         else Fault Out_Of_Bounds)"

text \<open>
  The child that \<open>index\<close> changes places with. Where the right child is the
  lower one, the code takes the left one.
\<close>

definition heapify_lowest :: "nat \<Rightarrow> server \<Rightarrow> nat res" where
  "heapify_lowest index srv =
     (let left = 2 * index + 1; right = left + 1
      in and_then
           (if left < th_count srv then
              and_then (heap_timeout left srv) (\<lambda>tl.
              and_then (heap_timeout index srv) (\<lambda>ti.
              Ok (if tl < ti then left else index)))
            else Ok index)
           (\<lambda>lowest.
             if right < th_count srv then
               and_then (heap_timeout right srv) (\<lambda>tr.
               and_then (heap_timeout lowest srv) (\<lambda>tl.
               Ok (if tr < tl then left else lowest)))
             else Ok lowest))"

lemma heapify_lowest_range:
  "heapify_lowest index srv = Ok lowest \<Longrightarrow>
    lowest = index \<or> lowest = 2 * index + 1 \<and> lowest < th_count srv"
  by (auto simp: heapify_lowest_def Let_def and_then_eq_Ok split: if_splits)

function sas_server_timeout_heapify :: "nat \<Rightarrow> server \<Rightarrow> server res" where
  "sas_server_timeout_heapify index srv =
     and_then (heapify_lowest index srv) (\<lambda>lowest.
     if lowest \<noteq> index then sas_server_timeout_heapify lowest (heap_swap lowest index srv)
     else Ok srv)"
  by pat_completeness auto
termination
  by (relation "measure (\<lambda>(index, srv). th_count srv - index)") (auto dest: heapify_lowest_range)

declare sas_server_timeout_heapify.simps [simp del]

definition sas_server_timeout_pop :: "server \<Rightarrow> (sid option \<times> server) res" where
  "sas_server_timeout_pop srv =
     (if th_count srv = 0 then Ok (None, srv)
      else
        let min' = th_heap srv ! 0;
            count = th_count srv - 1
        in and_then
             (sas_server_timeout_heapify 0
               (srv\<lparr>th_count := count, th_heap := (th_heap srv)[0 := th_heap srv ! count]\<rparr>))
             (\<lambda>srv'. Ok (min', srv')))"

text \<open>Called when the wait for a session is over.\<close>

definition sas_server_timeout :: "server \<Rightarrow> sid \<Rightarrow> server res" where
  "sas_server_timeout srv p =
     (let (now, srv1) = os_time srv
      in and_then (session_at p srv1) (\<lambda>s.
         if s_timeout s \<le> now then sas_server_session_delete srv1 p else Ok srv1))"

section \<open>Entries and their order\<close>

definition entries :: "server \<Rightarrow> sid list" where
  "entries srv = map the (take (th_count srv) (th_heap srv))"

definition timeout_of :: "server \<Rightarrow> sid \<Rightarrow> int" where
  "timeout_of srv p = (case srv_mem srv p of None \<Rightarrow> 0 | Some s \<Rightarrow> s_timeout s)"

text \<open>Every entry is a session that is still allocated.\<close>

definition heap_live :: "server \<Rightarrow> bool" where
  "heap_live srv \<longleftrightarrow> th_count srv \<le> th_capacity srv \<and> length (th_heap srv) = th_capacity srv \<and>
     0 < th_capacity srv \<and>
     (\<forall>i < th_count srv. \<exists>p. th_heap srv ! i = Some p \<and> srv_mem srv p \<noteq> None)"

text \<open>An entry does not expire before its parent, above \<open>n\<close> at least.\<close>

definition ordered_but :: "nat \<Rightarrow> int list \<Rightarrow> bool" where
  "ordered_but n ts \<longleftrightarrow>
     (\<forall>i < length ts. 0 < i \<longrightarrow> i \<noteq> n \<longrightarrow> ts ! ((i - 1) div 2) \<le> ts ! i) \<and>
     (\<forall>i < length ts. 0 < i \<longrightarrow> 0 < n \<longrightarrow> (i - 1) div 2 = n \<longrightarrow> ts ! ((n - 1) div 2) \<le> ts ! i)"

definition ordered :: "int list \<Rightarrow> bool" where
  "ordered ts \<longleftrightarrow> (\<forall>i < length ts. 0 < i \<longrightarrow> ts ! ((i - 1) div 2) \<le> ts ! i)"

definition times :: "server \<Rightarrow> int list" where
  "times srv = map (timeout_of srv) (entries srv)"

lemma length_entries: "heap_live srv \<Longrightarrow> length (entries srv) = th_count srv"
  by (simp add: entries_def heap_live_def)

lemma length_times: "heap_live srv \<Longrightarrow> length (times srv) = th_count srv"
  by (simp add: times_def length_entries)

lemma heap_at_live:
  assumes "heap_live srv" "i < th_count srv"
  shows "heap_at i srv = Ok (entries srv ! i)" and "srv_mem srv (entries srv ! i) \<noteq> None"
  using assms by (auto simp: heap_live_def heap_at_def entries_def)

lemma heap_timeout_live:
  assumes "heap_live srv" "i < th_count srv"
  shows "heap_timeout i srv = Ok (times srv ! i)"
  using heap_at_live [OF assms] assms length_entries [OF assms(1)]
  by (auto simp: heap_timeout_def session_at_def times_def timeout_of_def)

text \<open>Swapping two entries.\<close>

lemma entries_swap:
  assumes "heap_live srv" "i < th_count srv" "j < th_count srv"
  shows "entries (heap_swap i j srv) = swap_at i j (entries srv)"
proof -
  have "take (th_count srv) (swap_at i j (th_heap srv)) = swap_at i j (take (th_count srv) (th_heap srv))"
    using assms by (intro take_swap_at) (auto simp: heap_live_def)
  then show ?thesis
    using assms by (simp add: entries_def swap_at_def map_update heap_live_def)
qed

lemma timeout_of_swap [simp]: "timeout_of (heap_swap i j srv) = timeout_of srv"
  by (simp add: timeout_of_def fun_eq_iff)

lemma times_swap:
  assumes "heap_live srv" "i < th_count srv" "j < th_count srv"
  shows "times (heap_swap i j srv) = swap_at i j (times srv)"
  using assms entries_swap [OF assms] length_entries [OF assms(1)]
  by (simp add: times_def swap_at_def map_update)

lemma heap_live_swap:
  assumes "heap_live srv" "i < th_count srv" "j < th_count srv"
  shows "heap_live (heap_swap i j srv)"
  using assms by (auto simp: heap_live_def nth_swap_at)

lemma mset_entries_swap:
  assumes "heap_live srv" "i < th_count srv" "j < th_count srv"
  shows "mset (entries (heap_swap i j srv)) = mset (entries srv)"
  using assms by (simp add: entries_swap mset_swap_at length_entries)

section \<open>Adding\<close>

lemma ordered_but_swap:
  assumes ts: "ordered_but n ts" and n: "0 < n" "n < length ts" and q: "q = (n - 1) div 2"
    and le: "ts ! n \<le> ts ! q"
  shows "ordered_but q (swap_at n q ts)"
proof -
  have qn: "q < n" "q < length ts"
    using n q by auto
  have up: "ts ! ((i - 1) div 2) \<le> ts ! i" if "i < length ts" "0 < i" "i \<noteq> n" for i
    using ts that by (simp add: ordered_but_def)
  have down: "ts ! q \<le> ts ! i" if "i < length ts" "0 < i" "(i - 1) div 2 = n" for i
    using ts that n q by (simp add: ordered_but_def)
  have nth: "swap_at n q ts ! k = (if k = q then ts ! n else if k = n then ts ! q else ts ! k)"
    if "k < length ts" for k
    using nth_swap_at [OF n(2) qn(2) that] .
  have "swap_at n q ts ! ((i - 1) div 2) \<le> swap_at n q ts ! i"
    if i: "i < length ts" "0 < i" "i \<noteq> q" for i
  proof -
    have p: "(i - 1) div 2 < length ts"
      using i by auto
    consider "i = n" | "i \<noteq> n" "(i - 1) div 2 = n" | "i \<noteq> n" "(i - 1) div 2 = q" |
      "i \<noteq> n" "(i - 1) div 2 \<noteq> n" "(i - 1) div 2 \<noteq> q"
      by blast
    then show ?thesis
      unfolding nth [OF p] nth [OF i(1)]
      using le up [OF i(1,2)] down [OF i(1,2)] qn i(3) q by cases auto
  qed
  moreover have "swap_at n q ts ! ((q - 1) div 2) \<le> swap_at n q ts ! i"
    if i: "i < length ts" "0 < i" "0 < q" "(i - 1) div 2 = q" for i
  proof -
    have p: "(q - 1) div 2 < length ts" "(q - 1) div 2 \<noteq> q" "(q - 1) div 2 \<noteq> n" "i \<noteq> q"
      using i qn by auto
    have "ts ! ((q - 1) div 2) \<le> ts ! q"
      using up [of q] qn i(3) by auto
    moreover have "ts ! q \<le> ts ! i" if "i \<noteq> n"
      using up [OF i(1,2) that] i(4) by simp
    ultimately show ?thesis
      unfolding nth [OF p(1)] nth [OF i(1)] using p by auto
  qed
  ultimately show ?thesis
    by (simp add: ordered_but_def)
qed

lemma ordered_butD:
  "ordered_but n ts \<Longrightarrow> n = 0 \<or> ts ! ((n - 1) div 2) \<le> ts ! n \<Longrightarrow> ordered ts"
  by (auto simp: ordered_but_def ordered_def)

text \<open>The states a run of the heap's loops can lead to.\<close>

definition reordered :: "server \<Rightarrow> server \<Rightarrow> bool" where
  "reordered srv srv' \<longleftrightarrow> heap_live srv' \<and> mset (entries srv') = mset (entries srv) \<and>
     srv' = srv\<lparr>th_heap := th_heap srv'\<rparr>"

lemma reordered_refl [simp]: "heap_live srv \<Longrightarrow> reordered srv srv"
  by (simp add: reordered_def)

lemma reordered_trans: "reordered a b \<Longrightarrow> reordered b c \<Longrightarrow> reordered a c"
  unfolding reordered_def by (metis server.surjective server.update_convs(7))

lemma reordered_swap:
  "heap_live srv \<Longrightarrow> i < th_count srv \<Longrightarrow> j < th_count srv \<Longrightarrow> reordered srv (heap_swap i j srv)"
  by (auto simp: reordered_def heap_live_swap mset_entries_swap) (simp add: heap_swap_def)

lemma bubble_up_reorders:
  assumes "heap_live srv" "index < th_count srv"
  shows "\<exists>srv'. bubble_up index srv = Ok srv' \<and> reordered srv srv' \<and>
    (ordered_but index (times srv) \<longrightarrow> ordered (times srv'))"
  using assms
proof (induction index srv rule: bubble_up.induct)
  case (1 index srv)
  show ?case
  proof (cases "index = 0")
    case True
    then show ?thesis
      using 1(2) ordered_butD [of 0] by (simp add: bubble_up.simps [of 0])
  next
    case False
    let ?q = "(index - 1) div 2" and ?srv = "heap_swap index ((index - 1) div 2) srv"
    have q: "?q < th_count srv"
      using 1(3) by linarith
    note t = heap_timeout_live [OF 1(2) q] heap_timeout_live [OF 1(2,3)]
    show ?thesis
    proof (cases "times srv ! ?q < times srv ! index")
      case True
      then have "ordered_but index (times srv) \<longrightarrow> ordered (times srv)"
        using ordered_butD by auto
      then show ?thesis
        using True False 1(2) t by (simp add: bubble_up.simps [of index] Let_def)
    next
      case less: False
      have live: "heap_live ?srv"
        using heap_live_swap [OF 1(2,3) q] .
      obtain srv' where srv': "bubble_up ?q ?srv = Ok srv'" "reordered ?srv srv'"
        "ordered_but ?q (times ?srv) \<longrightarrow> ordered (times srv')"
        using 1(1) [OF False refl t less live] q by auto
      have "ordered_but ?q (times ?srv)" if "ordered_but index (times srv)"
        unfolding times_swap [OF 1(2,3) q] using that less False 1(3) length_times [OF 1(2)]
        by (intro ordered_but_swap) auto
      then show ?thesis
        using srv' less False t reordered_trans [OF reordered_swap [OF 1(2,3) q] srv'(2)]
        by (simp add: bubble_up.simps [of index] Let_def)
    qed
  qed
qed

text \<open>The heap with room for another entry, and that entry in the last place.\<close>

definition heap_grown :: "server \<Rightarrow> server" where
  "heap_grown srv =
     (if th_count srv = th_capacity srv then
        srv\<lparr>th_capacity := th_capacity srv * 2, th_heap := th_heap srv @ replicate (th_capacity srv) None\<rparr>
      else srv)"

definition heap_placed :: "sid \<Rightarrow> server \<Rightarrow> server" where
  "heap_placed p srv =
     (heap_grown srv)\<lparr>th_count := th_count srv + 1, th_heap := (th_heap (heap_grown srv))[th_count srv := Some p]\<rparr>"

lemma heap_grown_live:
  assumes "heap_live srv"
  shows "heap_live (heap_grown srv)" "entries (heap_grown srv) = entries srv"
    "th_count srv < length (th_heap (heap_grown srv))" "th_count (heap_grown srv) = th_count srv"
    "srv_mem (heap_grown srv) = srv_mem srv"
  using assms by (auto simp: heap_grown_def heap_live_def entries_def nth_append)

lemma timeout_add_placed:
  assumes "heap_live srv"
  shows "sas_server_timeout_add srv p = bubble_up (th_count srv) (heap_placed p srv)"
  using heap_grown_live(3,4) [OF assms]
  by (auto simp: sas_server_timeout_add_def heap_placed_def heap_grown_def Let_def)

lemma heap_placed_live:
  assumes "heap_live srv" "srv_mem srv p \<noteq> None"
  shows "heap_live (heap_placed p srv)" "entries (heap_placed p srv) = entries srv @ [p]"
    "times (heap_placed p srv) = times srv @ [timeout_of srv p]"
proof -
  note g = heap_grown_live [OF assms(1)]
  show "heap_live (heap_placed p srv)"
    using g assms(2) by (auto simp: heap_live_def heap_placed_def nth_list_update less_Suc_eq)
  have "take (Suc n) (xs[n := x]) = take n xs @ [x]" if "n < length xs" for n xs and x :: "sid option"
    using that by (simp add: take_Suc_conv_app_nth)
  with g show e: "entries (heap_placed p srv) = entries srv @ [p]"
    by (simp add: entries_def heap_placed_def)
  have "timeout_of (heap_placed p srv) = timeout_of srv"
    using g(5) by (simp add: timeout_of_def heap_placed_def fun_eq_iff)
  with e show "times (heap_placed p srv) = times srv @ [timeout_of srv p]"
    by (simp add: times_def)
qed

lemma ordered_snoc: "ordered ts \<Longrightarrow> ordered_but (length ts) (ts @ [x])"
proof -
  assume o: "ordered ts"
  have len: "(i - 1) div 2 < length ts" if "i < length (ts @ [x])" "0 < i" for i
  proof -
    from that have "i < length ts + 1" "0 < i" by simp_all
    then show ?thesis by linarith
  qed
  have "(ts @ [x]) ! ((i - 1) div 2) \<le> (ts @ [x]) ! i" if "i < length (ts @ [x])" "0 < i" "i \<noteq> length ts" for i
    using o that len [OF that(1,2)] by (simp add: ordered_def nth_append)
  moreover have "(i - 1) div 2 \<noteq> length ts" if "i < length (ts @ [x])" "0 < i" for i
    using len [OF that] by simp
  ultimately show ?thesis
    by (simp add: ordered_but_def)
qed

lemma timeout_add_spec:
  assumes "heap_live srv" "srv_mem srv p \<noteq> None"
  shows "\<exists>srv'. sas_server_timeout_add srv p = Ok srv' \<and> heap_live srv' \<and>
    mset (entries srv') = add_mset p (mset (entries srv)) \<and> th_count srv' = th_count srv + 1 \<and>
    (ordered (times srv) \<longrightarrow> ordered (times srv')) \<and>
    srv' = srv\<lparr>th_count := th_count srv', th_capacity := th_capacity srv', th_heap := th_heap srv'\<rparr>"
proof -
  note l = heap_placed_live [OF assms]
  have count: "th_count (heap_placed p srv) = th_count srv + 1"
    by (simp add: heap_placed_def)
  obtain srv' where srv': "bubble_up (th_count srv) (heap_placed p srv) = Ok srv'"
    "reordered (heap_placed p srv) srv'"
    "ordered_but (th_count srv) (times (heap_placed p srv)) \<longrightarrow> ordered (times srv')"
    using bubble_up_reorders [OF l(1), of "th_count srv"] count by auto
  have same: "srv' = (heap_placed p srv)\<lparr>th_heap := th_heap srv'\<rparr>"
    using srv'(2) by (simp add: reordered_def)
  have "srv' = srv\<lparr>th_count := th_count srv', th_capacity := th_capacity srv', th_heap := th_heap srv'\<rparr>"
    by (subst same, subst (2 3) same) (simp add: heap_placed_def heap_grown_def)
  moreover have "th_count srv' = th_count srv + 1"
    by (subst same) (simp add: count)
  moreover have "ordered (times srv')" if "ordered (times srv)"
    using srv'(3) ordered_snoc [OF that, of "timeout_of srv p"] l(3) length_times [OF assms(1)] by simp
  ultimately show ?thesis
    using srv'(1,2) l(2) timeout_add_placed [OF assms(1)] by (auto simp: reordered_def)
qed

section \<open>Removing\<close>

lemma heapify_reorders:
  "heap_live srv \<Longrightarrow> index < th_count srv \<or> th_count srv = 0 \<Longrightarrow>
    \<exists>srv'. sas_server_timeout_heapify index srv = Ok srv' \<and> reordered srv srv'"
proof (induction index srv rule: sas_server_timeout_heapify.induct)
  case (1 index srv)
  have "\<exists>lowest. heapify_lowest index srv = Ok lowest"
    using heap_timeout_live [OF 1(2)] 1(3)
    by (auto simp: heapify_lowest_def Let_def)
  then obtain lowest where low: "heapify_lowest index srv = Ok lowest" by blast
  show ?case
  proof (cases "lowest = index")
    case True
    then show ?thesis
      using low 1(2) by (simp add: sas_server_timeout_heapify.simps [of index])
  next
    case False
    then have r: "lowest < th_count srv" "index < th_count srv"
      using heapify_lowest_range [OF low] 1(3) by auto
    have swap: "reordered srv (heap_swap lowest index srv)"
      using reordered_swap [OF 1(2) r] .
    have "\<exists>srv'. sas_server_timeout_heapify lowest (heap_swap lowest index srv) = Ok srv' \<and>
        reordered (heap_swap lowest index srv) srv'"
      using 1(1) [OF low False heap_live_swap [OF 1(2) r]] r by simp
    then show ?thesis
      using low False reordered_trans [OF swap]
      by (auto simp: sas_server_timeout_heapify.simps [of index])
  qed
qed

text \<open>The heap with its last entry in the place of the first.\<close>

definition heap_pulled :: "server \<Rightarrow> server" where
  "heap_pulled srv =
     srv\<lparr>th_count := th_count srv - 1, th_heap := (th_heap srv)[0 := th_heap srv ! (th_count srv - 1)]\<rparr>"

lemma timeout_pop_pulled:
  "0 < th_count srv \<Longrightarrow> sas_server_timeout_pop srv =
    and_then (sas_server_timeout_heapify 0 (heap_pulled srv)) (\<lambda>srv'. Ok (th_heap srv ! 0, srv'))"
  by (simp add: sas_server_timeout_pop_def heap_pulled_def Let_def)

lemma heap_pulled_live:
  assumes "heap_live srv" "0 < th_count srv"
  shows "heap_live (heap_pulled srv)"
    "entries srv = hd (entries srv) # tl (entries srv)"
    "entries (heap_pulled srv) = butlast ((entries srv)[0 := last (entries srv)])"
    "mset (entries srv) = add_mset (hd (entries srv)) (mset (entries (heap_pulled srv)))"
proof -
  have n: "th_count srv \<le> length (th_heap srv)" "length (entries srv) = th_count srv"
    using assms by (simp_all add: heap_live_def length_entries)
  then show split: "entries srv = hd (entries srv) # tl (entries srv)"
    using assms(2) by (cases "entries srv") auto
  show "heap_live (heap_pulled srv)"
    using assms by (auto simp: heap_live_def heap_pulled_def nth_list_update)
  have last: "last (entries srv) = the (th_heap srv ! (th_count srv - 1))"
    using n assms(2) by (subst last_conv_nth) (auto simp: entries_def)
  have first: "(th_heap srv)[0 := z] ! 0 = z" for z
    using n assms(2) by (cases "th_heap srv") auto
  show e: "entries (heap_pulled srv) = butlast ((entries srv)[0 := last (entries srv)])"
    using n assms(2) unfolding last
    by (intro nth_equalityI) (auto simp: entries_def heap_pulled_def nth_butlast nth_list_update first)
  show "mset (entries srv) = add_mset (hd (entries srv)) (mset (entries (heap_pulled srv)))"
    unfolding e using n assms(2) by (intro mset_pull_last) auto
qed

lemma ordered_root: "ordered ts \<Longrightarrow> i < length ts \<Longrightarrow> ts ! 0 \<le> ts ! i"
proof (induction i rule: less_induct)
  case (less i)
  show ?case
  proof (cases "i = 0")
    case False
    have p: "(i - 1) div 2 < i"
      using False by linarith
    then have "ts ! 0 \<le> ts ! ((i - 1) div 2)"
      using less by auto
    also have "\<dots> \<le> ts ! i"
      using less.prems False by (simp add: ordered_def)
    finally show ?thesis .
  qed simp
qed

lemma timeout_pop_spec:
  assumes "heap_live srv" "0 < th_count srv"
  shows "\<exists>srv'. sas_server_timeout_pop srv = Ok (Some (hd (entries srv)), srv') \<and> heap_live srv' \<and>
    mset (entries srv) = add_mset (hd (entries srv)) (mset (entries srv')) \<and>
    srv' = srv\<lparr>th_count := th_count srv - 1, th_heap := th_heap srv'\<rparr>"
proof -
  note l = heap_pulled_live [OF assms]
  obtain srv' where srv': "sas_server_timeout_heapify 0 (heap_pulled srv) = Ok srv'"
    "reordered (heap_pulled srv) srv'"
    using heapify_reorders [OF l(1), of 0] by auto
  have same: "srv' = (heap_pulled srv)\<lparr>th_heap := th_heap srv'\<rparr>"
    using srv'(2) by (simp add: reordered_def)
  have "th_heap srv ! 0 = Some (hd (entries srv))"
  proof -
    have "hd (entries srv) = entries srv ! 0"
      using length_entries [OF assms(1)] assms(2) by (intro hd_conv_nth) auto
    then show ?thesis
      using assms by (auto simp: heap_live_def entries_def)
  qed
  moreover have "srv' = srv\<lparr>th_count := th_count srv - 1, th_heap := th_heap srv'\<rparr>"
    by (subst same) (simp add: heap_pulled_def)
  moreover have "mset (entries srv) = add_mset (hd (entries srv)) (mset (entries srv'))"
    using srv'(2) l(4) by (simp add: reordered_def)
  ultimately show ?thesis
    using srv' timeout_pop_pulled [OF assms(2)] by (auto simp: reordered_def)
qed

lemma timeout_pop_empty: "th_count srv = 0 \<Longrightarrow> sas_server_timeout_pop srv = Ok (None, srv)"
  by (simp add: sas_server_timeout_pop_def)

text \<open>The root of a heap in order expires first.\<close>

lemma timeout_pop_minimum:
  assumes "heap_live srv" "ordered (times srv)" "q \<in> set (entries srv)"
  shows "timeout_of srv (hd (entries srv)) \<le> timeout_of srv q"
proof -
  obtain i where i: "i < length (entries srv)" "entries srv ! i = q"
    using assms(3) by (auto simp: in_set_conv_nth)
  then have "times srv ! 0 \<le> times srv ! i"
    using assms(2) by (intro ordered_root) (simp_all add: times_def)
  moreover have "times srv ! i = timeout_of srv q"
    using i by (simp add: times_def)
  moreover have "times srv ! 0 = timeout_of srv (hd (entries srv))"
    using i(1) by (cases "entries srv") (simp_all add: times_def)
  ultimately show ?thesis by simp
qed

section \<open>The heap as a bag\<close>

text \<open>What the server's loop relies on: entries come out as often as they went in.\<close>

primrec pop_all :: "('s \<Rightarrow> ('k option \<times> 's) res) \<Rightarrow> nat \<Rightarrow> 's \<Rightarrow> ('k list \<times> 's) res" where
  "pop_all pop 0 s = Ok ([], s)"
| "pop_all pop (Suc n) s =
     and_then (pop s) (\<lambda>(r, s1).
     case r of
       None \<Rightarrow> Ok ([], s1)
     | Some k \<Rightarrow> and_then (pop_all pop n s1) (\<lambda>(ks, s2). Ok (k # ks, s2)))"

locale timeout_bag =
  fixes ok :: "'s \<Rightarrow> bool" and bag :: "'s \<Rightarrow> 'k multiset" and live :: "'s \<Rightarrow> 'k \<Rightarrow> bool"
    and add :: "'s \<Rightarrow> 'k \<Rightarrow> 's res" and pop :: "'s \<Rightarrow> ('k option \<times> 's) res"
  assumes add_law: "ok s \<Longrightarrow> live s k \<Longrightarrow>
      \<exists>s'. add s k = Ok s' \<and> ok s' \<and> bag s' = add_mset k (bag s) \<and> live s' = live s"
    and pop_empty: "ok s \<Longrightarrow> bag s = {#} \<Longrightarrow> pop s = Ok (None, s)"
    and pop_law: "ok s \<Longrightarrow> bag s \<noteq> {#} \<Longrightarrow>
      \<exists>k s'. pop s = Ok (Some k, s') \<and> ok s' \<and> bag s = add_mset k (bag s') \<and> live s' = live s"
begin

lemma pop_all_bag:
  "ok s \<Longrightarrow> size (bag s) \<le> n \<Longrightarrow>
    \<exists>ks s'. pop_all pop n s = Ok (ks, s') \<and> ok s' \<and> mset ks = bag s \<and> bag s' = {#} \<and> live s' = live s"
proof (induction n arbitrary: s)
  case 0
  then show ?case by simp
next
  case (Suc n)
  show ?case
  proof (cases "bag s = {#}")
    case True
    with Suc.prems show ?thesis by (simp add: pop_empty)
  next
    case False
    then obtain k s1 where p: "pop s = Ok (Some k, s1)" "ok s1" "bag s = add_mset k (bag s1)" "live s1 = live s"
      using pop_law [OF Suc.prems(1)] by blast
    then obtain ks s' where "pop_all pop n s1 = Ok (ks, s')" "ok s'" "mset ks = bag s1" "bag s' = {#}"
      "live s' = live s1"
      using Suc.IH [OF p(2)] Suc.prems(2) by auto
    with p show ?thesis by auto
  qed
qed

lemma add_then_pop:
  assumes "ok s" "live s k" "add s k = Ok s'"
  shows "\<exists>j s''. pop s' = Ok (Some j, s'') \<and> ok s'' \<and> (j = k \<or> j \<in># bag s) \<and> live s'' = live s"
proof -
  have s': "ok s'" "bag s' = add_mset k (bag s)" "live s' = live s"
    using add_law [OF assms(1,2)] assms(3) by auto
  then obtain j s'' where p: "pop s' = Ok (Some j, s'')" "ok s''" "bag s' = add_mset j (bag s'')" "live s'' = live s'"
    using pop_law [OF s'(1)] by auto
  then have "j \<in># add_mset k (bag s)"
    unfolding s'(2) [symmetric] p(3) by simp
  then have "j = k \<or> j \<in># bag s"
    by auto
  with p s'(3) show ?thesis
    by (intro exI [of _ j] exI [of _ s'']) simp
qed

end

abbreviation allocated :: "server \<Rightarrow> sid \<Rightarrow> bool" where
  "allocated srv p \<equiv> srv_mem srv p \<noteq> None"

interpretation timeouts: timeout_bag heap_live "\<lambda>srv. mset (entries srv)" allocated
    sas_server_timeout_add sas_server_timeout_pop
proof unfold_locales
  fix srv :: server and p
  assume ok: "heap_live srv"
  show "\<exists>s'. sas_server_timeout_add srv p = Ok s' \<and> heap_live s' \<and>
      mset (entries s') = add_mset p (mset (entries srv)) \<and> allocated s' = allocated srv"
    if live: "srv_mem srv p \<noteq> None"
  proof -
    obtain s' where s': "sas_server_timeout_add srv p = Ok s'" "heap_live s'"
      "mset (entries s') = add_mset p (mset (entries srv))"
      "s' = srv\<lparr>th_count := th_count s', th_capacity := th_capacity s', th_heap := th_heap s'\<rparr>"
      using timeout_add_spec [OF ok live] by blast
    have "srv_mem s' = srv_mem srv"
      by (subst s'(4)) simp
    with s'(1-3) show ?thesis by auto
  qed
  show "sas_server_timeout_pop srv = Ok (None, srv)" if "mset (entries srv) = {#}"
    using that length_entries [OF ok] by (simp add: timeout_pop_empty)
  show "\<exists>k s'. sas_server_timeout_pop srv = Ok (Some k, s') \<and> heap_live s' \<and>
      mset (entries srv) = add_mset k (mset (entries s')) \<and> allocated s' = allocated srv"
    if "mset (entries srv) \<noteq> {#}"
  proof -
    have "length (entries srv) \<noteq> 0"
      using that by simp
    then have "0 < th_count srv"
      using length_entries [OF ok] by simp
    from timeout_pop_spec [OF ok this]
    obtain s' where s': "sas_server_timeout_pop srv = Ok (Some (hd (entries srv)), s')" "heap_live s'"
      "mset (entries srv) = add_mset (hd (entries srv)) (mset (entries s'))"
      "s' = srv\<lparr>th_count := th_count srv - 1, th_heap := th_heap s'\<rparr>"
      by blast
    have "srv_mem s' = srv_mem srv"
      by (subst s'(4)) simp
    with s'(1-3) show ?thesis by auto
  qed
qed

lemma entries_alloc [simp]: "entries (sas_server_alloc env m j st) = []"
  by (simp add: entries_def)

lemma heap_live_alloc [simp]: "heap_live (sas_server_alloc env m j st)"
  by (simp add: heap_live_def)

section \<open>An example\<close>

text \<open>Sessions at the addresses 0 to 3, which expire at the times 1, 3, 2 and 4.\<close>

definition example_sessions :: server where
  "example_sessions = example_server\<lparr>srv_mem :=
     [0 \<mapsto> blank_session\<lparr>s_timeout := 1\<rparr>, 1 \<mapsto> blank_session\<lparr>s_timeout := 3\<rparr>,
      2 \<mapsto> blank_session\<lparr>s_timeout := 2\<rparr>, 3 \<mapsto> blank_session\<lparr>s_timeout := 4\<rparr>]\<rparr>"

definition example_timeouts :: "sid list \<Rightarrow> server res" where
  "example_timeouts ps = fold (\<lambda>p r. and_then r (\<lambda>srv. sas_server_timeout_add srv p)) ps (Ok example_sessions)"

lemma example_heap_live: "heap_live example_sessions" "entries example_sessions = []"
  by (simp_all add: example_sessions_def example_server_def sas_server_alloc_def heap_live_def entries_def
      os.defs server.defs TIMEOUT_HEAP_INITIAL_CAPACITY_def)

lemma example_timeouts_ok:
  assumes "set ps \<subseteq> {0, 1, 2, 3}"
  shows "\<exists>srv. example_timeouts ps = Ok srv \<and> heap_live srv \<and> ordered (times srv) \<and>
    srv_mem srv = srv_mem example_sessions \<and> mset (entries srv) = mset ps"
  using assms
proof (induction ps rule: rev_induct)
  case Nil
  then show ?case
    using example_heap_live by (simp add: example_timeouts_def ordered_def times_def)
next
  case (snoc p ps)
  then obtain srv where srv: "example_timeouts ps = Ok srv" "heap_live srv" "ordered (times srv)"
    "srv_mem srv = srv_mem example_sessions" "mset (entries srv) = mset ps" by auto
  have live: "srv_mem srv p \<noteq> None"
    using snoc.prems unfolding srv(4) by (auto simp: example_sessions_def)
  obtain srv' where srv': "sas_server_timeout_add srv p = Ok srv'" "heap_live srv'"
      "mset (entries srv') = add_mset p (mset (entries srv))" "ordered (times srv')"
      "srv' = srv\<lparr>th_count := th_count srv', th_capacity := th_capacity srv', th_heap := th_heap srv'\<rparr>"
    using timeout_add_spec [OF srv(2) live] srv(3) by blast
  have "srv_mem srv' = srv_mem example_sessions"
    by (subst srv'(5)) (simp add: srv(4))
  moreover have "example_timeouts (ps @ [p]) = Ok srv'"
    using srv(1) srv'(1) by (simp add: example_timeouts_def)
  ultimately show ?case
    using srv' srv(5) by simp
qed

section \<open>Properties\<close>

text \<open>C22. Adding an allocated session to a heap of allocated sessions ends
  without a fault, also where the array has to grow: the entries are those
  there were and the new one, the order of a heap is kept, and nothing but the
  heap changes.\<close>

theorem timeout_add_keeps_heap:
  assumes "heap_live srv" "ordered (times srv)" "allocated srv p"
  shows "\<exists>srv'. sas_server_timeout_add srv p = Ok srv' \<and> heap_live srv' \<and> ordered (times srv') \<and>
    mset (entries srv') = add_mset p (mset (entries srv)) \<and>
    srv' = srv\<lparr>th_count := th_count srv', th_capacity := th_capacity srv', th_heap := th_heap srv'\<rparr>"
  using timeout_add_spec [OF assms(1,3)] assms(2) by blast

theorem timeout_add_keeps_heap_witness:
  "\<exists>srv'. sas_server_timeout_add example_sessions 2 = Ok srv' \<and> ordered (times srv') \<and>
    mset (entries srv') = {#2#}"
  using timeout_add_keeps_heap [OF example_heap_live(1), of 2] example_heap_live(2)
  by (auto simp: ordered_def times_def example_sessions_def)

text \<open>C25. Taking an entry from a heap that is in order and not empty ends
  without a fault: it gives the session that expires first, and the entries
  that are left are the others.\<close>

theorem timeout_pop_takes_minimum:
  assumes "heap_live srv" "ordered (times srv)" "entries srv \<noteq> []"
  shows "\<exists>p srv'. sas_server_timeout_pop srv = Ok (Some p, srv') \<and> heap_live srv' \<and>
    mset (entries srv) = add_mset p (mset (entries srv')) \<and>
    list_all (\<lambda>q. timeout_of srv p \<le> timeout_of srv q) (entries srv) \<and> srv_mem srv' = srv_mem srv"
proof -
  have "0 < th_count srv"
    using assms(3) length_entries [OF assms(1)] by (cases "th_count srv") auto
  from timeout_pop_spec [OF assms(1) this]
  obtain srv' where srv': "sas_server_timeout_pop srv = Ok (Some (hd (entries srv)), srv')" "heap_live srv'"
    "mset (entries srv) = add_mset (hd (entries srv)) (mset (entries srv'))"
    "srv' = srv\<lparr>th_count := th_count srv - 1, th_heap := th_heap srv'\<rparr>"
    by blast
  have "srv_mem srv' = srv_mem srv"
    by (subst srv'(4)) simp
  then show ?thesis
    using srv'(1-3) timeout_pop_minimum [OF assms(1,2)] by (auto simp: list_all_iff)
qed

theorem timeout_pop_takes_minimum_witness:
  "\<exists>srv p srv'. example_timeouts [1, 2] = Ok srv \<and> sas_server_timeout_pop srv = Ok (Some p, srv') \<and>
    timeout_of srv p \<le> timeout_of srv 2"
proof -
  obtain srv where srv: "example_timeouts [1, 2] = Ok srv" "heap_live srv" "ordered (times srv)"
    "mset (entries srv) = mset [1, 2]"
    using example_timeouts_ok [of "[1, 2]"] by auto
  then have "set (entries srv) = set [1, 2]"
    by (intro mset_eq_setD)
  then have "entries srv \<noteq> []" "2 \<in> set (entries srv)"
    by auto
  with timeout_pop_takes_minimum [OF srv(2,3)] srv(1) show ?thesis
    by (auto simp: list_all_iff)
qed

text \<open>C26. No entry is lost or made up: popping as often as there are entries
  gives every entry as often as it was added, and leaves the heap empty,
  whatever the order of the heap is.\<close>

theorem timeouts_all_popped:
  assumes "heap_live srv"
  shows "\<exists>ps srv'. pop_all sas_server_timeout_pop (th_count srv) srv = Ok (ps, srv') \<and>
    mset ps = mset (entries srv) \<and> entries srv' = [] \<and> heap_live srv'"
  using timeouts.pop_all_bag [OF assms, of "th_count srv"] length_entries [OF assms] by auto

theorem timeouts_all_popped_witness:
  "\<exists>srv ps srv'. example_timeouts [3, 1, 1, 0] = Ok srv \<and>
    pop_all sas_server_timeout_pop (th_count srv) srv = Ok (ps, srv') \<and> mset ps = {#0, 1, 1, 3#}"
proof -
  obtain srv where srv: "example_timeouts [3, 1, 1, 0] = Ok srv" "heap_live srv"
    "mset (entries srv) = mset [3, 1, 1, 0]"
    using example_timeouts_ok [of "[3, 1, 1, 0]"] by auto
  with timeouts_all_popped [OF srv(2)] show ?thesis by auto
qed

text \<open>The heap does not stay in order: of four sessions added to an empty
  heap, the one that expires at time 3 is popped before the one that expires
  at time 2, since the heap sinks an entry to the left where the right child
  is the lower one.\<close>

lemma timeouts_popped_out_of_order:
  "\<exists>srv srv'. example_timeouts [0, 1, 2, 3] = Ok srv \<and> ordered (times srv) \<and>
    pop_all sas_server_timeout_pop 4 srv = Ok ([0, 1, 2, 3], srv') \<and>
    map (timeout_of srv) [0, 1, 2, 3] = [1, 3, 2, 4]"
proof -
  obtain srv where srv: "example_timeouts [0, 1, 2, 3] = Ok srv" "heap_live srv" "ordered (times srv)"
    "srv_mem srv = srv_mem example_sessions" "mset (entries srv) = mset [0, 1, 2, 3]"
    using example_timeouts_ok [of "[0, 1, 2, 3]"] by auto
  have "size (mset (entries srv)) = 4"
    unfolding srv(5) by simp
  then obtain ps srv' where pops: "pop_all sas_server_timeout_pop 4 srv = Ok (ps, srv')"
    using timeouts.pop_all_bag [OF srv(2), of 4] by auto
  have "(case and_then (example_timeouts [0, 1, 2, 3]) (pop_all sas_server_timeout_pop 4) of
      Ok r \<Rightarrow> fst r | Fault e \<Rightarrow> []) = [0, 1, 2, 3]"
    by code_simp
  with pops srv(1) have "ps = [0, 1, 2, 3]"
    by simp
  moreover have "map (timeout_of srv) [0, 1, 2, 3] = [1, 3, 2, 4]"
    by (simp add: timeout_of_def srv(4) example_sessions_def)
  ultimately show ?thesis
    using srv(1,3) pops by (intro exI [of _ srv] exI [of _ srv']) simp
qed

end
