(* ===== verification/Session.thy ===== *)
theory Session
  imports Timeout_Heap
begin

text \<open>
  A session's packets and state machine (second half of
  \<open>sas-server/src/session.c\<close>, and \<open>sas-server/src/sink.c\<close>): sending on a
  session, the sink that sends the chunks of the stream, and what a received packet does.
\<close>

section \<open>Sending\<close>

text \<open>\<open>payload\<close> are the bytes behind the header in the sender's memory.\<close>

definition sas_server_session_send ::
    "server \<Rightarrow> sid \<Rightarrow> header \<Rightarrow> bytes \<Rightarrow> (i32 \<times> server) res" where
  "sas_server_session_send srv p packet payload =
     and_then (session_at p srv) (\<lambda>s.
     let packet1 = packet\<lparr>hd_seq := s_seq s, hd_ack := s_ack s, hd_reserved := 0,
           hd_window := s_receive_window s\<rparr>;
         srv1 = set_session p (s\<lparr>s_seq := s_seq s + seq_step (hd_length packet)\<rparr>) srv
     in if length payload < unat (hd_length packet) then Fault Out_Of_Bounds
        else Ok (os_send (s_addr s)
          \<lparr>pk_header = header_encode packet1, pk_payload = take (unat (hd_length packet)) payload\<rparr> srv1))"

text \<open>The length field has 16 bits and is assigned a \<open>size_t\<close>.\<close>

definition sas_server_session_send_chunk :: "server \<Rightarrow> sid \<Rightarrow> sas_chunk \<Rightarrow> (i32 \<times> server) res" where
  "sas_server_session_send_chunk srv p chunk =
     (let size = ck_size chunk
      in if length (ck_buffer chunk) < size then Fault Out_Of_Bounds
         else sas_server_session_send srv p (packet_header 0 (of_nat size)) (take size (ck_buffer chunk)))"

definition sas_server_session_reset :: "server \<Rightarrow> sid \<Rightarrow> bool \<Rightarrow> (i32 \<times> server) res" where
  "sas_server_session_reset srv p fin =
     sas_server_session_send srv p
       (packet_header (if fin then FLAG_RST OR FLAG_FIN else FLAG_RST) 0) []"

definition sas_server_session_error :: "server \<Rightarrow> sid \<Rightarrow> i32 \<Rightarrow> (i32 \<times> server) res" where
  "sas_server_session_error srv p code =
     sas_server_session_send srv p (packet_header (FLAG_RST OR FLAG_ERR) (of_nat sizeof_err))
       (err_image [] (err_encode \<lparr>err_code = code\<rparr>))"

text \<open>The padding at the end of the configuration holds what the stack held.\<close>

definition stack_byte :: "server \<Rightarrow> u8" where
  "stack_byte srv = (case srv_stack srv of [] \<Rightarrow> 0 | b # bs \<Rightarrow> b)"

definition sas_server_session_syn_ack :: "server \<Rightarrow> sid \<Rightarrow> (i32 \<times> server) res" where
  "sas_server_session_syn_ack srv p =
     and_then (session_at p srv) (\<lambda>s.
     sas_server_session_send srv p (packet_header (FLAG_SYN OR FLAG_ACK) (of_nat sizeof_cfg_ack))
       (cfg_ack_image [stack_byte srv] (cfg_ack_encode
         \<lparr>ca_sample_rate = s_sample_rate s, ca_sample_size = s_sample_size s,
          ca_channels = s_channels s, ca_codec = s_codec s\<rparr>)))"

section \<open>The sink of a session\<close>

text \<open>The sink's callbacks work on the server, which is the environment of the pipeline.\<close>

definition on_server :: "(server \<Rightarrow> server res) \<Rightarrow> server wav_rx \<Rightarrow> server wav_rx res" where
  "on_server f s = and_then (f (wenv s)) (\<lambda>srv. Ok (s\<lparr>wenv := srv\<rparr>))"

definition unit_of :: "(i32 \<times> server) res \<Rightarrow> server res" where
  "unit_of r = and_then r (\<lambda>(err, srv). Ok srv)"

definition session_sink_logic :: "sid \<Rightarrow> server wav_rx inlet \<Rightarrow> (sas_chunk, server wav_rx) sink_logic" where
  "session_sink_logic p i =
     \<lparr>on_connect = on_server (update_session p (\<lambda>s. s\<lparr>s_sink_logic := True\<rparr>)),
      on_push = (\<lambda>chunk. on_server (\<lambda>srv. unit_of (sas_server_session_send_chunk srv p chunk))),
      on_upstream_finish = on_server (\<lambda>srv. unit_of (sas_server_session_reset srv p True)),
      on_upstream_failure = on_server (\<lambda>srv. unit_of (sas_server_session_error srv p (os_errno srv)))\<rparr>"

definition sas_server_session_sink :: "sid \<Rightarrow> (sas_chunk, server wav_rx) sink" where
  "sas_server_session_sink p = \<lparr>create_logic = (\<lambda>s. s), logic_of = session_sink_logic p\<rparr>"

section \<open>The pipeline of a session\<close>

text \<open>
  A pull runs one task of the worker, which finds the queue empty in the second round
  of its loop, and calls through the connection nest once, as the sink does
  not pull.
\<close>

definition session_depth :: nat where "session_depth = 1"
definition session_rounds :: nat where "session_rounds = 2"

definition session_pipeline :: "sid \<Rightarrow> (sas_chunk, server wav_rx) pipeline" where
  "session_pipeline p = rxc_source_to (wav_source session_depth) (sas_server_session_sink p)"

text \<open>The inlet of the connection, and \<open>session->sink_logic->in\<close>, which schedules its pulls.\<close>

definition session_parent :: "sid \<Rightarrow> server wav_rx inlet" where
  "session_parent p =
     conn_inlet wav_source_logic (pipeline_sink_logic session_rounds (session_sink_logic p)) session_depth"

definition session_inlet :: "sid \<Rightarrow> server wav_rx inlet" where
  "session_inlet p = pipeline_inlet_create session_rounds (session_parent p)"

text \<open>Running the pipeline that is stored in a session.\<close>

definition run_pipeline ::
    "sid \<Rightarrow> (server wav_rx \<Rightarrow> ('r \<times> server wav_rx) res) \<Rightarrow> server \<Rightarrow> ('r \<times> server) res" where
  "run_pipeline p f srv =
     and_then (session_at p srv) (\<lambda>s.
     and_then (deref Null_Deref (s_pipeline s)) (\<lambda>pl.
     and_then (f (pipe_with srv pl)) (\<lambda>(r, pl').
     and_then (update_session p (\<lambda>s. s\<lparr>s_pipeline := Some (pipe_with () pl')\<rparr>) (wenv pl')) (\<lambda>srv'.
     Ok (r, srv')))))"

definition session_pull :: "sid \<Rightarrow> server \<Rightarrow> server res" where
  "session_pull p srv =
     and_then (session_at p srv) (\<lambda>s.
     if \<not> s_sink_logic s then Fault Null_Deref
     else and_then (run_pipeline p
         (\<lambda>pl. and_then (rxc_inlet_pull (session_inlet p) 1 pl) (\<lambda>pl'. Ok ((), pl'))) srv)
       (\<lambda>(u, srv'). Ok srv'))"

definition new_pipe :: "wav_info \<Rightarrow> wav_pipe" where
  "new_pipe w = \<lparr>requested = 0, worker = scheduler_create_worker, in_parent = False, ws_fd = wi_fd w,
     ws_finished = wi_finished w, ws_sample_rate = wi_sample_rate w, ws_sample_size = wi_sample_size w,
     ws_channels = wi_channels w, wenv = ()\<rparr>"

section \<open>The state machine\<close>

text \<open>\<open>strndup\<close> from a place in the buffer: up to \<open>n\<close> bytes, or to the first zero byte.\<close>

definition strndup :: "bytes \<Rightarrow> nat \<Rightarrow> nat \<Rightarrow> bytes res" where
  "strndup buf off n =
     (let s = drop off buf
      in if n \<le> length s \<or> 0 \<in> set s then Ok (takeWhile (\<lambda>b. b \<noteq> 0) (take n s))
         else Fault Out_Of_Bounds)"

text \<open>\<open>header->length - sizeof(struct sas_transport_packet_cfg)\<close>, a \<open>size_t\<close>.\<close>

definition name_limit :: "header \<Rightarrow> nat" where
  "name_limit h = unat ((ucast (hd_length h) :: u64) - of_nat sizeof_cfg)"

definition session_abort :: "sid \<Rightarrow> i32 \<Rightarrow> server \<Rightarrow> server res" where
  "session_abort p err srv =
     and_then (sas_server_session_error srv p err) (\<lambda>(e, srv1). sas_server_session_delete srv1 p)"

definition session_stream :: "sid \<Rightarrow> wav_info \<Rightarrow> server \<Rightarrow> server res" where
  "session_stream p w srv =
     and_then (update_session p (\<lambda>s. s\<lparr>s_pipeline := Some (new_pipe w), s_sample_rate := wi_sample_rate w,
       s_sample_size := wi_sample_size w, s_channels := wi_channels w\<rparr>) srv) (\<lambda>srv1.
     and_then (sas_server_session_syn_ack srv1 p) (\<lambda>(e, srv2).
     and_then (update_session p (\<lambda>s. s\<lparr>s_state := STATE_SACK_SENT\<rparr>) srv2) (\<lambda>srv3.
     and_then (run_pipeline p (rxc_pipeline_start session_rounds (session_pipeline p)) srv3) (\<lambda>(err, srv4).
     if err \<noteq> 0 then session_abort p (word_of_int err) srv4 else Ok srv4))))"

definition session_open :: "sid \<Rightarrow> bytes \<Rightarrow> server \<Rightarrow> server res" where
  "session_open p name srv =
     (let (fd, srv1) = os_open name srv
      in and_then (update_session p (\<lambda>s. s\<lparr>s_fd := fd\<rparr>) srv1) (\<lambda>srv2.
         if fd < 0 then session_abort p (os_errno srv2) srv2
         else
           and_then (sas_formats_wav (srv_stack srv2) fd srv2) (\<lambda>(source, srv3).
           case source of
             None \<Rightarrow> session_abort p (os_errno srv3) srv3
           | Some w \<Rightarrow> session_stream p w srv3)))"

definition session_syn :: "sid \<Rightarrow> header \<Rightarrow> bytes \<Rightarrow> server \<Rightarrow> server res" where
  "session_syn p h buf srv =
     and_then (cfg_load (drop sizeof_header buf)) (\<lambda>cfg.
     and_then (strndup buf (sizeof_header + sizeof_cfg) (name_limit h)) (\<lambda>name.
     if cfg_codec (cfg_decode cfg) \<noteq> 0 then session_abort p EINVAL srv
     else session_open p name srv))"

text \<open>What every packet that is not an old one does to its session.\<close>

definition accept :: "header \<Rightarrow> session \<Rightarrow> session" where
  "accept h s = s\<lparr>s_send_window := hd_window h, s_ack := hd_seq h + seq_step (hd_length h)\<rparr>"

definition sas_server_session_state_machine :: "server \<Rightarrow> sid \<Rightarrow> bytes \<Rightarrow> server res" where
  "sas_server_session_state_machine srv p buf =
     and_then (header_load buf) (\<lambda>h.
     and_then (session_at p srv) (\<lambda>s.
     if hd_seq h < s_ack s then Ok srv
     else
       let s1 = accept h s;
           srv1 = set_session p s1 srv
       in if flag_isset (hd_flags h) FLAG_RST then sas_server_session_delete srv1 p
          else
            case s_state s1 of
              STATE_INITIAL \<Rightarrow>
                if \<not> flag_isset (hd_flags h) FLAG_SYN then unit_of (sas_server_session_reset srv1 p False)
                else session_syn p h buf srv1
            | STATE_SACK_SENT \<Rightarrow> session_pull p (set_session p (s1\<lparr>s_state := STATE_ESTABLSH\<rparr>) srv1)
            | STATE_ESTABLSH \<Rightarrow> session_pull p srv1
            | _ \<Rightarrow> Ok srv1))"

section \<open>Sending, in terms of the datagram\<close>

lemma os_send_set_session:
  "os_send a d (set_session p s srv) = (fst (os_send a d srv), set_session p s (snd (os_send a d srv)))"
  by (simp add: os_send_def set_session_def Let_def split: option.split)

lemma srv_mem_os_send [simp]: "srv_mem (snd (os_send a d srv)) = srv_mem (srv :: server)"
  by (simp add: os_send_def Let_def split: option.split)

lemma srv_mem_os_close [simp]: "srv_mem (os_close fd srv) = srv_mem srv"
  by (simp add: os_close_def split: option.split)

lemma os_fds_os_send [simp]: "os_fds (snd (os_send a d o')) = os_fds o'"
  by (simp add: os_send_def Let_def split: option.split)

lemma fd_open_os_send [simp]: "fd_open fd (snd (os_send a d o')) = fd_open fd o'"
  by (auto simp: os_send_def fd_open_def Let_def split: option.split)

lemma fd_open_set_session [simp]: "fd_open fd (set_session p s srv) = fd_open fd srv"
  by (simp add: fd_open_def set_session_def)

lemma file_at_set_session [simp]: "file_at fd (set_session p s srv) = file_at fd srv"
  by (simp add: file_at_def)

lemma os_set_session [simp]:
  "os_fds (set_session p s srv) = os_fds srv" "os_send_error (set_session p s srv) = os_send_error srv"
  "os_sent (set_session p s srv) = os_sent srv" "os_sends (set_session p s srv) = os_sends srv"
  "srv_stack (set_session p s srv) = srv_stack srv" "os_errno (set_session p s srv) = os_errno srv"
  "os_files (set_session p s srv) = os_files srv"
  by (simp_all add: set_session_def)

lemma session_at_simps [simp]:
  "session_at p (srv\<lparr>os_fds := fds\<rparr>) = session_at p srv"
  "session_at p (snd (os_send a d srv)) = session_at p srv"
  by (simp_all add: session_at_def)

text \<open>The packet a session sends next, with the given flags, length and payload.\<close>

definition next_packet :: "session \<Rightarrow> u8 \<Rightarrow> bytes \<Rightarrow> packet" where
  "next_packet s flags payload =
     \<lparr>pk_header = header_encode
        \<lparr>hd_seq = s_seq s, hd_ack = s_ack s, hd_reserved = 0, hd_flags = flags,
         hd_window = s_receive_window s, hd_length = of_nat (length payload)\<rparr>,
      pk_payload = payload\<rparr>"

text \<open>The server after it.\<close>

definition send_next :: "sid \<Rightarrow> session \<Rightarrow> u8 \<Rightarrow> bytes \<Rightarrow> server \<Rightarrow> i32 \<times> server" where
  "send_next p s flags payload srv =
     (let (err, srv1) = os_send (s_addr s) (next_packet s flags payload) srv
      in (err, set_session p (s\<lparr>s_seq := s_seq s + seq_step (of_nat (length payload))\<rparr>) srv1))"

lemma session_send_next:
  assumes "srv_mem srv p = Some s" "length payload < 2 ^ 16"
  shows "sas_server_session_send srv p (packet_header flags (of_nat (length payload))) payload =
    Ok (send_next p s flags payload srv)"
proof -
  have len: "unat (of_nat (length payload) :: u16) = length payload"
    using assms(2) by (simp add: unat_of_nat)
  show ?thesis
    using assms(1)
    by (simp add: sas_server_session_send_def session_at_def len next_packet_def send_next_def
        packet_header_def os_send_set_session Let_def split_beta)
qed

lemma session_send_chunk:
  assumes "srv_mem srv p = Some s" "ck_buffer chunk = payload" "ck_size chunk = length payload"
    "length payload < 2 ^ 16"
  shows "sas_server_session_send_chunk srv p chunk = Ok (send_next p s 0 payload srv)"
  using session_send_next [OF assms(1,4), of 0] assms(2,3)
  by (simp add: sas_server_session_send_chunk_def Let_def)

lemma session_reset_next:
  assumes "srv_mem srv p = Some s"
  shows "sas_server_session_reset srv p fin =
    Ok (send_next p s (if fin then FLAG_RST OR FLAG_FIN else FLAG_RST) [] srv)"
  using session_send_next [OF assms, of "[]"] by (simp add: sas_server_session_reset_def)

lemma session_error_next:
  assumes "srv_mem srv p = Some s"
  shows "sas_server_session_error srv p code =
    Ok (send_next p s (FLAG_RST OR FLAG_ERR) (err_image [] (err_encode \<lparr>err_code = code\<rparr>)) srv)"
  using session_send_next [OF assms, of "err_image [] (err_encode \<lparr>err_code = code\<rparr>)"]
  by (simp add: sas_server_session_error_def sizeof_err_def image_simps)

lemma session_syn_ack_next:
  assumes "srv_mem srv p = Some s"
  shows "sas_server_session_syn_ack srv p =
    Ok (send_next p s (FLAG_SYN OR FLAG_ACK) (cfg_ack_image [stack_byte srv] (cfg_ack_encode
      \<lparr>ca_sample_rate = s_sample_rate s, ca_sample_size = s_sample_size s,
       ca_channels = s_channels s, ca_codec = s_codec s\<rparr>)) srv)"
  using session_send_next [OF assms, of "cfg_ack_image [stack_byte srv] (cfg_ack_encode
      \<lparr>ca_sample_rate = s_sample_rate s, ca_sample_size = s_sample_size s,
       ca_channels = s_channels s, ca_codec = s_codec s\<rparr>)"] assms
  by (simp add: sas_server_session_syn_ack_def session_at_def sizeof_cfg_ack_def image_simps)

lemma send_next_simps [simp]:
  "srv_mem (snd (send_next p s flags payload srv)) =
     (srv_mem srv)(p \<mapsto> s\<lparr>s_seq := s_seq s + seq_step (of_nat (length payload))\<rparr>)"
  "fd_open fd (snd (send_next p s flags payload srv)) = fd_open fd srv"
  "os_fds (snd (send_next p s flags payload srv)) = os_fds srv"
  by (simp_all add: send_next_def split_beta)

text \<open>The parts of the server that sending and streaming leave alone.\<close>

definition frame_of :: "server \<Rightarrow>
    (sid option list \<times> nat \<times> nat) \<times> (sid option list \<times> nat \<times> int \<times> sid) \<times>
    ((nat \<Rightarrow> int) \<times> nat) \<times> ((nat \<Rightarrow> bool) \<times> bytes \<times> session) \<times>
    ((bytes \<Rightarrow> i32 + open_file) \<times> (nat \<Rightarrow> i32 option))" where
  "frame_of srv = ((th_heap srv, th_count srv, th_capacity srv),
     (ss_table srv, ss_capacity srv, ss_count srv, srv_fresh srv), (os_clock srv, os_ticks srv),
     (srv_malloc_ok srv, srv_stack srv, srv_junk srv), (os_files srv, os_send_error srv))"

lemma frame_of_simps [simp]:
  "frame_of (set_session p s srv) = frame_of srv"
  "frame_of (snd (os_send a d srv)) = frame_of srv"
  "frame_of (snd (send_next p s flags payload srv)) = frame_of srv"
  "frame_of (os_close fd srv) = frame_of srv"
  "frame_of (srv\<lparr>os_fds := fds\<rparr>) = frame_of srv" "frame_of (srv\<lparr>os_errno := e\<rparr>) = frame_of srv"
  "frame_of (srv\<lparr>srv_mem := m\<rparr>) = frame_of srv"
  by (simp_all add: frame_of_def set_session_def send_next_def os_send_def os_close_def Let_def case_prod_unfold
      split: option.split)

lemma frame_ofD:
  assumes "frame_of srv' = frame_of srv"
  shows "th_heap srv' = th_heap srv" "th_count srv' = th_count srv" "th_capacity srv' = th_capacity srv"
    "ss_table srv' = ss_table srv" "ss_capacity srv' = ss_capacity srv" "ss_count srv' = ss_count srv"
    "srv_fresh srv' = srv_fresh srv" "os_clock srv' = os_clock srv" "os_ticks srv' = os_ticks srv"
    "srv_malloc_ok srv' = srv_malloc_ok srv" "srv_stack srv' = srv_stack srv" "srv_junk srv' = srv_junk srv"
    "os_files srv' = os_files srv" "os_send_error srv' = os_send_error srv"
  using assms by (simp_all add: frame_of_def)

lemma table_ok_frame:
  "table_ok srv \<Longrightarrow> linked srv' = linked srv \<Longrightarrow> frame_of srv' = frame_of srv \<Longrightarrow> table_ok srv'"
  by (rule table_ok_linked, assumption+) (simp_all add: frame_of_def)

section \<open>One pull of a session's stream\<close>

lemma pipe_with_simps [simp]:
  "wenv (pipe_with v pl) = v" "pipe_with u (pipe_with v pl) = pipe_with u pl" "pipe_with () pl = (pl :: wav_pipe)"
  "ws_fd (pipe_with v pl) = ws_fd pl"
  by (simp_all add: pipe_with_def)

text \<open>
  A session whose stream is running: the pipeline is between two requests, and
  \<open>data\<close> are the bytes of the file that have not been read.
\<close>

definition ready_pipe :: "wav_pipe \<Rightarrow> bool" where
  "ready_pipe pl \<longleftrightarrow> requested pl = 0 \<and> (\<exists>n. worker pl = idle_worker n) \<and> in_parent pl \<and> \<not> ws_finished pl"

definition done_pipe :: "wav_pipe \<Rightarrow> bool" where
  "done_pipe pl \<longleftrightarrow> requested pl = LONG_MIN \<and> (\<exists>n. worker pl = idle_worker n) \<and> in_parent pl \<and> ws_finished pl"

lemma pull_parent:
  assumes "worker s = idle_worker n" "in_parent s"
    and leaf: "\<And>s'. inlet_pull (session_parent p) 1 (set_worker (busy_worker n 1) s) = Ok s' \<Longrightarrow>
      worker s' = busy_worker n 1"
  shows "rxc_inlet_pull (session_inlet p) 1 s =
    and_then (inlet_pull (session_parent p) 1 (set_worker (busy_worker n 1) s))
      (\<lambda>s'. Ok (set_worker (idle_worker (Suc n)) s'))"
  using rx.schedule_leaf [OF assms(1), of session_rounds "pipeline_executor (session_parent p)" 1] leaf assms(2)
  by (simp add: rxc_inlet_pull_def session_inlet_def pipeline_inlet_create_def pipeline_inlet_pull_def
      session_rounds_def pipeline_executor_def)

text \<open>
  What a pull does to the server, for the three things a read can give: a
  chunk is sent; at the end of the file the descriptor is closed and the end
  of the stream is sent; after an error that is sent, and the descriptor closed.
\<close>

definition stream_step :: "sid \<Rightarrow> session \<Rightarrow> int \<Rightarrow> open_file \<Rightarrow> server \<Rightarrow> server" where
  "stream_step p x fd f srv =
     (if f_rest f \<noteq> [] then
        snd (send_next p x 0 (take 1024 (f_rest f))
          (srv\<lparr>os_fds := (os_fds srv)[nat fd := Some (f\<lparr>f_rest := drop 1024 (f_rest f)\<rparr>)]\<rparr>))
      else
        case f_err f of
          None \<Rightarrow> snd (send_next p x (FLAG_RST OR FLAG_FIN) [] (os_close fd srv))
        | Some e \<Rightarrow> os_close fd (snd (send_next p x (FLAG_RST OR FLAG_ERR)
            (err_image [] (err_encode \<lparr>err_code = e\<rparr>)) (srv\<lparr>os_errno := e\<rparr>))))"

lemma parent_pull:
  assumes "requested s = 0" "file_at (ws_fd s) (wenv s) = f" "\<not> ws_finished s"
    and x: "srv_mem (wenv s) p = Some x"
  shows "inlet_pull (session_parent p) 1 s =
    Ok (if f_rest f \<noteq> [] then s\<lparr>requested := 0, wenv := stream_step p x (ws_fd s) f (wenv s)\<rparr>
        else s\<lparr>requested := LONG_MIN, ws_finished := True, wenv := stream_step p x (ws_fd s) f (wenv s)\<rparr>)"
proof -
  have len: "length (take 1024 bs) < 2 ^ 16" for bs :: bytes
    by simp
  note sends = session_send_chunk [OF _ _ _ len] session_reset_next session_error_next
  show ?thesis
    using assms
    by (simp add: session_parent_def session_depth_def rxc_connection_inlet_pull_def wav_source_logic_def
        wav_on_pull_one rxc_outlet_emit_def rxc_outlet_complete_def rxc_outlet_fail_def
        pipeline_sink_logic_def session_sink_logic_def on_server_def unit_of_def Let_def stream_step_def
        sends wav_chunk_def wav_close_def case_prod_unfold split: option.split)
qed

lemma srv_mem_stream_step:
  "\<exists>x'. srv_mem (stream_step p x fd f srv) = (srv_mem srv)(p \<mapsto> x') \<and>
    x' = x\<lparr>s_seq := s_seq x'\<rparr>"
  by (auto simp: stream_step_def split: option.split)

lemma fd_open_errno [simp]: "fd_open fd (srv\<lparr>os_errno := e\<rparr>) = fd_open fd srv"
  by (simp add: fd_open_def)

lemma fd_open_change:
  assumes "fd \<noteq> fd'" "0 \<le> fd'"
  shows "fd_open fd (srv\<lparr>os_fds := (os_fds srv)[nat fd' := x]\<rparr>) = fd_open fd srv"
    "fd_open fd (os_close fd' srv) = fd_open fd srv"
proof -
  show *: "fd_open fd (srv\<lparr>os_fds := (os_fds srv)[nat fd' := x]\<rparr>) = fd_open fd srv" for x
    using assms by (auto simp: fd_open_def nth_list_update)
  show "fd_open fd (os_close fd' srv) = fd_open fd srv"
    using * by (simp add: os_close_def split: option.split)
qed

lemma fd_open_stream_step:
  "fd \<noteq> fd' \<Longrightarrow> 0 \<le> fd' \<Longrightarrow> fd_open fd (stream_step p x fd' f srv) = fd_open fd srv"
  by (simp add: stream_step_def fd_open_change split: option.split)

lemma frame_of_stream_step [simp]: "frame_of (stream_step p x fd f srv) = frame_of srv"
  by (simp add: stream_step_def split: option.split)

text \<open>The pipeline after the pull is stored in the session.\<close>

definition store_pipe :: "sid \<Rightarrow> wav_pipe \<Rightarrow> server \<Rightarrow> server" where
  "store_pipe p pl srv =
     srv\<lparr>srv_mem := (srv_mem srv)(p := map_option (\<lambda>s. s\<lparr>s_pipeline := Some pl\<rparr>) (srv_mem srv p))\<rparr>"

lemma fds_store_pipe [simp]:
  "os_fds (store_pipe p pl srv) = os_fds srv" "fd_open fd (store_pipe p pl srv) = fd_open fd srv"
  by (simp_all add: store_pipe_def fd_open_def)

lemma frame_of_store_pipe [simp]: "frame_of (store_pipe p pl srv) = frame_of srv"
  by (simp add: store_pipe_def)

definition pulled_pipe :: "open_file \<Rightarrow> wav_pipe \<Rightarrow> wav_pipe" where
  "pulled_pipe f pl =
     (let pl' = pl\<lparr>worker := idle_worker (Suc (fresh (worker pl)))\<rparr>
      in if f_rest f \<noteq> [] then pl' else pl'\<lparr>requested := LONG_MIN, ws_finished := True\<rparr>)"

lemma session_pull_ready:
  assumes x: "srv_mem srv p = Some x" "s_sink_logic x" "s_pipeline x = Some pl" and pl: "ready_pipe pl"
    and f: "file_at (ws_fd pl) srv = f"
  shows "session_pull p srv = Ok (store_pipe p (pulled_pipe f pl) (stream_step p x (ws_fd pl) f srv))"
proof -
  obtain n where n: "requested pl = 0" "worker pl = idle_worker n" "in_parent pl" "\<not> ws_finished pl"
    using pl by (auto simp: ready_pipe_def)
  have w: "set_worker v (pipe_with srv pl) = pipe_with srv pl\<lparr>worker := v\<rparr>" for v
    by (simp add: set_worker_def)
  let ?s = "set_worker (busy_worker n 1) (pipe_with srv pl)"
  have parent: "inlet_pull (session_parent p) 1 ?s =
    Ok (if f_rest f \<noteq> [] then ?s\<lparr>requested := 0, wenv := stream_step p x (ws_fd pl) f srv\<rparr>
        else ?s\<lparr>requested := LONG_MIN, ws_finished := True, wenv := stream_step p x (ws_fd pl) f srv\<rparr>)"
    using parent_pull [of ?s f p x] n x(1) f by (simp add: pipe_with_def set_worker_def)
  have pull: "rxc_inlet_pull (session_inlet p) 1 (pipe_with srv pl) =
      and_then (inlet_pull (session_parent p) 1 ?s) (\<lambda>s'. Ok (set_worker (idle_worker (Suc n)) s'))"
    by (rule pull_parent) (use n parent in \<open>auto simp: pipe_with_def set_worker_def split: if_splits\<close>)
  have result: "rxc_inlet_pull (session_inlet p) 1 (pipe_with srv pl) =
      Ok (pipe_with (stream_step p x (ws_fd pl) f srv) (pulled_pipe f pl))"
    unfolding pull parent using n
    by (auto simp: pipe_with_def set_worker_def pulled_pipe_def Let_def)
  obtain x' where x': "srv_mem (stream_step p x (ws_fd pl) f srv) = (srv_mem srv)(p \<mapsto> x')"
    using srv_mem_stream_step by blast
  show ?thesis
    using x x'
    by (simp add: session_pull_def run_pipeline_def session_at_def result update_session_def
        set_session_def store_pipe_def)
qed

lemma pulled_pipe_simps:
  assumes "ready_pipe pl"
  shows "f_rest f \<noteq> [] \<Longrightarrow> ready_pipe (pulled_pipe f pl)" "f_rest f = [] \<Longrightarrow> done_pipe (pulled_pipe f pl)"
    "ws_fd (pulled_pipe f pl) = ws_fd pl"
  using assms by (auto simp: ready_pipe_def done_pipe_def pulled_pipe_def Let_def)

text \<open>A pull behind the end of the stream.\<close>

lemma session_pull_done:
  assumes x: "srv_mem srv p = Some x" "s_sink_logic x" "s_pipeline x = Some pl" and pl: "done_pipe pl"
  shows "session_pull p srv = Ok (store_pipe p (pl\<lparr>worker := idle_worker (Suc (fresh (worker pl)))\<rparr>) srv)"
proof -
  obtain n where n: "requested pl = LONG_MIN" "worker pl = idle_worker n" "in_parent pl"
    using pl by (auto simp: done_pipe_def)
  let ?s = "set_worker (busy_worker n 1) (pipe_with srv pl)"
  have parent: "inlet_pull (session_parent p) 1 ?s = Ok ?s"
    using n by (simp add: session_parent_def session_depth_def rxc_connection_inlet_pull_def
        pipe_with_def set_worker_def Let_def)
  have pull: "rxc_inlet_pull (session_inlet p) 1 (pipe_with srv pl) =
      and_then (inlet_pull (session_parent p) 1 ?s) (\<lambda>s'. Ok (set_worker (idle_worker (Suc n)) s'))"
    by (rule pull_parent) (use n parent in \<open>auto simp: pipe_with_def set_worker_def\<close>)
  have "rxc_inlet_pull (session_inlet p) 1 (pipe_with srv pl) =
      Ok (pipe_with srv (pl\<lparr>worker := idle_worker (Suc n)\<rparr>))"
    unfolding pull parent by (simp add: pipe_with_def set_worker_def)
  then show ?thesis
    using x n by (simp add: session_pull_def run_pipeline_def session_at_def update_session_def
        set_session_def store_pipe_def)
qed

section \<open>Packets of a running stream\<close>

lemma accept_simps [simp]:
  "s_addr (accept h s) = s_addr s" "s_state (accept h s) = s_state s" "s_seq (accept h s) = s_seq s"
  "s_pipeline (accept h s) = s_pipeline s" "s_sink_logic (accept h s) = s_sink_logic s"
  "s_ack (accept h s) = hd_seq h + seq_step (hd_length h)" "s_fd (accept h s) = s_fd s"
  "s_next (accept h s) = s_next s" "s_receive_window (accept h s) = s_receive_window s"
  by (simp_all add: accept_def)

lemma state_machine_old:
  assumes "header_load buf = Ok h" "srv_mem srv p = Some s" "hd_seq h < s_ack s"
  shows "sas_server_session_state_machine srv p buf = Ok srv"
  using assms by (simp add: sas_server_session_state_machine_def session_at_def)

lemma state_machine_accepts:
  assumes "header_load buf = Ok h" "srv_mem srv p = Some s" "\<not> hd_seq h < s_ack s"
  shows "sas_server_session_state_machine srv p buf =
    (let srv1 = set_session p (accept h s) srv
     in if flag_isset (hd_flags h) FLAG_RST then sas_server_session_delete srv1 p
        else
          case s_state s of
            STATE_INITIAL \<Rightarrow>
              if \<not> flag_isset (hd_flags h) FLAG_SYN then unit_of (sas_server_session_reset srv1 p False)
              else session_syn p h buf srv1
          | STATE_SACK_SENT \<Rightarrow> session_pull p (set_session p ((accept h s)\<lparr>s_state := STATE_ESTABLSH\<rparr>) srv1)
          | STATE_ESTABLSH \<Rightarrow> session_pull p srv1
          | _ \<Rightarrow> Ok srv1)"
  using assms by (simp add: sas_server_session_state_machine_def session_at_def Let_def)

definition streaming :: "session \<Rightarrow> bool" where
  "streaming s \<longleftrightarrow> s_state s = STATE_SACK_SENT \<or> s_state s = STATE_ESTABLSH"

lemma state_machine_pulls:
  assumes "header_load buf = Ok h" "srv_mem srv p = Some s" "\<not> hd_seq h < s_ack s"
    and "\<not> flag_isset (hd_flags h) FLAG_RST" "streaming s"
  shows "sas_server_session_state_machine srv p buf =
    session_pull p (set_session p ((accept h s)\<lparr>s_state := STATE_ESTABLSH\<rparr>) srv)"
proof (cases "s_state s = STATE_ESTABLSH")
  case True
  then have same: "(accept h s)\<lparr>s_state := STATE_ESTABLSH\<rparr> = accept h s"
    by (intro session.equality) simp_all
  show ?thesis
    unfolding state_machine_accepts [OF assms(1-3)] same by (simp add: assms(4) True)
next
  case False
  then show ?thesis
    using assms(4,5) unfolding state_machine_accepts [OF assms(1-3)] by (simp add: streaming_def Let_def)
qed

lemma fd_open_update:
  "fd_open fd o' = Some f \<Longrightarrow> fd_open fd (o'\<lparr>os_fds := (os_fds o')[nat fd := Some g]\<rparr>) = Some g"
  by (auto simp: fd_open_def split: if_splits)

lemma fd_open_valid: "fd_open fd o' = Some f \<Longrightarrow> 0 \<le> fd \<and> nat fd < length (os_fds o') \<and> os_fds o' ! nat fd = Some f"
  by (auto simp: fd_open_def split: if_splits)

lemma send_next_sent:
  assumes "os_send_error srv (os_sends srv) = None"
  shows "os_sent (snd (send_next p s flags payload srv)) = os_sent srv @ [(s_addr s, next_packet s flags payload)]"
  using assms by (simp add: send_next_def os_send_def set_session_def split_beta)

lemma send_next_env [simp]:
  "os_send_error (snd (send_next p s flags payload srv)) = os_send_error srv"
  by (simp add: send_next_def os_send_def set_session_def Let_def split_beta split: option.split)

lemma os_close_env [simp]:
  "os_send_error (os_close fd srv) = os_send_error srv" "os_sent (os_close fd srv) = os_sent srv"
  "os_sends (os_close fd srv) = os_sends (srv :: server)"
  by (simp_all add: os_close_def split: option.split)

text \<open>A session in the middle of a file, on a server whose sends succeed.\<close>

definition mid_stream :: "server \<Rightarrow> sid \<Rightarrow> session \<Rightarrow> bytes \<Rightarrow> bool" where
  "mid_stream srv p s data \<longleftrightarrow> srv_mem srv p = Some s \<and> streaming s \<and> s_sink_logic s \<and>
     (case s_pipeline s of
        None \<Rightarrow> False
      | Some pl \<Rightarrow> ready_pipe pl \<and> fd_open (ws_fd pl) srv = Some \<lparr>f_rest = data, f_err = None\<rparr>) \<and>
     os_send_error srv = (\<lambda>_. None)"

lemma next_packet_simps [simp]:
  "sent_seq (next_packet s flags payload) = s_seq s" "sent_ack (next_packet s flags payload) = s_ack s"
  "sent_flags (next_packet s flags payload) = flags" "pk_payload (next_packet s flags payload) = payload"
  by (simp_all add: next_packet_def sent_seq_def sent_ack_def sent_flags_def)

definition next_payload :: "bytes \<Rightarrow> bytes" where "next_payload data = take 1024 data"

definition next_flags :: "bytes \<Rightarrow> u8" where
  "next_flags data = (if data = [] then FLAG_RST OR FLAG_FIN else 0)"

lemma next_packet_ok [simp]: "length payload \<le> 1024 \<Longrightarrow> packet_ok (next_packet s flags payload)"
  by (simp add: packet_ok_def next_packet_def)

text \<open>A session whose stream has ended.\<close>

definition stream_over :: "server \<Rightarrow> sid \<Rightarrow> session \<Rightarrow> bool" where
  "stream_over srv p s \<longleftrightarrow> srv_mem srv p = Some s \<and> streaming s \<and> s_sink_logic s \<and>
     (case s_pipeline s of None \<Rightarrow> False | Some pl \<Rightarrow> done_pipe pl)"

text \<open>The descriptor that a session's source reads.\<close>

definition pipe_fd :: "session \<Rightarrow> int option" where
  "pipe_fd s = map_option ws_fd (s_pipeline s)"

lemma mid_stream_step:
  assumes m: "mid_stream srv p s data"
    and h: "header_load buf = Ok h" "\<not> hd_seq h < s_ack s" "\<not> flag_isset (hd_flags h) FLAG_RST"
  shows "\<exists>srv' s'. sas_server_session_state_machine srv p buf = Ok srv' \<and> srv_mem srv' p = Some s' \<and>
    os_sent srv' = os_sent srv @ [(s_addr s, next_packet ((accept h s)) (next_flags data) (next_payload data))] \<and>
    s_addr s' = s_addr s \<and> s_seq s' = s_seq s + seq_step (of_nat (length (next_payload data))) \<and>
    s_ack s' = hd_seq h + seq_step (hd_length h) \<and> s_state s' = STATE_ESTABLSH \<and> s_next s' = s_next s \<and>
    (data = [] \<longrightarrow> stream_over srv' p s') \<and> (data \<noteq> [] \<longrightarrow> mid_stream srv' p s' (drop 1024 data)) \<and>
    frame_of srv' = frame_of srv \<and> srv_mem srv' = (srv_mem srv)(p \<mapsto> s') \<and>
    s_receive_window s' = s_receive_window s \<and> pipe_fd s' = pipe_fd s \<and>
    (\<forall>fd. pipe_fd s \<noteq> Some fd \<longrightarrow> fd_open fd srv' = fd_open fd srv)"
proof -
  obtain pl where pl: "s_pipeline s = Some pl" "ready_pipe pl"
    "fd_open (ws_fd pl) srv = Some \<lparr>f_rest = data, f_err = None\<rparr>"
    using m by (auto simp: mid_stream_def split: option.splits)
  have s: "srv_mem srv p = Some s" "streaming s" "s_sink_logic s" "os_send_error srv = (\<lambda>_. None)"
    using m by (simp_all add: mid_stream_def)
  let ?s1 = "(accept h s)\<lparr>s_state := STATE_ESTABLSH\<rparr>" and ?f = "\<lparr>f_rest = data, f_err = None\<rparr>"
  let ?srv1 = "set_session p ?s1 srv"
  let ?srv2 = "stream_step p ?s1 (ws_fd pl) ?f ?srv1"
  let ?srv' = "store_pipe p (pulled_pipe ?f pl) ?srv2"
  have run: "sas_server_session_state_machine srv p buf = Ok ?srv'"
    unfolding state_machine_pulls [OF h(1) s(1) h(2,3) s(2)]
    by (rule session_pull_ready) (use s pl in auto)
  have env: "os_send_error ?srv1 = (\<lambda>_. None)" "os_sent ?srv1 = os_sent srv"
    "fd_open (ws_fd pl) ?srv1 = Some ?f"
    using s pl by simp_all
  have same: "next_packet ?s1 fl bs = next_packet (accept h s) fl bs" for fl bs
    by (simp add: next_packet_def)
  have sent: "os_sent ?srv2 = os_sent srv @ [(s_addr s, next_packet (accept h s) (next_flags data) (next_payload data))]"
    using env by (simp add: stream_step_def send_next_sent next_flags_def next_payload_def same)
  obtain x' where x': "srv_mem ?srv2 = (srv_mem ?srv1)(p \<mapsto> x')" "x' = ?s1\<lparr>s_seq := s_seq x'\<rparr>"
    using srv_mem_stream_step [of p ?s1 "ws_fd pl" ?f ?srv1] by (elim exE conjE)
  have seq: "s_seq x' = s_seq s + seq_step (of_nat (length (next_payload data)))"
  proof -
    have "srv_mem ?srv2 p = Some (?s1\<lparr>s_seq := s_seq s + seq_step (of_nat (length (next_payload data)))\<rparr>)"
      by (simp add: stream_step_def next_payload_def)
    then show ?thesis using x'(1) by simp
  qed
  let ?s' = "x'\<lparr>s_pipeline := Some (pulled_pipe ?f pl)\<rparr>"
  have mem: "srv_mem ?srv' p = Some ?s'"
    using x'(1) by (simp add: store_pipe_def)
  have proj: "s_addr x' = s_addr s" "s_ack x' = hd_seq h + seq_step (hd_length h)"
    "s_state x' = STATE_ESTABLSH" "s_sink_logic x' = s_sink_logic s" "s_next x' = s_next s"
    "s_receive_window x' = s_receive_window s"
    by (subst x'(2), simp)+
  have fd: "pipe_fd ?s' = pipe_fd s"
    using pl by (simp add: pipe_fd_def pulled_pipe_simps(3))
  have fds: "\<forall>fd. pipe_fd s \<noteq> Some fd \<longrightarrow> fd_open fd ?srv' = fd_open fd srv"
    using fd_open_stream_step [of _ "ws_fd pl" p ?s1 ?f ?srv1] pl(1) fd_open_valid [OF pl(3)]
    by (auto simp: pipe_fd_def)
  have mem_all: "srv_mem ?srv' = (srv_mem srv)(p \<mapsto> ?s')"
    using x'(1) by (simp add: store_pipe_def)
  have "mid_stream ?srv' p ?s' (drop 1024 data)" if d: "data \<noteq> []"
  proof -
    have "fd_open (ws_fd pl) ?srv' = fd_open (ws_fd pl) ?srv2"
      by (simp add: store_pipe_def fd_open_def)
    also have "\<dots> = Some \<lparr>f_rest = drop 1024 data, f_err = None\<rparr>"
      using d fd_open_update [OF env(3), of "\<lparr>f_rest = drop 1024 data, f_err = None\<rparr>"]
      by (simp add: stream_step_def)
    finally have "fd_open (ws_fd pl) ?srv' = Some \<lparr>f_rest = drop 1024 data, f_err = None\<rparr>" .
    moreover have "os_send_error ?srv' = (\<lambda>_. None)"
      using d env(1) by (simp add: store_pipe_def stream_step_def)
    ultimately show ?thesis
      using mem proj s(3) d pulled_pipe_simps [OF pl(2), of ?f]
      by (simp add: mid_stream_def streaming_def)
  qed
  moreover have "stream_over ?srv' p ?s'" if "data = []"
    using mem proj s(3) pulled_pipe_simps(2) [OF pl(2), of ?f] that
    by (simp add: stream_over_def streaming_def)
  moreover have "os_sent ?srv' = os_sent ?srv2"
    by (simp add: store_pipe_def)
  ultimately show ?thesis
    using run mem_all sent proj seq fd fds by (intro exI [of _ ?srv'] exI [of _ ?s']) simp
qed

section \<open>A whole file\<close>

text \<open>The server's part of a stream: the packets a session receives, one after the other.\<close>

primrec receive_packets :: "sid \<Rightarrow> bytes list \<Rightarrow> server \<Rightarrow> server res" where
  "receive_packets p [] srv = Ok srv"
| "receive_packets p (buf # bufs) srv =
     and_then (sas_server_session_state_machine srv p buf) (receive_packets p bufs)"

text \<open>Packets that arrive in order behind the acknowledgement number \<open>ack\<close>, without a reset.\<close>

fun packets_ok :: "u32 \<Rightarrow> bytes list \<Rightarrow> bool" where
  "packets_ok ack [] \<longleftrightarrow> True"
| "packets_ok ack (buf # bufs) \<longleftrightarrow>
     (case header_load buf of
        Fault e \<Rightarrow> False
      | Ok h \<Rightarrow> \<not> hd_seq h < ack \<and> \<not> flag_isset (hd_flags h) FLAG_RST \<and>
          packets_ok (hd_seq h + seq_step (hd_length h)) bufs)"

text \<open>The chunks of a file, and the packets they make: payloads, flags and sequence numbers.\<close>

function chunks :: "bytes \<Rightarrow> bytes list" where
  "chunks data = (if data = [] then [] else take 1024 data # chunks (drop 1024 data))"
  by pat_completeness auto
termination
  by (relation "measure length") auto

declare chunks.simps [simp del]

lemma chunks_simps [simp]:
  "chunks [] = []" "data \<noteq> [] \<Longrightarrow> chunks data = take 1024 data # chunks (drop 1024 data)"
  by (simp_all add: chunks.simps [of data] chunks.simps [of "[]"])

lemma concat_chunks: "concat (chunks data) = data"
proof (induction data rule: chunks.induct)
  case (1 data)
  then show ?case by (cases "data = []") simp_all
qed

lemma stream_packets:
  assumes "mid_stream srv p s data" "packets_ok (s_ack s) bufs" "length bufs \<le> length (chunks data) + 1"
  shows "\<exists>srv' ds. receive_packets p bufs srv = Ok srv' \<and>
    os_sent srv' = os_sent srv @ map (Pair (s_addr s)) ds \<and>
    map pk_payload ds = take (length bufs) (chunks data @ [[]]) \<and>
    map sent_flags ds = take (length bufs) (replicate (length (chunks data)) 0 @ [FLAG_RST OR FLAG_FIN]) \<and>
    numbered (s_seq s) ds"
  using assms
proof (induction bufs arbitrary: srv s data)
  case Nil
  then show ?case by simp
next
  case (Cons buf bufs)
  obtain h where h: "header_load buf = Ok h" "\<not> hd_seq h < s_ack s" "\<not> flag_isset (hd_flags h) FLAG_RST"
    "packets_ok (hd_seq h + seq_step (hd_length h)) bufs"
    using Cons.prems(2) by (auto split: res.splits)
  obtain srv1 s1 where step: "sas_server_session_state_machine srv p buf = Ok srv1"
    "os_sent srv1 = os_sent srv @ [(s_addr s, next_packet (accept h s) (next_flags data) (next_payload data))]"
    "s_addr s1 = s_addr s" "s_seq s1 = s_seq s + seq_step (of_nat (length (next_payload data)))"
    "s_ack s1 = hd_seq h + seq_step (hd_length h)"
    "data \<noteq> [] \<longrightarrow> mid_stream srv1 p s1 (drop 1024 data)"
    using mid_stream_step [OF Cons.prems(1) h(1-3)] by blast
  show ?case
  proof (cases "data = []")
    case True
    then have "bufs = []"
      using Cons.prems(3) by simp
    then show ?thesis
      using step True
      by (intro exI [of _ srv1] exI [of _ "[next_packet (accept h s) (next_flags data) (next_payload data)]"])
        (simp add: next_flags_def next_payload_def)
  next
    case False
    have "mid_stream srv1 p s1 (drop 1024 data)" "packets_ok (s_ack s1) bufs"
      "length bufs \<le> length (chunks (drop 1024 data)) + 1"
      using step False h(4) Cons.prems(3) by simp_all
    then obtain srv' ds where ih: "receive_packets p bufs srv1 = Ok srv'"
      "os_sent srv' = os_sent srv1 @ map (Pair (s_addr s1)) ds"
      "map pk_payload ds = take (length bufs) (chunks (drop 1024 data) @ [[]])"
      "map sent_flags ds = take (length bufs)
        (replicate (length (chunks (drop 1024 data))) 0 @ [FLAG_RST OR FLAG_FIN])"
      "numbered (s_seq s1) ds"
      using Cons.IH by blast
    then show ?thesis
      using step False
      by (intro exI [of _ srv']
          exI [of _ "next_packet (accept h s) (next_flags data) (next_payload data) # ds"])
        (simp add: next_flags_def next_payload_def)
  qed
qed

section \<open>Starting a stream, and refusing one\<close>

lemma send_next_table [simp]:
  "ss_table (snd (send_next p s flags payload srv)) = ss_table srv"
  "ss_capacity (snd (send_next p s flags payload srv)) = ss_capacity srv"
  "ss_count (snd (send_next p s flags payload srv)) = ss_count srv"
  "srv_fresh (snd (send_next p s flags payload srv)) = srv_fresh srv"
  "srv_stack (snd (send_next p s flags payload srv)) = srv_stack srv"
  by (simp_all add: send_next_def os_send_def set_session_def Let_def split_beta split: option.split)

lemma set_session_table [simp]:
  "ss_table (set_session p s srv) = ss_table srv" "ss_capacity (set_session p s srv) = ss_capacity srv"
  "ss_count (set_session p s srv) = ss_count srv" "srv_fresh (set_session p s srv) = srv_fresh srv"
  by (simp_all add: set_session_def)

text \<open>Changing a session but for its address and link keeps the table in order.\<close>

lemma table_ok_set_session:
  assumes "table_ok srv" "srv_mem srv p = Some s" "s_addr t = s_addr s" "s_next t = s_next s"
  shows "table_ok (set_session p t srv)"
  using assms(1) by (rule table_ok_linked) (use assms in \<open>auto simp: linked_def fun_eq_iff\<close>)

lemma table_ok_send_next:
  assumes "table_ok srv" "srv_mem srv p = Some s" "s_addr t = s_addr s" "s_next t = s_next s"
  shows "table_ok (snd (send_next p t flags payload srv))"
  using assms(1) by (rule table_ok_linked) (use assms in \<open>auto simp: linked_def fun_eq_iff\<close>)

text \<open>An error is sent and the session deleted.\<close>

lemma session_abort_spec:
  assumes "table_ok srv" "srv_mem srv p = Some s" "os_send_error srv (os_sends srv) = None"
  shows "\<exists>srv'. session_abort p err srv = Ok srv' \<and> table_ok srv' \<and>
    contents srv' = (contents srv)(p := None) \<and> ss_count srv' = ss_count srv - 1 \<and>
    os_sent srv' = os_sent srv @ [(s_addr s, next_packet s (FLAG_RST OR FLAG_ERR)
      (err_image [] (err_encode \<lparr>err_code = err\<rparr>)))]"
proof -
  let ?srv = "snd (send_next p s (FLAG_RST OR FLAG_ERR) (err_image [] (err_encode \<lparr>err_code = err\<rparr>)) srv)"
  have ok: "table_ok ?srv"
    using table_ok_send_next [OF assms(1,2)] by simp
  obtain t where t: "srv_mem ?srv p = Some t"
    by simp
  obtain cs where rep: "table_rep ?srv cs"
    using ok by (auto simp: table_ok_def)
  obtain srv' where srv': "sas_server_session_delete ?srv p = Ok srv'" "table_ok srv'"
    "contents srv' = (contents ?srv)(p := None)"
    using sessions.del_live [OF ok, of p] t by (auto simp: contents_def)
  moreover have "os_sent srv' = os_sent ?srv" "ss_count srv' = ss_count ?srv - 1"
    using session_delete_live [OF rep t] srv'(1) by auto
  moreover have "(contents ?srv)(p := None) = (contents srv)(p := None)"
    by (auto simp: contents_def fun_eq_iff)
  moreover have "os_sent ?srv = os_sent srv @ [(s_addr s, next_packet s (FLAG_RST OR FLAG_ERR)
      (err_image [] (err_encode \<lparr>err_code = err\<rparr>)))]"
    by (rule send_next_sent) (rule assms(3))
  ultimately show ?thesis
    by (simp add: session_abort_def session_error_next [OF assms(2)] case_prod_unfold)
qed

lemma start_pipe:
  assumes "srv_mem srv p = Some x"
  shows "rxc_pipeline_start session_rounds (session_pipeline p) (pipe_with srv (new_pipe w)) =
    Ok (0, pipe_with (set_session p (x\<lparr>s_sink_logic := True\<rparr>) srv) ((new_pipe w)\<lparr>in_parent := True\<rparr>))"
  using assms
  by (simp add: pipeline_defs session_pipeline_def wav_source_def sas_server_session_sink_def
      session_sink_logic_def on_server_def update_session_def session_at_def rxc_connection_create_def
      set_worker_def pipe_with_def new_pipe_def RXC_EOK_def)

lemma stack_byte_set_session [simp]: "stack_byte (set_session p s srv) = stack_byte srv"
  by (simp add: stack_byte_def)

text \<open>The session when its stream has started, before and behind the configuration packet.\<close>

definition stream_begun :: "wav_info \<Rightarrow> session \<Rightarrow> session" where
  "stream_begun w s = s\<lparr>s_pipeline := Some (new_pipe w), s_sample_rate := wi_sample_rate w,
     s_sample_size := wi_sample_size w, s_channels := wi_channels w\<rparr>"

definition stream_started :: "wav_info \<Rightarrow> session \<Rightarrow> session" where
  "stream_started w s = (stream_begun w s)\<lparr>s_seq := s_seq s + 8, s_state := STATE_SACK_SENT,
     s_sink_logic := True, s_pipeline := Some ((new_pipe w)\<lparr>in_parent := True\<rparr>)\<rparr>"

definition stream_config :: "wav_info \<Rightarrow> session \<Rightarrow> server \<Rightarrow> bytes" where
  "stream_config w s srv = cfg_ack_image [stack_byte srv] (cfg_ack_encode
     \<lparr>ca_sample_rate = wi_sample_rate w, ca_sample_size = wi_sample_size w,
      ca_channels = wi_channels w, ca_codec = s_codec s\<rparr>)"

lemma session_stream_run:
  assumes s: "srv_mem srv p = Some s"
  shows "session_stream p w srv = Ok (set_session p (stream_started w s)
    (snd (send_next p (stream_begun w s) (FLAG_SYN OR FLAG_ACK) (stream_config w s srv)
      (set_session p (stream_begun w s) srv))))"
proof -
  let ?s1 = "stream_begun w s" and ?cfg = "stream_config w s srv"
  let ?srv1 = "set_session p ?s1 srv"
  let ?srv2 = "snd (send_next p ?s1 (FLAG_SYN OR FLAG_ACK) ?cfg ?srv1)"
  let ?s2 = "?s1\<lparr>s_seq := s_seq ?s1 + 8, s_state := STATE_SACK_SENT\<rparr>"
  let ?srv3 = "set_session p ?s2 ?srv2"
  have step: "seq_step (of_nat (length ?cfg)) = 8"
    by (simp add: stream_config_def image_simps seq_step_def)
  have ack: "sas_server_session_syn_ack ?srv1 p = Ok (send_next p ?s1 (FLAG_SYN OR FLAG_ACK) ?cfg ?srv1)"
    using session_syn_ack_next [of ?srv1 p ?s1] by (simp add: stream_config_def stream_begun_def)
  have begun: "update_session p (\<lambda>s. s\<lparr>s_pipeline := Some (new_pipe w), s_sample_rate := wi_sample_rate w,
      s_sample_size := wi_sample_size w, s_channels := wi_channels w\<rparr>) srv = Ok ?srv1"
    using s by (simp add: update_session_def session_at_def stream_begun_def)
  have sent: "update_session p (\<lambda>s. s\<lparr>s_state := STATE_SACK_SENT\<rparr>) ?srv2 = Ok ?srv3"
    by (simp add: update_session_def session_at_def step)
  have "run_pipeline p (rxc_pipeline_start session_rounds (session_pipeline p)) ?srv3 =
      Ok (0, set_session p (stream_started w s) ?srv2)"
    using start_pipe [of ?srv3 p ?s2 w]
    by (simp add: run_pipeline_def session_at_def update_session_def stream_started_def stream_begun_def)
  then show ?thesis
    unfolding session_stream_def begun by (simp add: ack case_prod_unfold sent)
qed

lemma session_stream_spec:
  assumes s: "srv_mem srv p = Some s" and send: "os_send_error srv = (\<lambda>_. None)"
    and f: "fd_open (wi_fd w) srv = Some \<lparr>f_rest = data, f_err = None\<rparr>" and w: "\<not> wi_finished w"
  shows "\<exists>srv' s'. session_stream p w srv = Ok srv' \<and> mid_stream srv' p s' data \<and>
    s_state s' = STATE_SACK_SENT \<and> s_addr s' = s_addr s \<and> s_seq s' = s_seq s + 8 \<and> s_ack s' = s_ack s \<and>
    s_next s' = s_next s \<and> frame_of srv' = frame_of srv \<and> srv_mem srv' = (srv_mem srv)(p \<mapsto> s') \<and>
    os_sent srv' = os_sent srv @ [(s_addr s, next_packet s (FLAG_SYN OR FLAG_ACK)
      (cfg_ack_image [stack_byte srv] (cfg_ack_encode
        \<lparr>ca_sample_rate = wi_sample_rate w, ca_sample_size = wi_sample_size w,
         ca_channels = wi_channels w, ca_codec = s_codec s\<rparr>)))] \<and>
    map_option ws_fd (s_pipeline s') = Some (wi_fd w) \<and> s_receive_window s' = s_receive_window s \<and>
    os_fds srv' = os_fds srv"
  unfolding stream_config_def [symmetric]
proof (intro exI conjI)
  let ?srv2 = "snd (send_next p (stream_begun w s) (FLAG_SYN OR FLAG_ACK) (stream_config w s srv)
    (set_session p (stream_begun w s) srv))"
  show "session_stream p w srv = Ok (set_session p (stream_started w s) ?srv2)"
    by (rule session_stream_run [OF s])
  show "mid_stream (set_session p (stream_started w s) ?srv2) p (stream_started w s) data"
    using send f w
    by (auto simp: mid_stream_def streaming_def ready_pipe_def new_pipe_def create_is_idle stream_started_def)
  show "os_sent (set_session p (stream_started w s) ?srv2) =
      os_sent srv @ [(s_addr s, next_packet s (FLAG_SYN OR FLAG_ACK) (stream_config w s srv))]"
    using send by (simp add: send_next_sent stream_begun_def next_packet_def)
qed (simp_all add: stream_started_def stream_begun_def new_pipe_def)

text \<open>A file that can be opened, at the lowest descriptor that is free, and one that cannot.\<close>

lemma os_open_free:
  assumes "os_files o' path = Inr f"
  shows "\<exists>fd o1. os_open path o' = (fd, o1) \<and> 0 \<le> fd \<and> fd_open fd o1 = Some f \<and>
    o1 = o'\<lparr>os_fds := os_fds o1\<rparr> \<and> fd = int (lowest_free (os_fds o')) \<and>
    (\<forall>fd' g. fd_open fd' o' = Some g \<longrightarrow> fd' \<noteq> fd \<and> fd_open fd' o1 = Some g)"
  using assms fd_open_set_fd [of o' "Some f"]
  by (auto simp: os_open_def Let_def fd_open_set_fd_other(2) dest: fd_open_set_fd_other(1))

lemma session_open_missing:
  assumes "table_ok srv" "srv_mem srv p = Some s" "os_send_error srv (os_sends srv) = None"
    and "os_files srv name = Inl e"
  shows "\<exists>srv'. session_open p name srv = Ok srv' \<and> table_ok srv' \<and> contents srv' = (contents srv)(p := None) \<and>
    ss_count srv' = ss_count srv - 1 \<and>
    os_sent srv' = os_sent srv @ [(s_addr s, next_packet s (FLAG_RST OR FLAG_ERR)
      (err_image [] (err_encode \<lparr>err_code = e\<rparr>)))]"
proof -
  let ?srv1 = "srv\<lparr>os_errno := e\<rparr>"
  let ?srv = "set_session p (s\<lparr>s_fd := - 1\<rparr>) ?srv1"
  have "table_ok ?srv1"
    using assms(1) by (rule table_ok_linked) (simp_all add: linked_def fun_eq_iff)
  then have "table_ok ?srv"
    by (rule table_ok_set_session [where s = s]) (use assms(2) in simp_all)
  moreover have "srv_mem ?srv p = Some (s\<lparr>s_fd := - 1\<rparr>)" "os_send_error ?srv (os_sends ?srv) = None"
    using assms(3) by simp_all
  ultimately obtain srv' where srv': "session_abort p (os_errno ?srv) ?srv = Ok srv'" "table_ok srv'"
    "contents srv' = (contents ?srv)(p := None)" "ss_count srv' = ss_count ?srv - 1"
    "os_sent srv' = os_sent ?srv @ [(s_addr (s\<lparr>s_fd := - 1\<rparr>), next_packet (s\<lparr>s_fd := - 1\<rparr>) (FLAG_RST OR FLAG_ERR)
      (err_image [] (err_encode \<lparr>err_code = os_errno ?srv\<rparr>)))]"
    using session_abort_spec [of ?srv p "s\<lparr>s_fd := - 1\<rparr>" "os_errno ?srv"] by blast
  moreover have "(contents ?srv)(p := None) = (contents srv)(p := None)"
    by (auto simp: contents_def fun_eq_iff)
  ultimately show ?thesis
    using assms(2,4)
    by (simp add: session_open_def os_open_def update_session_def session_at_def next_packet_def)
qed

definition playable :: "wave_header \<Rightarrow> bool" where
  "playable w \<longleftrightarrow> wh_main_chunk w = RIFF \<and> wh_chunk_type w = WAVEFMT \<and> wh_format w = PCM_CODE \<and>
     unat (wh_chans w) \<le> 2"

lemma wav_read_header:
  assumes "playable w" "fd_open fd o' = Some \<lparr>f_rest = wave_header_image pad w @ data, f_err = e\<rparr>"
  shows "sas_formats_wav junk fd o' = Ok
    (Some \<lparr>wi_fd = fd, wi_finished = False, wi_sample_rate = wh_sample_fq w,
       wi_sample_size = ucast (wh_bit_p_spl w), wi_channels = ucast (wh_chans w)\<rparr>,
     o'\<lparr>os_fds := (os_fds o')[nat fd := Some \<lparr>f_rest = data, f_err = e\<rparr>]\<rparr>)"
proof -
  have len: "length (wh_main_chunk w) = 4" "length (wh_chunk_type w) = 7"
    using assms(1) by (simp_all add: playable_def RIFF_def WAVEFMT_def)
  have "os_read fd sizeof_WaveHeader o' = (Some (wave_header_image pad w),
      o'\<lparr>os_fds := (os_fds o')[nat fd := Some \<lparr>f_rest = data, f_err = e\<rparr>]\<rparr>)"
    using assms(2) length_wave_header_image [OF len, of pad] by (auto simp: os_read_def sizeof_WaveHeader_def)
  then show ?thesis
    using assms(1) by (simp add: sas_formats_wav_def wave_header_load_image [OF len] playable_def not_less)
qed

lemma session_open_playable:
  assumes s: "srv_mem srv p = Some s" and send: "os_send_error srv = (\<lambda>_. None)"
    and path: "os_files srv name = Inr \<lparr>f_rest = wave_header_image pad w @ data, f_err = None\<rparr>"
    and w: "playable w"
  shows "\<exists>srv' s'. session_open p name srv = Ok srv' \<and> mid_stream srv' p s' data \<and>
    s_state s' = STATE_SACK_SENT \<and> s_addr s' = s_addr s \<and> s_seq s' = s_seq s + 8 \<and> s_ack s' = s_ack s \<and>
    s_next s' = s_next s \<and> frame_of srv' = frame_of srv \<and> srv_mem srv' = (srv_mem srv)(p \<mapsto> s') \<and>
    os_sent srv' = os_sent srv @ [(s_addr s, next_packet s (FLAG_SYN OR FLAG_ACK)
      (cfg_ack_image [stack_byte srv] (cfg_ack_encode
        \<lparr>ca_sample_rate = wh_sample_fq w, ca_sample_size = ucast (wh_bit_p_spl w),
         ca_channels = ucast (wh_chans w), ca_codec = s_codec s\<rparr>)))] \<and>
    map_option ws_fd (s_pipeline s') = Some (int (lowest_free (os_fds srv))) \<and>
    s_receive_window s' = s_receive_window s \<and>
    (\<forall>fd f. fd_open fd srv = Some f \<longrightarrow> fd \<noteq> int (lowest_free (os_fds srv)) \<and> fd_open fd srv' = Some f)"
proof -
  obtain fd srv1 where o1: "os_open name srv = (fd, srv1)" "0 \<le> fd"
    "fd_open fd srv1 = Some \<lparr>f_rest = wave_header_image pad w @ data, f_err = None\<rparr>"
    "srv1 = srv\<lparr>os_fds := os_fds srv1\<rparr>" "fd = int (lowest_free (os_fds srv))"
    "\<forall>fd' g. fd_open fd' srv = Some g \<longrightarrow> fd' \<noteq> fd \<and> fd_open fd' srv1 = Some g"
    using os_open_free [where o' = srv and path = name, OF path] by blast
  have same: "srv_mem srv1 = srv_mem srv" "os_send_error srv1 = os_send_error srv"
    "os_sent srv1 = os_sent srv" "srv_stack srv1 = srv_stack srv"
    "frame_of srv1 = frame_of srv"
    by (subst o1(4), simp)+
  let ?s2 = "s\<lparr>s_fd := fd\<rparr>"
  let ?srv2 = "set_session p ?s2 srv1"
  let ?wi = "\<lparr>wi_fd = fd, wi_finished = False, wi_sample_rate = wh_sample_fq w,
       wi_sample_size = ucast (wh_bit_p_spl w), wi_channels = ucast (wh_chans w)\<rparr>"
  let ?srv3 = "?srv2\<lparr>os_fds := (os_fds ?srv2)[nat fd := Some \<lparr>f_rest = data, f_err = None\<rparr>]\<rparr>"
  have f2: "fd_open fd ?srv2 = Some \<lparr>f_rest = wave_header_image pad w @ data, f_err = None\<rparr>"
    using o1(3) by simp
  have open3: "session_open p name srv = session_stream p ?wi ?srv3"
    using o1(1,2) s same(1) wav_read_header [OF w f2, of "srv_stack ?srv2"]
    by (simp add: session_open_def update_session_def session_at_def)
  have "fd_open (wi_fd ?wi) ?srv3 = Some \<lparr>f_rest = data, f_err = None\<rparr>"
    using fd_open_update [OF f2] by simp
  moreover have others: "fd' \<noteq> fd \<and> fd_open fd' ?srv3 = Some g" if "fd_open fd' srv = Some g" for fd' g
  proof -
    have "fd' \<noteq> fd" "fd_open fd' srv1 = Some g"
      using o1(6) that by blast+
    then show ?thesis
      using fd_open_change(1) [of fd' fd ?srv2] o1(2) by simp
  qed
  ultimately obtain srv' s' where run: "session_stream p ?wi ?srv3 = Ok srv'" "mid_stream srv' p s' data"
    "s_state s' = STATE_SACK_SENT" "s_addr s' = s_addr s" "s_seq s' = s_seq s + 8" "s_ack s' = s_ack s"
    "s_next s' = s_next s" "frame_of srv' = frame_of srv" "srv_mem srv' = (srv_mem srv)(p \<mapsto> s')"
    "os_sent srv' = os_sent srv @ [(s_addr s, next_packet s (FLAG_SYN OR FLAG_ACK)
      (cfg_ack_image [stack_byte srv] (cfg_ack_encode
        \<lparr>ca_sample_rate = wh_sample_fq w, ca_sample_size = ucast (wh_bit_p_spl w),
         ca_channels = ucast (wh_chans w), ca_codec = s_codec s\<rparr>)))]"
    "map_option ws_fd (s_pipeline s') = Some fd" "s_receive_window s' = s_receive_window s"
    "os_fds srv' = os_fds ?srv3"
    using session_stream_spec [of ?srv3 p ?s2 ?wi data] send same
    by (auto simp: next_packet_def stack_byte_def)
  have "fd_open fd' srv' = fd_open fd' ?srv3" for fd'
    by (simp add: fd_open_def run(13))
  then show ?thesis
    using run open3 others o1(5) by (intro exI [of _ srv'] exI [of _ s']) simp
qed

end
