(* ===== verification/Session_Stream.thy ===== *)
theory Session_Stream
  imports Session
begin

text \<open>
  What a session promises its client: how the packets it receives, from the
  SYN to the last acknowledgement, move it through its states, and what it
  sends in return (\<open>sas_server_session_state_machine\<close> in
  \<open>sas-server/src/session.c\<close>, with the source and the sink of its pipeline).
\<close>

section \<open>The first packet\<close>

text \<open>
  The receive buffer with a SYN packet in it: the decoded header with its
  padding, the codec, the file name, and what the buffer held before.
\<close>

definition syn_buffer :: "bytes \<Rightarrow> header \<Rightarrow> u8 \<Rightarrow> bytes \<Rightarrow> bytes" where
  "syn_buffer pad h cc rest = header_image pad h @ cfg_image [] \<lparr>cfg_codec = cc\<rparr> @ rest"

lemma syn_buffer_load:
  assumes "length pad = 2"
  shows "header_load (syn_buffer pad h cc rest) = Ok h"
    "cfg_load (drop sizeof_header (syn_buffer pad h cc rest)) = Ok \<lparr>cfg_codec = cc\<rparr>"
    "drop (sizeof_header + sizeof_cfg) (syn_buffer pad h cc rest) = rest"
proof -
  have drop16: "drop sizeof_header (syn_buffer pad h cc rest) = cfg_image [] \<lparr>cfg_codec = cc\<rparr> @ rest"
    unfolding syn_buffer_def by (rule hdr.payload_follows [OF assms])
  show "header_load (syn_buffer pad h cc rest) = Ok h"
    unfolding syn_buffer_def by (rule hdr.load_image [OF assms])
  show "cfg_load (drop sizeof_header (syn_buffer pad h cc rest)) = Ok \<lparr>cfg_codec = cc\<rparr>"
    unfolding drop16 by (simp add: cfg.load_image)
  have "drop (sizeof_header + sizeof_cfg) (syn_buffer pad h cc rest) =
      drop sizeof_cfg (drop sizeof_header (syn_buffer pad h cc rest))"
    by (simp only: drop_drop add.commute)
  then show "drop (sizeof_header + sizeof_cfg) (syn_buffer pad h cc rest) = rest"
    unfolding drop16 by (simp add: cfg_image_def sizeof_cfg_def)
qed

lemma name_limit_length:
  assumes "hd_length h = of_nat (Suc n)" "n < 2 ^ 16 - 1"
  shows "name_limit h = n"
proof -
  have "unat (hd_length h) = Suc n"
    unfolding assms(1) unat_of_nat using assms(2) by simp
  then have "(ucast (hd_length h) :: u64) = of_nat (Suc n)"
    by (metis of_nat_unat)
  then have "(ucast (hd_length h) :: u64) - of_nat sizeof_cfg = of_nat n"
    by (simp add: sizeof_cfg_def)
  then show ?thesis
    using assms(2) by (simp add: name_limit_def unat_of_nat)
qed

lemma strndup_name:
  assumes "drop off buf = name @ rest" "0 \<notin> set name"
  shows "strndup buf off (length name) = Ok name"
proof -
  have "takeWhile (\<lambda>b. b \<noteq> 0) name = name"
    using assms(2) by auto
  then show ?thesis
    by (simp add: strndup_def assms(1))
qed

lemma session_syn_named:
  assumes pad: "length pad = 2" and len: "hd_length h = of_nat (Suc (length name))" "length name < 2 ^ 16 - 1"
    and name: "0 \<notin> set name"
  shows "session_syn p h (syn_buffer pad h cc (name @ rest)) srv =
    (if cc \<noteq> 0 then session_abort p EINVAL srv else session_open p name srv)"
  using syn_buffer_load(2) [OF pad] strndup_name [OF syn_buffer_load(3) [OF pad] name]
  by (simp add: session_syn_def name_limit_length [OF len] cfg_decode_def del: One_nat_def)

lemma state_machine_syn:
  assumes "length pad = 2" "hd_length h = of_nat (Suc (length name))" "length name < 2 ^ 16 - 1" "0 \<notin> set name"
    and "hd_flags h = FLAG_SYN" "srv_mem srv p = Some s" "s_state s = STATE_INITIAL" "\<not> hd_seq h < s_ack s"
  shows "sas_server_session_state_machine srv p (syn_buffer pad h cc (name @ rest)) =
    (if cc \<noteq> 0 then session_abort p EINVAL (set_session p (accept h s) srv)
     else session_open p name (set_session p (accept h s) srv))"
  unfolding state_machine_accepts [OF syn_buffer_load(1) [OF assms(1)] assms(6,8)]
  using session_syn_named [OF assms(1-4)] assms(5,7) by simp

lemma table_ok_accept:
  "table_ok srv \<Longrightarrow> srv_mem srv p = Some s \<Longrightarrow> table_ok (set_session p (accept h s) srv)"
  by (rule table_ok_set_session [where s = s]) simp_all

lemma contents_forget: "(contents (set_session p s srv))(p := None) = (contents srv)(p := None)"
  by (auto simp: contents_def fun_eq_iff)

text \<open>The code that the receiver of an error packet reads.\<close>

lemma err_received:
  "and_then (err_load (err_image [] (err_encode \<lparr>err_code = c\<rparr>))) (\<lambda>w. Ok (err_code (err_decode w))) = Ok c"
  using perr.load_image [of "[]" "err_encode \<lparr>err_code = c\<rparr>" "[]"] by (simp add: perr.dec_enc)

text \<open>The payloads of a file's packets.\<close>

lemma chunk_payloads:
  assumes "map pk_payload ds = chunks data @ [[]]"
  shows "concat (map pk_payload ds) = data" "list_all (\<lambda>e. length (pk_payload e) \<le> 1024) ds"
proof -
  show "concat (map pk_payload ds) = data"
    unfolding assms by (simp add: concat_chunks)
  have "list_all (\<lambda>b. length b \<le> 1024) (chunks data @ [[]])"
  proof (induction data rule: chunks.induct)
    case (1 data)
    then show ?case by (cases "data = []") simp_all
  qed
  then show "list_all (\<lambda>e. length (pk_payload e) \<le> 1024) ds"
    unfolding assms [symmetric] by (simp add: list_all_iff)
qed

section \<open>Behind the end of the stream\<close>

lemma stream_over_step:
  assumes "stream_over srv p s"
    and h: "header_load buf = Ok h" "\<not> hd_seq h < s_ack s" "\<not> flag_isset (hd_flags h) FLAG_RST"
  shows "\<exists>srv' s'. sas_server_session_state_machine srv p buf = Ok srv' \<and> stream_over srv' p s' \<and>
    s_ack s' = hd_seq h + seq_step (hd_length h) \<and> s_state s' = STATE_ESTABLSH \<and> os_sent srv' = os_sent srv \<and>
    s_addr s' = s_addr s \<and> s_seq s' = s_seq s \<and> s_next s' = s_next s \<and> frame_of srv' = frame_of srv \<and>
    srv_mem srv' = (srv_mem srv)(p \<mapsto> s') \<and> s_receive_window s' = s_receive_window s \<and> os_fds srv' = os_fds srv"
proof -
  obtain pl where s: "srv_mem srv p = Some s" "streaming s" "s_sink_logic s" "s_pipeline s = Some pl" "done_pipe pl"
    using assms(1) by (auto simp: stream_over_def split: option.splits)
  let ?s1 = "(accept h s)\<lparr>s_state := STATE_ESTABLSH\<rparr>"
  let ?pl = "pl\<lparr>worker := idle_worker (Suc (fresh (worker pl)))\<rparr>"
  let ?srv' = "store_pipe p ?pl (set_session p ?s1 srv)"
  have "sas_server_session_state_machine srv p buf = Ok ?srv'"
    unfolding state_machine_pulls [OF h(1) s(1) h(2,3) s(2)]
    by (rule session_pull_done [where x = ?s1]) (use s in simp_all)
  moreover have "stream_over ?srv' p (?s1\<lparr>s_pipeline := Some ?pl\<rparr>)"
    using s by (auto simp: stream_over_def streaming_def store_pipe_def done_pipe_def)
  moreover have "os_sent ?srv' = os_sent srv"
    by (simp add: store_pipe_def)
  moreover have "srv_mem ?srv' = (srv_mem srv)(p \<mapsto> ?s1\<lparr>s_pipeline := Some ?pl\<rparr>)"
    by (simp add: store_pipe_def)
  ultimately show ?thesis
    by (intro exI [of _ ?srv'] exI [of _ "?s1\<lparr>s_pipeline := Some ?pl\<rparr>"]) simp
qed

lemma stream_over_receives:
  assumes "stream_over srv p s" "packets_ok (s_ack s) bufs"
  shows "\<exists>srv' s'. receive_packets p bufs srv = Ok srv' \<and> stream_over srv' p s' \<and> os_sent srv' = os_sent srv \<and>
    os_fds srv' = os_fds srv \<and> (s_state s = STATE_ESTABLSH \<longrightarrow> s_state s' = STATE_ESTABLSH)"
  using assms
proof (induction bufs arbitrary: srv s)
  case Nil
  then show ?case by auto
next
  case (Cons buf bufs)
  obtain h where h: "header_load buf = Ok h" "\<not> hd_seq h < s_ack s" "\<not> flag_isset (hd_flags h) FLAG_RST"
    "packets_ok (hd_seq h + seq_step (hd_length h)) bufs"
    using Cons.prems(2) by (auto split: res.splits)
  obtain srv1 s1 where one: "sas_server_session_state_machine srv p buf = Ok srv1" "stream_over srv1 p s1"
    "s_ack s1 = hd_seq h + seq_step (hd_length h)" "os_sent srv1 = os_sent srv" "os_fds srv1 = os_fds srv"
    "s_state s1 = STATE_ESTABLSH"
    using stream_over_step [OF Cons.prems(1) h(1-3)] by blast
  with h(4) Cons.IH [OF one(2)] show ?case by auto
qed

text \<open>The packet that ends a stream, and the session behind it.\<close>

lemma stream_ends:
  assumes "srv_mem srv p = Some s" "streaming s" "s_sink_logic s" "s_pipeline s = Some pl" "ready_pipe pl"
    and "file_at (ws_fd pl) srv = \<lparr>f_rest = [], f_err = e\<rparr>" "os_send_error srv = (\<lambda>_. None)"
    and h: "header_load buf = Ok h" "\<not> hd_seq h < s_ack s" "\<not> flag_isset (hd_flags h) FLAG_RST"
  shows "\<exists>srv' s'. sas_server_session_state_machine srv p buf = Ok srv' \<and> stream_over srv' p s' \<and>
    s_ack s' = hd_seq h + seq_step (hd_length h) \<and> s_state s' = STATE_ESTABLSH \<and> fd_open (ws_fd pl) srv' = None \<and>
    os_sent srv' = os_sent srv @ [(s_addr s, case e of
      None \<Rightarrow> next_packet (accept h s) (FLAG_RST OR FLAG_FIN) []
    | Some c \<Rightarrow> next_packet (accept h s) (FLAG_RST OR FLAG_ERR) (err_image [] (err_encode \<lparr>err_code = c\<rparr>)))]"
proof -
  let ?s1 = "(accept h s)\<lparr>s_state := STATE_ESTABLSH\<rparr>" and ?f = "\<lparr>f_rest = [], f_err = e\<rparr>"
  let ?srv1 = "set_session p ?s1 srv"
  let ?srv2 = "stream_step p ?s1 (ws_fd pl) ?f ?srv1"
  let ?srv' = "store_pipe p (pulled_pipe ?f pl) ?srv2"
  have run: "sas_server_session_state_machine srv p buf = Ok ?srv'"
    unfolding state_machine_pulls [OF h(1) assms(1) h(2,3) assms(2)]
    by (rule session_pull_ready) (use assms in simp_all)
  obtain x' where x': "srv_mem ?srv2 = (srv_mem ?srv1)(p \<mapsto> x')" "x' = ?s1\<lparr>s_seq := s_seq x'\<rparr>"
    using srv_mem_stream_step [of p ?s1 "ws_fd pl" ?f ?srv1] by (elim exE conjE)
  have proj: "s_ack x' = hd_seq h + seq_step (hd_length h)" "s_state x' = STATE_ESTABLSH"
    "s_sink_logic x' = s_sink_logic s"
    by (subst x'(2), simp)+
  let ?s' = "x'\<lparr>s_pipeline := Some (pulled_pipe ?f pl)\<rparr>"
  have "stream_over ?srv' p ?s'"
    using x'(1) proj assms(3) pulled_pipe_simps(2) [OF assms(5), of ?f]
    by (simp add: stream_over_def streaming_def store_pipe_def)
  moreover have "os_sent ?srv' = os_sent srv @ [(s_addr s, case e of
      None \<Rightarrow> next_packet (accept h s) (FLAG_RST OR FLAG_FIN) []
    | Some c \<Rightarrow> next_packet (accept h s) (FLAG_RST OR FLAG_ERR) (err_image [] (err_encode \<lparr>err_code = c\<rparr>)))]"
    using assms(7) by (simp add: store_pipe_def stream_step_def send_next_sent next_packet_def split: option.split)
  moreover have "fd_open (ws_fd pl) ?srv' = None"
  proof -
    have "fd_open (ws_fd pl) ?srv' = fd_open (ws_fd pl) ?srv2"
      by (simp add: store_pipe_def fd_open_def)
    then show ?thesis
      by (simp add: stream_step_def fd_open_closed split: option.split)
  qed
  ultimately show ?thesis
    using run proj(1,2) by (intro exI [of _ ?srv'] exI [of _ ?s']) simp
qed

lemma state_machine_refuses:
  assumes "table_ok srv" "srv_mem srv p = Some s" "s_state s = STATE_INITIAL" "os_send_error srv = (\<lambda>_. None)"
    and "os_files srv name = Inl e \<or> cc \<noteq> 0"
    and "length pad = 2" "hd_length h = of_nat (Suc (length name))" "length name < 2 ^ 16 - 1" "0 \<notin> set name"
    and "hd_flags h = FLAG_SYN" "\<not> hd_seq h < s_ack s"
  shows "\<exists>srv' d. sas_server_session_state_machine srv p (syn_buffer pad h cc (name @ rest)) = Ok srv' \<and>
    table_ok srv' \<and> contents srv' = (contents srv)(p := None) \<and> ss_count srv' = ss_count srv - 1 \<and>
    os_sent srv' = os_sent srv @ [(s_addr s, d)] \<and> sent_seq d = s_seq s \<and>
    sent_ack d = hd_seq h + seq_step (hd_length h) \<and> sent_flags d = FLAG_RST OR FLAG_ERR \<and>
    and_then (err_load (pk_payload d)) (\<lambda>c. Ok (err_code (err_decode c))) = Ok (if cc \<noteq> 0 then EINVAL else e)"
proof -
  let ?srv1 = "set_session p (accept h s) srv"
  let ?e = "if cc \<noteq> 0 then EINVAL else e"
  let ?d = "next_packet (accept h s) (FLAG_RST OR FLAG_ERR) (err_image [] (err_encode \<lparr>err_code = ?e\<rparr>))"
  have ok: "table_ok ?srv1" "srv_mem ?srv1 p = Some (accept h s)" "os_send_error ?srv1 (os_sends ?srv1) = None"
    using table_ok_accept [OF assms(1,2)] assms(4) by simp_all
  have run: "sas_server_session_state_machine srv p (syn_buffer pad h cc (name @ rest)) =
      (if cc \<noteq> 0 then session_abort p EINVAL ?srv1 else session_open p name ?srv1)"
    by (rule state_machine_syn [OF assms(6-10,2,3,11)])
  have code: "and_then (err_load (pk_payload ?d)) (\<lambda>c. Ok (err_code (err_decode c))) = Ok ?e"
    by (simp only: next_packet_simps err_received)
  have "\<exists>srv'. sas_server_session_state_machine srv p (syn_buffer pad h cc (name @ rest)) = Ok srv' \<and>
      table_ok srv' \<and> contents srv' = (contents ?srv1)(p := None) \<and> ss_count srv' = ss_count ?srv1 - 1 \<and>
      os_sent srv' = os_sent ?srv1 @ [(s_addr (accept h s), ?d)]"
  proof (cases "cc = 0")
    case True
    then show ?thesis
      unfolding run using session_open_missing [OF ok, of name e] assms(5) by simp
  next
    case False
    then show ?thesis
      unfolding run using session_abort_spec [OF ok, of EINVAL] by simp
  qed
  then show ?thesis
    using code unfolding contents_forget by (elim exE conjE) (rule exI, rule exI [of _ ?d], simp)
qed

lemma state_machine_reset:
  assumes "table_ok srv" "srv_mem srv p = Some s" "header_load buf = Ok h" "\<not> hd_seq h < s_ack s"
    and "flag_isset (hd_flags h) FLAG_RST"
  shows "\<exists>srv'. sas_server_session_state_machine srv p buf = Ok srv' \<and> table_ok srv' \<and>
    contents srv' = (contents srv)(p := None) \<and> os_sent srv' = os_sent srv"
proof -
  let ?srv1 = "set_session p (accept h s) srv"
  have ok: "table_ok ?srv1"
    by (rule table_ok_accept [OF assms(1,2)])
  then obtain cs where rep: "table_rep ?srv1 cs"
    by (auto simp: table_ok_def)
  have mem: "srv_mem ?srv1 p = Some (accept h s)"
    by simp
  obtain srv' where srv': "sas_server_session_delete ?srv1 p = Ok srv'" "table_ok srv'"
    "contents srv' = (contents ?srv1)(p := None)"
    using sessions.del_live [OF ok, of p] by (auto simp: contents_def)
  have "os_sent srv' = os_sent ?srv1"
    using session_delete_live [OF rep mem] srv'(1) by auto
  then show ?thesis
    using srv' assms(5) unfolding state_machine_accepts [OF assms(3,2,4)] contents_forget by simp
qed

section \<open>An example\<close>

text \<open>
  A server with one playable file \<open>a\<close> and one file \<open>b\<close> that is not in PCM
  format, and a client that has sent nothing but the first packet.
\<close>

definition mp3_wav :: wave_header where
  "mp3_wav = example_wav\<lparr>wh_format := 0x55\<rparr>"

definition media :: "bytes \<Rightarrow> i32 + open_file" where
  "media path =
     (if path = [0x61] then Inr \<lparr>f_rest = wave_header_image 0x20 example_wav @ [1, 2], f_err = None\<rparr>
      else if path = [0x62] then Inr \<lparr>f_rest = wave_header_image 0x20 mp3_wav @ [1, 2], f_err = None\<rparr>
      else Inl 2)"

definition example_media :: server where
  "example_media =
     (let srv = sas_server_alloc (fresh_os media (\<lambda>_. 0)) (\<lambda>_. True) blank_session []
      in link_session (bucket_of srv (example_addr 1)) [] (new_session blank_session (example_addr 1)) srv)"

definition example_new :: session where
  "example_new = new_session blank_session (example_addr 1)"

lemma example_new_simps [simp]:
  "s_state example_new = STATE_INITIAL" "s_addr example_new = example_addr 1" "s_seq example_new = 0"
  "s_ack example_new = 0"
  by (simp_all add: example_new_def new_session_def)

lemma example_media_simps [simp]:
  "srv_mem example_media 0 = Some example_new" "table_ok example_media" "os_send_error example_media = (\<lambda>_. None)"
  "os_files example_media = media" "os_sent example_media = []" "os_errno example_media = 0"
  "ss_count example_media = 1"
proof -
  let ?srv = "sas_server_alloc (fresh_os media (\<lambda>_. 0)) (\<lambda>_. True) blank_session []"
  let ?i = "bucket_of ?srv (example_addr 1)"
  have i: "?i < 32"
    using table_rep_bucket(1) [OF table_rep_alloc] by simp
  then have "table_rep (link_session ?i [] (new_session blank_session (example_addr 1)) ?srv)
      ((replicate 32 [])[?i := [0]])"
    using table_rep_link [OF table_rep_alloc, of "example_addr 1" ?i "fresh_os media (\<lambda>_. 0)" "\<lambda>_. True"
        blank_session "[]" "new_session blank_session (example_addr 1)"] example_addr_ok(1) [of 1]
    by (simp add: addr_ok_def bucket_lookup_def new_session_def)
  then show "table_ok example_media"
    by (auto simp: table_ok_def example_media_def Let_def)
  show "srv_mem example_media 0 = Some example_new" "os_send_error example_media = (\<lambda>_. None)"
    "os_files example_media = media" "os_sent example_media = []" "os_errno example_media = 0"
    "ss_count example_media = 1"
    by (simp_all add: example_media_def example_new_def link_session_def Let_def sas_server_alloc_def
        os.defs server.defs fresh_os_def)
qed

definition example_header :: "u32 \<Rightarrow> u8 \<Rightarrow> u16 \<Rightarrow> header" where
  "example_header seq flags len = \<lparr>hd_seq = seq, hd_ack = 0, hd_reserved = 0, hd_flags = flags,
     hd_window = 1024, hd_length = len\<rparr>"

lemma example_header_simps [simp]:
  "hd_seq (example_header seq flags len) = seq" "hd_flags (example_header seq flags len) = flags"
  "hd_length (example_header seq flags len) = len"
  by (simp_all add: example_header_def)

text \<open>An acknowledgement in the receive buffer.\<close>

definition example_ack :: "u32 \<Rightarrow> bytes" where
  "example_ack seq = header_image [0, 0] (example_header seq FLAG_ACK 0)"

lemma example_ack_load [simp]: "header_load (example_ack seq) = Ok (example_header seq FLAG_ACK 0)"
  using hdr.load_image [of "[0, 0]" "example_header seq FLAG_ACK 0" "[]"] by (simp add: example_ack_def)

lemma example_playable [simp]: "playable example_wav"
  by (simp add: playable_def example_wav_def PCM_CODE_def)

section \<open>Properties\<close>

text \<open>A whole session: a client's SYN for a file that can be played is
  answered with the stream's configuration, and every packet that follows in
  order with the next chunk of at most 1024 bytes: when the file has
  been acknowledged chunk by chunk, exactly its data have been sent, in
  order, in packets whose sequence numbers count the bytes, and the last packet
  is the end of the stream.\<close>

lemma file_streamed:
  assumes "srv_mem srv p = Some s" "s_state s = STATE_INITIAL" "os_send_error srv = (\<lambda>_. None)"
    and "os_files srv name = Inr \<lparr>f_rest = wave_header_image wpad w @ data, f_err = None\<rparr>" "playable w"
    and "length pad = 2" "hd_length h = of_nat (Suc (length name))" "length name < 2 ^ 16 - 1" "0 \<notin> set name"
    and "hd_flags h = FLAG_SYN" "\<not> hd_seq h < s_ack s"
    and "packets_ok (hd_seq h + seq_step (hd_length h)) acks" "length acks = length (chunks data) + 1"
  shows "\<exists>srv' d ds. receive_packets p (syn_buffer pad h 0 (name @ rest) # acks) srv = Ok srv' \<and>
    os_sent srv' = os_sent srv @ map (Pair (s_addr s)) (d # ds) \<and> numbered (s_seq s) (d # ds) \<and>
    sent_flags d = FLAG_SYN OR FLAG_ACK \<and>
    and_then (cfg_ack_load (pk_payload d)) (\<lambda>c. Ok (cfg_ack_decode c)) =
      Ok \<lparr>ca_sample_rate = wh_sample_fq w, ca_sample_size = ucast (wh_bit_p_spl w),
        ca_channels = ucast (wh_chans w), ca_codec = s_codec s\<rparr> \<and>
    concat (map pk_payload ds) = data \<and> list_all (\<lambda>e. length (pk_payload e) \<le> 1024) ds \<and>
    map sent_flags ds = replicate (length (chunks data)) 0 @ [FLAG_RST OR FLAG_FIN]"
proof -
  let ?c = "\<lparr>ca_sample_rate = wh_sample_fq w, ca_sample_size = ucast (wh_bit_p_spl w),
      ca_channels = ucast (wh_chans w), ca_codec = s_codec s\<rparr>"
  let ?srv1 = "set_session p (accept h s) srv"
  let ?cfg = "cfg_ack_image [stack_byte srv] (cfg_ack_encode ?c)"
  let ?d = "next_packet (accept h s) (FLAG_SYN OR FLAG_ACK) ?cfg"
  have codec: "s_codec (accept h s) = s_codec s"
    by (simp add: accept_def)
  obtain srv2 s2 where s2: "session_open p name ?srv1 = Ok srv2" "mid_stream srv2 p s2 data"
    "s_addr s2 = s_addr s" "s_seq s2 = s_seq s + 8" "s_ack s2 = hd_seq h + seq_step (hd_length h)"
    "os_sent srv2 = os_sent srv @ [(s_addr s, ?d)]"
    using session_open_playable [of ?srv1 p "accept h s" name wpad w data] assms(3-5) codec by auto
  have syn: "sas_server_session_state_machine srv p (syn_buffer pad h 0 (name @ rest)) = Ok srv2"
    using state_machine_syn [OF assms(6-10,1,2,11), of 0 rest] s2(1) by simp
  obtain srv' ds where ds: "receive_packets p acks srv2 = Ok srv'"
    "os_sent srv' = os_sent srv2 @ map (Pair (s_addr s2)) ds"
    "map pk_payload ds = chunks data @ [[]]"
    "map sent_flags ds = replicate (length (chunks data)) 0 @ [FLAG_RST OR FLAG_FIN]"
    "numbered (s_seq s2) ds"
    using stream_packets [OF s2(2), of acks] assms(12,13) s2(5) by auto
  have "concat (map pk_payload ds) = data" "list_all (\<lambda>e. length (pk_payload e) \<le> 1024) ds"
    by (rule chunk_payloads [OF ds(3)])+
  moreover have "numbered (s_seq s) (?d # ds)"
    using ds(5) s2(4) by (simp add: image_simps seq_step_def)
  moreover have "and_then (cfg_ack_load (pk_payload ?d)) (\<lambda>c. Ok (cfg_ack_decode c)) = Ok ?c"
    using cack.receive_sent [of "[stack_byte srv]" ?c "[]"] by simp
  ultimately show ?thesis
    using syn ds s2(3,6)
    by (intro exI [of _ srv'] exI [of _ ?d] exI [of _ ds]) simp
qed

lemma example_acks_ok: "packets_ok 2 [example_ack 2, example_ack 3]"
  by (simp add: seq_step_def)

lemma file_streamed_witness:
  "\<exists>srv' d ds. receive_packets 0 [syn_buffer [0, 0] (example_header 0 FLAG_SYN 2) 0 [0x61],
      example_ack 2, example_ack 3] example_media = Ok srv' \<and>
    os_sent srv' = map (Pair (example_addr 1)) (d # ds) \<and> numbered 0 (d # ds) \<and>
    concat (map pk_payload ds) = [1, 2] \<and> map sent_flags ds = [0, FLAG_RST OR FLAG_FIN]"
  using file_streamed [of example_media 0 example_new "[0x61]" "0x20" example_wav "[1, 2]" "[0, 0]"
      "example_header 0 FLAG_SYN 2" "[example_ack 2, example_ack 3]" "[]"]
    example_acks_ok
  by (simp add: media_def seq_step_def [of 2] del: numbered.simps receive_packets.simps packets_ok.simps)
    (elim exE conjE, intro exI conjI, assumption+)

text \<open>A SYN for a file that cannot be opened, or for a codec the server
  does not have: the client gets one packet with the error code, that of
  \<open>open\<close> or \<open>EINVAL\<close>, which acknowledges the SYN, and the session is deleted.\<close>

lemma syn_refused:
  assumes "table_ok srv" "srv_mem srv p = Some s" "s_state s = STATE_INITIAL" "os_send_error srv = (\<lambda>_. None)"
    and "os_files srv name = Inl e \<or> cc \<noteq> 0"
    and "length pad = 2" "hd_length h = of_nat (Suc (length name))" "length name < 2 ^ 16 - 1" "0 \<notin> set name"
    and "hd_flags h = FLAG_SYN" "\<not> hd_seq h < s_ack s"
  shows "\<exists>srv' d. sas_server_session_state_machine srv p (syn_buffer pad h cc (name @ rest)) = Ok srv' \<and>
    table_ok srv' \<and> contents srv' = (contents srv)(p := None) \<and> ss_count srv' = ss_count srv - 1 \<and>
    os_sent srv' = os_sent srv @ [(s_addr s, d)] \<and> sent_seq d = s_seq s \<and>
    sent_ack d = hd_seq h + seq_step (hd_length h) \<and> sent_flags d = FLAG_RST OR FLAG_ERR \<and>
    and_then (err_load (pk_payload d)) (\<lambda>c. Ok (err_code (err_decode c))) = Ok (if cc \<noteq> 0 then EINVAL else e)"
  using assms by (rule state_machine_refuses)

lemma syn_refused_witness:
  "\<exists>srv' d. sas_server_session_state_machine example_media 0
      (syn_buffer [0, 0] (example_header 0 FLAG_SYN 2) 0 [0x63]) = Ok srv' \<and>
    contents srv' 0 = None \<and> os_sent srv' = [(example_addr 1, d)] \<and> sent_flags d = FLAG_RST OR FLAG_ERR"
proof -
  have "os_files example_media [0x63] = Inl 2 \<or> (0 :: u8) \<noteq> 0"
    by (simp add: media_def)
  from syn_refused [OF example_media_simps(2,1) _ example_media_simps(3) this,
      of "[0, 0]" "example_header 0 FLAG_SYN 2" "[]"]
  obtain srv' d where "sas_server_session_state_machine example_media 0
      (syn_buffer [0, 0] (example_header 0 FLAG_SYN 2) 0 [0x63]) = Ok srv'"
    "contents srv' = (contents example_media)(0 := None)" "os_sent srv' = os_sent example_media @ [(s_addr example_new, d)]"
    "sent_flags d = FLAG_RST OR FLAG_ERR"
    by auto
  then show ?thesis by auto
qed

text \<open>A first packet without the SYN flag is answered with a reset that
  acknowledges it, and the session stays in its initial state.\<close>

lemma no_syn_reset:
  assumes "srv_mem srv p = Some s" "s_state s = STATE_INITIAL" "os_send_error srv = (\<lambda>_. None)"
    and "header_load buf = Ok h" "\<not> hd_seq h < s_ack s"
    and "\<not> flag_isset (hd_flags h) FLAG_RST" "\<not> flag_isset (hd_flags h) FLAG_SYN"
  shows "\<exists>srv' d. sas_server_session_state_machine srv p buf = Ok srv' \<and>
    srv_mem srv' = (srv_mem srv)(p \<mapsto> (accept h s)\<lparr>s_seq := s_seq s + 1\<rparr>) \<and>
    os_sent srv' = os_sent srv @ [(s_addr s, d)] \<and> sent_seq d = s_seq s \<and>
    sent_ack d = hd_seq h + seq_step (hd_length h) \<and> sent_flags d = FLAG_RST \<and> pk_payload d = []"
proof -
  let ?srv1 = "set_session p (accept h s) srv" and ?d = "next_packet (accept h s) FLAG_RST []"
  have "sas_server_session_state_machine srv p buf = Ok (snd (send_next p (accept h s) FLAG_RST [] ?srv1))"
    using assms(2,6,7) session_reset_next [of ?srv1 p "accept h s" False]
    unfolding state_machine_accepts [OF assms(4,1,5)] by (simp add: unit_of_def case_prod_unfold)
  moreover have "os_sent (snd (send_next p (accept h s) FLAG_RST [] ?srv1)) = os_sent srv @ [(s_addr s, ?d)]"
    using assms(3) by (simp add: send_next_sent)
  ultimately show ?thesis
    by (intro exI [of _ "snd (send_next p (accept h s) FLAG_RST [] ?srv1)"] exI [of _ ?d])
      (simp add: seq_step_def)
qed

lemma no_syn_reset_witness:
  "\<exists>srv' d. sas_server_session_state_machine example_media 0 (example_ack 5) = Ok srv' \<and>
    os_sent srv' = [(example_addr 1, d)] \<and> sent_flags d = FLAG_RST \<and> sent_ack d = 6"
  using no_syn_reset [of example_media 0 example_new "example_ack 5" "example_header 5 FLAG_ACK 0"]
  by (auto simp: seq_step_def)

text \<open>A packet that was acknowledged before changes nothing at all.\<close>

lemma old_packet_dropped:
  assumes "header_load buf = Ok h" "srv_mem srv p = Some s" "hd_seq h < s_ack s"
  shows "sas_server_session_state_machine srv p buf = Ok srv"
  using assms by (rule state_machine_old)

theorem old_packet_dropped_witness:
  "sas_server_session_state_machine (set_session 0 (example_new\<lparr>s_ack := 7\<rparr>) example_media) 0 (example_ack 5) =
    Ok (set_session 0 (example_new\<lparr>s_ack := 7\<rparr>) example_media)"
  by (rule old_packet_dropped [where h = "example_header 5 FLAG_ACK 0" and s = "example_new\<lparr>s_ack := 7\<rparr>"]) simp_all

text \<open>A reset that is not an old packet deletes the session, whatever its
  state, and nothing is sent.\<close>

lemma reset_forgets_session:
  assumes "table_ok srv" "srv_mem srv p = Some s" "header_load buf = Ok h" "\<not> hd_seq h < s_ack s"
    and "flag_isset (hd_flags h) FLAG_RST"
  shows "\<exists>srv'. sas_server_session_state_machine srv p buf = Ok srv' \<and> table_ok srv' \<and>
    contents srv' = (contents srv)(p := None) \<and> os_sent srv' = os_sent srv"
  using assms by (rule state_machine_reset)

lemma reset_forgets_session_witness:
  "\<exists>srv'. sas_server_session_state_machine example_media 0
      (header_image [0, 0] (example_header 0 FLAG_RST 0)) = Ok srv' \<and> contents srv' 0 = None"
  using reset_forgets_session [OF example_media_simps(2,1), of "header_image [0, 0] (example_header 0 FLAG_RST 0)"
      "example_header 0 FLAG_RST 0"] hdr.load_image [of "[0, 0]" "example_header 0 FLAG_RST 0" "[]"]
  by auto

text \<open>A file that is no PCM WAV file is refused with whatever error
  number an earlier call left: the source does not set one. Where there was no
  error before, the client is sent the error 0.\<close>

lemma refused_with_stale_error:
  assumes "table_ok srv" "srv_mem srv p = Some s" "s_state s = STATE_INITIAL" "os_send_error srv = (\<lambda>_. None)"
    and "os_files srv name = Inr \<lparr>f_rest = wave_header_image wpad w @ data, f_err = None\<rparr>"
    and "length (wh_main_chunk w) = 4" "length (wh_chunk_type w) = 7" "\<not> playable w"
    and "length pad = 2" "hd_length h = of_nat (Suc (length name))" "length name < 2 ^ 16 - 1" "0 \<notin> set name"
    and "hd_flags h = FLAG_SYN" "\<not> hd_seq h < s_ack s"
  shows "\<exists>srv' d. sas_server_session_state_machine srv p (syn_buffer pad h 0 (name @ rest)) = Ok srv' \<and>
    table_ok srv' \<and> contents srv' = (contents srv)(p := None) \<and>
    os_sent srv' = os_sent srv @ [(s_addr s, d)] \<and> sent_flags d = FLAG_RST OR FLAG_ERR \<and>
    and_then (err_load (pk_payload d)) (\<lambda>c. Ok (err_code (err_decode c))) = Ok (os_errno srv)"
proof -
  let ?srv1 = "set_session p (accept h s) srv"
  obtain fd srv2 where o2: "os_open name ?srv1 = (fd, srv2)" "0 \<le> fd"
    "fd_open fd srv2 = Some \<lparr>f_rest = wave_header_image wpad w @ data, f_err = None\<rparr>"
    "srv2 = ?srv1\<lparr>os_fds := os_fds srv2\<rparr>"
    using os_open_free [where o' = ?srv1 and path = name] assms(5) by auto
  let ?s3 = "(accept h s)\<lparr>s_fd := fd\<rparr>"
  let ?srv3 = "set_session p ?s3 srv2"
  let ?srv4 = "?srv3\<lparr>os_fds := (os_fds ?srv3)[nat fd := Some \<lparr>f_rest = data, f_err = None\<rparr>]\<rparr>"
  have mem2: "srv_mem srv2 p = Some (accept h s)" "os_errno srv2 = os_errno srv"
    by (subst o2(4), simp)+
  have wav: "sas_formats_wav junk fd ?srv3 = Ok (None, ?srv4)" for junk
  proof -
    have "os_read fd sizeof_WaveHeader ?srv3 = (Some (wave_header_image wpad w), ?srv4)"
      using o2(3) length_wave_header_image [OF assms(6,7), of wpad]
      by (auto simp: os_read_def sizeof_WaveHeader_def)
    then show ?thesis
      using assms(8) by (auto simp: sas_formats_wav_def wave_header_load_image [OF assms(6,7)] playable_def)
  qed
  have "table_ok ?srv1"
    by (rule table_ok_accept [OF assms(1,2)])
  then have "table_ok srv2"
    by (rule table_ok_linked) (subst o2(4), simp add: linked_def fun_eq_iff)+
  then have "table_ok ?srv3"
    by (rule table_ok_set_session [where s = "accept h s"]) (simp_all add: mem2)
  then have ok: "table_ok ?srv4"
    by (rule table_ok_linked) (simp_all add: linked_def fun_eq_iff)
  have env: "os_sent srv2 = os_sent srv" "os_send_error srv2 = (\<lambda>_. None)"
    using assms(4) by (subst o2(4), simp)+
  have "sas_server_session_state_machine srv p (syn_buffer pad h 0 (name @ rest)) = session_abort p (os_errno srv) ?srv4"
    using state_machine_syn [OF assms(9-13,2,3,14), of 0 rest] o2(1,2) mem2 wav
    by (simp add: session_open_def update_session_def session_at_def)
  moreover obtain srv' where srv': "session_abort p (os_errno srv) ?srv4 = Ok srv'" "table_ok srv'"
    "contents srv' = (contents ?srv4)(p := None)"
    "os_sent srv' = os_sent ?srv4 @ [(s_addr ?s3, next_packet ?s3 (FLAG_RST OR FLAG_ERR)
      (err_image [] (err_encode \<lparr>err_code = os_errno srv\<rparr>)))]"
    using session_abort_spec [OF ok, of p ?s3 "os_errno srv"] env(2) by auto
  moreover have "(contents ?srv4)(p := None) = (contents srv)(p := None)"
    using arg_cong [OF o2(4), of srv_mem] by (auto simp: contents_def fun_eq_iff)
  ultimately show ?thesis
    using env(1) err_received [of "os_errno srv"]
    by (intro exI [of _ srv'] exI [of _ "next_packet ?s3 (FLAG_RST OR FLAG_ERR)
      (err_image [] (err_encode \<lparr>err_code = os_errno srv\<rparr>))"]) simp
qed

lemma refused_with_stale_error_witness:
  "\<exists>srv' d. sas_server_session_state_machine example_media 0
      (syn_buffer [0, 0] (example_header 0 FLAG_SYN 2) 0 [0x62]) = Ok srv' \<and>
    os_sent srv' = [(example_addr 1, d)] \<and>
    and_then (err_load (pk_payload d)) (\<lambda>c. Ok (err_code (err_decode c))) = Ok 0"
proof -
  have f: "os_files example_media [0x62] = Inr \<lparr>f_rest = wave_header_image 0x20 mp3_wav @ [1, 2], f_err = None\<rparr>"
    by (simp add: media_def)
  have w: "length (wh_main_chunk mp3_wav) = 4" "length (wh_chunk_type mp3_wav) = 7" "\<not> playable mp3_wav"
    by (simp_all add: mp3_wav_def example_wav_def playable_def RIFF_def WAVEFMT_def PCM_CODE_def)
  from refused_with_stale_error [OF example_media_simps(2,1) _ example_media_simps(3) f w,
      of "[0, 0]" "example_header 0 FLAG_SYN 2" "[]"]
  show ?thesis by auto
qed

text \<open>C38. The length of a SYN packet is trusted: with the length 0, the limit
  of the file name wraps around to \<open>2 ^ 64 - 1\<close> bytes, and where no zero byte
  follows in the receive buffer, the name is read beyond its end.\<close>

theorem syn_length_zero_overruns:
  assumes "srv_mem srv p = Some s" "s_state s = STATE_INITIAL" "\<not> hd_seq h < s_ack s"
    and "length pad = 2" "hd_flags h = FLAG_SYN" "hd_length h = 0"
    and "0 \<notin> set rest" "length rest < 2 ^ 64 - 1"
  shows "name_limit h = 2 ^ 64 - 1 \<and>
    sas_server_session_state_machine srv p (syn_buffer pad h cc rest) = Fault Out_Of_Bounds"
proof -
  have limit: "name_limit h = 2 ^ 64 - 1"
    using assms(6) by (simp add: name_limit_def sizeof_cfg_def unsigned_minus_1_eq_mask mask_eq_exp_minus_1)
  have "strndup (syn_buffer pad h cc rest) (sizeof_header + sizeof_cfg) (name_limit h) = Fault Out_Of_Bounds"
    unfolding strndup_def syn_buffer_load(3) [OF assms(4)] limit Let_def using assms(7,8) by simp
  then have "session_syn p h (syn_buffer pad h cc rest) srv' = Fault Out_Of_Bounds" for srv'
    unfolding session_syn_def syn_buffer_load(2) [OF assms(4)] by simp
  then show ?thesis
    using limit assms(2,5)
    unfolding state_machine_accepts [OF syn_buffer_load(1) [OF assms(4)] assms(1,3)] by simp
qed

theorem syn_length_zero_overruns_witness:
  "sas_server_session_state_machine example_media 0
    (syn_buffer [0, 0] (example_header 0 FLAG_SYN 0) 0 (replicate 4079 0x61)) = Fault Out_Of_Bounds"
  using syn_length_zero_overruns [OF example_media_simps(1), of "example_header 0 FLAG_SYN 0" "[0, 0]"
      "replicate 4079 0x61" 0] by simp

text \<open>C30. The end of a file, or an error on reading it, is reported to the
  client once, as the end of the stream or with the error number, and the
  file is closed, and still is when further packets have come. From then on the session takes every packet in order and
  sends nothing, but it stays established: the server has no finished sessions.\<close>

theorem stream_ends_once:
  assumes "srv_mem srv p = Some s" "streaming s" "s_sink_logic s" "s_pipeline s = Some pl" "ready_pipe pl"
    and "fd_open (ws_fd pl) srv = Some \<lparr>f_rest = [], f_err = e\<rparr>" "os_send_error srv = (\<lambda>_. None)"
    and "packets_ok (s_ack s) (buf # bufs)"
  shows "\<exists>srv' d s'. receive_packets p (buf # bufs) srv = Ok srv' \<and> os_sent srv' = os_sent srv @ [(s_addr s, d)] \<and>
    sent_flags d = (case e of None \<Rightarrow> FLAG_RST OR FLAG_FIN | Some c \<Rightarrow> FLAG_RST OR FLAG_ERR) \<and>
    pk_payload d = (case e of None \<Rightarrow> [] | Some c \<Rightarrow> err_image [] (err_encode \<lparr>err_code = c\<rparr>)) \<and>
    fd_open (ws_fd pl) srv' = None \<and> srv_mem srv' p = Some s' \<and> s_state s' = STATE_ESTABLSH"
proof -
  obtain h where h: "header_load buf = Ok h" "\<not> hd_seq h < s_ack s" "\<not> flag_isset (hd_flags h) FLAG_RST"
    "packets_ok (hd_seq h + seq_step (hd_length h)) bufs"
    using assms(8) by (auto split: res.splits)
  let ?d = "case e of
      None \<Rightarrow> next_packet (accept h s) (FLAG_RST OR FLAG_FIN) []
    | Some c \<Rightarrow> next_packet (accept h s) (FLAG_RST OR FLAG_ERR) (err_image [] (err_encode \<lparr>err_code = c\<rparr>))"
  obtain srv1 s1 where one: "sas_server_session_state_machine srv p buf = Ok srv1" "stream_over srv1 p s1"
    "s_ack s1 = hd_seq h + seq_step (hd_length h)" "os_sent srv1 = os_sent srv @ [(s_addr s, ?d)]"
    "s_state s1 = STATE_ESTABLSH" "fd_open (ws_fd pl) srv1 = None"
    using stream_ends [OF assms(1-5) file_at_open [OF assms(6)] assms(7) h(1-3)] by blast
  obtain srv' s' where rest: "receive_packets p bufs srv1 = Ok srv'" "stream_over srv' p s'" "os_sent srv' = os_sent srv1"
    "os_fds srv' = os_fds srv1" "s_state s' = STATE_ESTABLSH"
    using stream_over_receives [OF one(2), of bufs] h(4) one(3,5) by auto
  have "fd_open (ws_fd pl) srv' = None"
    using one(6) rest(4) by (auto simp: fd_open_def)
  then show ?thesis
    using one(1,4) rest by (intro exI [of _ srv'] exI [of _ ?d] exI [of _ s'])
      (auto simp: stream_over_def split: option.split)
qed

definition example_over :: "wav_pipe" where
  "example_over = (new_pipe \<lparr>wi_fd = 0, wi_finished = False, wi_sample_rate = 44100, wi_sample_size = 16,
     wi_channels = 2\<rparr>)\<lparr>in_parent := True\<rparr>"

theorem stream_ends_once_witness:
  "\<exists>srv' d. receive_packets 0 [example_ack 2, example_ack 3]
      (set_session 0 (example_new\<lparr>s_state := STATE_ESTABLSH, s_sink_logic := True, s_pipeline := Some example_over\<rparr>)
        (example_media\<lparr>os_fds := [Some \<lparr>f_rest = [], f_err = Some 5\<rparr>]\<rparr>)) = Ok srv' \<and>
    os_sent srv' = [(example_addr 1, d)] \<and> sent_flags d = FLAG_RST OR FLAG_ERR"
proof -
  let ?s = "example_new\<lparr>s_state := STATE_ESTABLSH, s_sink_logic := True, s_pipeline := Some example_over\<rparr>"
  let ?srv = "set_session 0 ?s (example_media\<lparr>os_fds := [Some \<lparr>f_rest = [], f_err = Some 5\<rparr>]\<rparr>)"
  have "ready_pipe example_over" "fd_open (ws_fd example_over) ?srv = Some \<lparr>f_rest = [], f_err = Some 5\<rparr>"
    by (auto simp: ready_pipe_def example_over_def new_pipe_def create_is_idle fd_open_def)
  then show ?thesis
    using stream_ends_once [of ?srv 0 ?s example_over "Some 5" "example_ack 2" "[example_ack 3]"] example_acks_ok
    by (auto simp: streaming_def seq_step_def)
qed

end
