(* ===== verification/Server_Loop.thy ===== *)
theory Server_Loop
  imports Session_Stream
begin

text \<open>
  The server's socket and its main loop (\<open>sas_server_run\<close> in
  \<open>sas-server/src/server.c\<close>): what it does between two calls of \<open>select\<close>, for each of the answers of \<open>select\<close>
  and \<open>recvfrom\<close>, which are the input of the model.
\<close>

section \<open>The socket\<close>

text \<open>The answers of \<open>socket\<close>, \<open>setsockopt\<close> and \<open>bind\<close>: an error or success.\<close>

definition sas_server_init :: "i32 option \<Rightarrow> i32 option \<Rightarrow> server \<Rightarrow> i32 \<times> server" where
  "sas_server_init socket_error option_error srv =
     (let srv0 = srv\<lparr>srv_fd := - 1\<rparr>
      in case socket_error of
           Some e \<Rightarrow> (e, srv0\<lparr>os_errno := e\<rparr>)
         | None \<Rightarrow>
             let (fd, srv1) = os_socket srv0
             in (case option_error of
                   Some e \<Rightarrow> (let srv2 = os_close fd (srv1\<lparr>os_errno := e\<rparr>) in (os_errno srv2, srv2))
                 | None \<Rightarrow> (0, srv1\<lparr>srv_fd := fd\<rparr>)))"

definition sas_server_bind :: "(sockaddr6 \<Rightarrow> i32 option) \<Rightarrow> server \<Rightarrow> sockaddr6 \<Rightarrow> i32 \<times> server" where
  "sas_server_bind bind_error srv addr =
     (case bind_error addr of Some e \<Rightarrow> (e, srv\<lparr>os_errno := e\<rparr>) | None \<Rightarrow> (0, srv))"

definition sas_server_dealloc :: "server \<Rightarrow> server" where
  "sas_server_dealloc srv = (if 0 \<le> srv_fd srv then os_close (srv_fd srv) srv else srv)"

section \<open>One round of the loop\<close>

text \<open>
  The sessions that have expired are timed out, until one is found that has
  not, which the loop then waits for. The first argument bounds the number of
  rounds: every round but the first and the last takes an entry off the heap.
\<close>

fun expire_loop :: "nat \<Rightarrow> int \<Rightarrow> sid option \<Rightarrow> server \<Rightarrow> (sid option \<times> server) res" where
  "expire_loop 0 now timeout_session srv = Fault Out_Of_Fuel"
| "expire_loop (Suc k) now timeout_session srv =
     (case timeout_session of
        None \<Rightarrow> Ok (None, srv)
      | Some p \<Rightarrow>
          and_then (session_at p srv) (\<lambda>s.
          if s_timeout s \<le> now then
            and_then (sas_server_timeout srv p) (\<lambda>srv1.
            and_then (sas_server_timeout_pop srv1) (\<lambda>(next, srv2).
            expire_loop k now next srv2))
          else Ok (Some p, srv)))"

definition next_timeout :: "server \<Rightarrow> (sid option \<times> server) res" where
  "next_timeout srv =
     and_then (sas_server_timeout_pop srv) (\<lambda>(timeout_session, srv1).
     let (now, srv2) = os_time srv1
     in expire_loop (th_count srv2 + 2) now timeout_session srv2)"

text \<open>What \<open>select\<close> and \<open>recvfrom\<close> give: an error, the timeout, a failed receive or a datagram.\<close>

datatype input =
    Select_Failed i32
  | Select_Timeout
  | Recv_Failed
  | Datagram sockaddr6 bytes

text \<open>The size of the receive buffer, which is used again for every datagram.\<close>

definition buffer_size :: nat where "buffer_size = 4096"

definition handle_datagram :: "sockaddr6 \<Rightarrow> bytes \<Rightarrow> server \<times> bytes \<Rightarrow> (server \<times> bytes) res" where
  "handle_datagram clientaddr dgram = (\<lambda>(srv, buf).
     let buf1 = recv_into buf dgram
     in and_then (sas_server_session_get srv clientaddr) (\<lambda>(session, srv1).
        and_then (header_decode_in_place buf1) (\<lambda>buf2.
        and_then (deref Null_Deref session) (\<lambda>p.
        and_then (sas_server_session_state_machine srv1 p buf2) (\<lambda>srv2.
        let (now, srv3) = os_time srv2
        in and_then (update_session p (\<lambda>s. s\<lparr>s_timeout := now + SESSION_TIMEOUT\<rparr>) srv3) (\<lambda>srv4.
           and_then (sas_server_timeout_add srv4 p) (\<lambda>srv5.
           Ok (srv5, buf2))))))))"

text \<open>The session that was waited for goes back into the heap.\<close>

definition readd :: "sid option \<Rightarrow> server \<Rightarrow> server res" where
  "readd timeout_session srv =
     (case timeout_session of None \<Rightarrow> Ok srv | Some p \<Rightarrow> sas_server_timeout_add srv p)"

text \<open>
  A round ends in the next state (\<open>Inl\<close>), or returns from the loop with an error
  number (\<open>Inr\<close>).
\<close>

definition server_round :: "input \<Rightarrow> server \<times> bytes \<Rightarrow> (server \<times> bytes + i32 \<times> server) res" where
  "server_round i = (\<lambda>(srv, buf).
     and_then (next_timeout srv) (\<lambda>(timeout_session, srv1).
     case i of
       Select_Failed e \<Rightarrow> Ok (Inr (e, srv1\<lparr>os_errno := e\<rparr>))
     | Select_Timeout \<Rightarrow>
         and_then (deref Null_Deref timeout_session) (\<lambda>p.
         and_then (sas_server_timeout srv1 p) (\<lambda>srv2. Ok (Inl (srv2, buf))))
     | Recv_Failed \<Rightarrow>
         and_then (readd timeout_session srv1) (\<lambda>srv2. Ok (Inl (srv2, buf)))
     | Datagram a d \<Rightarrow>
         and_then (readd timeout_session srv1) (\<lambda>srv2.
         and_then (handle_datagram a d (srv2, buf)) (\<lambda>r. Ok (Inl r)))))"

primrec sas_server_run :: "input list \<Rightarrow> server \<times> bytes \<Rightarrow> (server \<times> bytes + i32 \<times> server) res" where
  "sas_server_run [] sb = Ok (Inl sb)"
| "sas_server_run (i # is) sb =
     and_then (server_round i sb) (\<lambda>r.
     case r of Inl sb' \<Rightarrow> sas_server_run is sb' | Inr e \<Rightarrow> Ok (Inr e))"

section \<open>Freed sessions\<close>

lemma update_session_dead:
  "srv_mem srv p = None \<Longrightarrow> update_session p f srv = Fault Use_After_Free"
  by (simp add: update_session_def session_at_def)

lemma srv_mem_os_time [simp]: "srv_mem (snd (os_time srv)) = srv_mem (srv :: server)"
  by (simp add: os_time_def)

text \<open>
  A datagram whose session is deleted while it is handled: the loop writes
  the timeout of the freed session.
\<close>

lemma handle_datagram_freed:
  assumes "sas_server_session_get srv a = Ok (Some p, srv1)"
    and "header_decode_in_place (recv_into buf d) = Ok buf2"
    and "sas_server_session_state_machine srv1 p buf2 = Ok srv2" "srv_mem srv2 p = None"
  shows "handle_datagram a d (srv, buf) = Fault Use_After_Free"
  using assms by (simp add: handle_datagram_def Let_def case_prod_unfold update_session_dead)

end
