(* ===== verification/Server_Run.thy ===== *)
theory Server_Run
  imports Server_Loop
begin

text \<open>
  What the server's loop promises, over the contracts of the table, the heap
  and the sessions: a file is served to a client while the clients that wait
  are left alone, a client that is silent is timed out, and where a session
  that was freed is used again.
\<close>

section \<open>Lookup and the parts of the server it depends on\<close>

lemma session_lookup_same:
  assumes ok: "table_ok srv" and a: "addr_ok a" and mem: "linked srv' = linked srv"
    and same: "ss_table srv' = ss_table srv" "ss_capacity srv' = ss_capacity srv"
      "ss_count srv' = ss_count srv" "srv_fresh srv' = srv_fresh srv"
  shows "session_lookup srv' a = session_lookup srv a"
proof -
  obtain cs where rep: "table_rep srv cs"
    using ok by (auto simp: table_ok_def)
  have rep': "table_rep srv' cs"
    using table_rep_linked [OF rep mem same] .
  have ip: "ip_of x = (\<lambda>p. map_option sa_addr (map_option fst (linked x p)))"
    and port: "port_of x = (\<lambda>p. map_option sa_port (map_option fst (linked x p)))" for x
    by (simp_all add: fun_eq_iff ip_of_def port_of_def linked_def option.map_comp comp_def)
  have "ip_of srv' = ip_of srv" "port_of srv' = port_of srv"
    unfolding ip port mem by simp_all
  then have "bucket_lookup srv' a ps = bucket_lookup srv a ps" for ps
    by (simp add: bucket_lookup_def split: list.split)
  then show ?thesis
    using bucket_of_capacity [OF same(2)] session_lookup_bucket [OF rep a] session_lookup_bucket [OF rep' a] by simp
qed

text \<open>The server but for the heap's array and the clock.\<close>

definition aside :: "server \<Rightarrow> server" where
  "aside srv = srv\<lparr>os_ticks := 0, th_count := 0, th_capacity := 0, th_heap := []\<rparr>"

lemma asideD:
  assumes "aside srv' = aside srv"
  shows "srv_mem srv' = srv_mem srv" "ss_table srv' = ss_table srv" "ss_capacity srv' = ss_capacity srv"
    "ss_count srv' = ss_count srv" "srv_fresh srv' = srv_fresh srv" "os_clock srv' = os_clock srv"
    "os_sent srv' = os_sent srv" "os_send_error srv' = os_send_error srv" "os_files srv' = os_files srv"
    "os_fds srv' = os_fds srv" "srv_malloc_ok srv' = srv_malloc_ok srv" "srv_junk srv' = srv_junk srv"
    "srv_stack srv' = srv_stack srv"
proof -
  have "srv_mem (aside x) = srv_mem x" "ss_table (aside x) = ss_table x" "ss_capacity (aside x) = ss_capacity x"
    "ss_count (aside x) = ss_count x" "srv_fresh (aside x) = srv_fresh x" "os_clock (aside x) = os_clock x"
    "os_sent (aside x) = os_sent x" "os_send_error (aside x) = os_send_error x" "os_files (aside x) = os_files x"
    "os_fds (aside x) = os_fds x" "srv_malloc_ok (aside x) = srv_malloc_ok x" "srv_junk (aside x) = srv_junk x"
    "srv_stack (aside x) = srv_stack x" for x
    by (simp_all add: aside_def)
  then show "srv_mem srv' = srv_mem srv" "ss_table srv' = ss_table srv" "ss_capacity srv' = ss_capacity srv"
    "ss_count srv' = ss_count srv" "srv_fresh srv' = srv_fresh srv" "os_clock srv' = os_clock srv"
    "os_sent srv' = os_sent srv" "os_send_error srv' = os_send_error srv" "os_files srv' = os_files srv"
    "os_fds srv' = os_fds srv" "srv_malloc_ok srv' = srv_malloc_ok srv" "srv_junk srv' = srv_junk srv"
    "srv_stack srv' = srv_stack srv"
    using assms by metis+
qed

lemma aside_table:
  assumes "aside srv' = aside srv"
  shows "table_ok srv' \<longleftrightarrow> table_ok srv" "contents srv' = contents srv"
    "addr_ok a \<Longrightarrow> table_ok srv \<Longrightarrow> session_lookup srv' a = session_lookup srv a"
    "timeout_of srv' = timeout_of srv"
    "mid_stream srv' p s data = mid_stream srv p s data"
    "stream_over srv' p s = stream_over srv p s"
proof -
  note d = asideD [OF assms]
  have l: "linked srv' = linked srv"
    by (simp add: linked_def fun_eq_iff d)
  show "table_ok srv' \<longleftrightarrow> table_ok srv"
    using table_ok_linked [OF _ l] table_ok_linked [OF _ l [symmetric]] d by auto
  show "contents srv' = contents srv"
    by (simp add: contents_def fun_eq_iff d)
  show "session_lookup srv' a = session_lookup srv a" if "addr_ok a" "table_ok srv"
    using session_lookup_same [OF that(2,1) l] d by simp
  show "timeout_of srv' = timeout_of srv"
    by (simp add: timeout_of_def fun_eq_iff d)
  show "mid_stream srv' p s data = mid_stream srv p s data"
    by (simp add: mid_stream_def d fd_open_def split: option.split)
  show "stream_over srv' p s = stream_over srv p s"
    by (simp add: stream_over_def d)
qed

lemma aside_os_time [simp]: "aside (snd (os_time srv)) = aside srv"
  by (simp add: aside_def os_time_def)

section \<open>A round in which no session expires\<close>

lemma quiet_wait:
  assumes live: "heap_live srv"
    and quiet: "\<And>q. q \<in> set (entries srv) \<Longrightarrow> os_clock srv (os_ticks srv) < timeout_of srv q"
  shows "\<exists>t srv1 srv2. next_timeout srv = Ok (t, srv1) \<and> readd t srv1 = Ok srv2 \<and> heap_live srv2 \<and>
    mset (entries srv2) = mset (entries srv) \<and> aside srv2 = aside srv \<and> os_ticks srv2 = os_ticks srv + 1"
proof (cases "th_count srv = 0")
  case True
  have "heap_live (snd (os_time srv))" "entries (snd (os_time srv)) = entries srv"
    using live by (simp_all add: os_time_def heap_live_def entries_def)
  moreover have "os_ticks (snd (os_time srv)) = os_ticks srv + 1"
    by (simp add: os_time_def)
  moreover have "next_timeout srv = Ok (None, snd (os_time srv))"
    by (simp add: next_timeout_def timeout_pop_empty [OF True] case_prod_unfold Let_def)
  moreover have "readd None (snd (os_time srv)) = Ok (snd (os_time srv))"
    by (simp add: readd_def)
  ultimately show ?thesis
    by (intro exI [of _ None] exI [of _ "snd (os_time srv)"]) simp
next
  case False
  then have n: "0 < th_count srv" by simp
  let ?q = "hd (entries srv)"
  obtain srv1 where pop: "sas_server_timeout_pop srv = Ok (Some ?q, srv1)" "heap_live srv1"
    "mset (entries srv) = add_mset ?q (mset (entries srv1))"
    "srv1 = srv\<lparr>th_count := th_count srv - 1, th_heap := th_heap srv1\<rparr>"
    using timeout_pop_spec [OF live n] by blast
  have same: "aside srv1 = aside srv" "os_ticks srv1 = os_ticks srv"
    by (subst pop(4), simp add: aside_def)+
  note d = asideD [OF same(1)]
  have q: "?q \<in> set (entries srv)"
    using pop(3) by (metis union_single_eq_member set_mset_mset)
  then have "srv_mem srv ?q \<noteq> None"
    using heap_at_live(2) [OF live] length_entries [OF live] by (metis in_set_conv_nth)
  then obtain s where s: "srv_mem srv ?q = Some s" by blast
  let ?srv2 = "snd (os_time srv1)"
  have live2: "heap_live ?srv2" "entries ?srv2 = entries srv1" "srv_mem ?srv2 = srv_mem srv1"
    "os_ticks ?srv2 = os_ticks srv + 1"
    using pop(2) same(2) by (simp_all add: os_time_def heap_live_def entries_def)
  have now: "fst (os_time srv1) = os_clock srv (os_ticks srv)"
    using same(2) d(6) by (simp add: os_time_def)
  have "\<not> s_timeout s \<le> os_clock srv (os_ticks srv)"
    using quiet [OF q] s by (simp add: timeout_of_def)
  then have next_t: "next_timeout srv = Ok (Some ?q, ?srv2)"
    using s by (simp add: next_timeout_def pop(1) case_prod_unfold Let_def now session_at_def live2(3) d(1))
  obtain srv3 where add: "sas_server_timeout_add ?srv2 ?q = Ok srv3" "heap_live srv3"
    "mset (entries srv3) = add_mset ?q (mset (entries ?srv2))"
    "srv3 = ?srv2\<lparr>th_count := th_count srv3, th_capacity := th_capacity srv3, th_heap := th_heap srv3\<rparr>"
    using timeout_add_spec [OF live2(1), of ?q] s live2(3) d(1) by auto
  have "aside srv3 = aside ?srv2" "os_ticks srv3 = os_ticks ?srv2"
    by (subst add(4), simp add: aside_def)+
  then show ?thesis
    using next_t add(1-3) pop(3) same(1) live2(2,4)
    by (intro exI [of _ "Some ?q"] exI [of _ ?srv2] exI [of _ srv3]) (simp add: readd_def)
qed

lemma heap_live_same:
  assumes "heap_live srv" "th_heap srv' = th_heap srv" "th_count srv' = th_count srv"
    "th_capacity srv' = th_capacity srv" "\<And>p. srv_mem srv p \<noteq> None \<Longrightarrow> srv_mem srv' p \<noteq> None"
  shows "heap_live srv'" "entries srv' = entries srv"
proof -
  show "heap_live srv'"
    unfolding heap_live_def assms(2-4) using assms(1,5) unfolding heap_live_def by meson
  show "entries srv' = entries srv"
    by (simp add: entries_def assms(2,3))
qed

text \<open>What follows on a packet that its session handles without being deleted.\<close>

lemma handle_datagram_live:
  assumes "sas_server_session_get srv a = Ok (Some p, srv1)"
    and "header_decode_in_place (recv_into buf d) = Ok buf2"
    and "sas_server_session_state_machine srv1 p buf2 = Ok srv2" "srv_mem srv2 p = Some s" "heap_live srv2"
  shows "\<exists>srv'. handle_datagram a d (srv, buf) = Ok (srv', buf2) \<and> heap_live srv' \<and>
    mset (entries srv') = add_mset p (mset (entries srv2)) \<and> os_ticks srv' = os_ticks srv2 + 1 \<and>
    aside srv' = aside (set_session p (s\<lparr>s_timeout := os_clock srv2 (os_ticks srv2) + SESSION_TIMEOUT\<rparr>) srv2)"
proof -
  let ?s = "s\<lparr>s_timeout := os_clock srv2 (os_ticks srv2) + SESSION_TIMEOUT\<rparr>"
  let ?srv3 = "snd (os_time srv2)" and ?srv4 = "set_session p ?s (snd (os_time srv2))"
  have live: "heap_live ?srv4" "entries ?srv4 = entries srv2"
    by (rule heap_live_same [OF assms(5)]; simp add: os_time_def set_session_def)+
  obtain srv' where srv': "sas_server_timeout_add ?srv4 p = Ok srv'" "heap_live srv'"
    "mset (entries srv') = add_mset p (mset (entries ?srv4))"
    "srv' = ?srv4\<lparr>th_count := th_count srv', th_capacity := th_capacity srv', th_heap := th_heap srv'\<rparr>"
    using timeout_add_spec [OF live(1), of p] by auto
  have "aside srv' = aside ?srv4" "os_ticks srv' = os_ticks ?srv4"
    by (subst srv'(4), simp add: aside_def)+
  moreover have "aside ?srv4 = aside (set_session p ?s srv2)" "os_ticks ?srv4 = os_ticks srv2 + 1"
    by (simp_all add: aside_def set_session_def os_time_def)
  moreover have "update_session p (\<lambda>s. s\<lparr>s_timeout := fst (os_time srv2) + SESSION_TIMEOUT\<rparr>) ?srv3 = Ok ?srv4"
    using assms(4) by (simp add: update_session_def session_at_def os_time_def)
  ultimately show ?thesis
    using assms srv' live(2)
    by (intro exI [of _ srv']) (simp add: handle_datagram_def Let_def case_prod_unfold)
qed

text \<open>
  The clock a client sees: less than a session's time passes between two
  readings, and the sessions that wait, but for \<open>p\<close>, have time enough.
\<close>

definition calm :: "server \<Rightarrow> sid \<Rightarrow> bool" where
  "calm srv p \<longleftrightarrow> (\<forall>k. os_clock srv (Suc k) < os_clock srv k + SESSION_TIMEOUT) \<and>
     (\<forall>q \<in> set (entries srv).
        if q = p then os_clock srv (os_ticks srv) < timeout_of srv q
        else \<forall>k. os_clock srv k < timeout_of srv q)"

lemma calm_quiet: "calm srv p \<Longrightarrow> q \<in> set (entries srv) \<Longrightarrow> os_clock srv (os_ticks srv) < timeout_of srv q"
  by (auto simp: calm_def split: if_splits)

lemma calm_handled:
  assumes calm: "calm srv p"
    and "os_clock srv2 = os_clock srv" "os_ticks srv2 = os_ticks srv + 1"
      "mset (entries srv2) = mset (entries srv)" "heap_live srv2"
      "\<And>q. q \<in> set (entries srv) \<Longrightarrow> q \<noteq> p \<Longrightarrow> timeout_of srv2 q = timeout_of srv q"
    and "sas_server_session_get srv1 a = Ok (Some p, srv2)" "header_decode_in_place (recv_into buf d) = Ok buf2"
    and sm: "sas_server_session_state_machine srv2 p buf2 = Ok srv3" "frame_of srv3 = frame_of srv2"
      "srv_mem srv3 = (srv_mem srv2)(p \<mapsto> s)"
  shows "\<exists>srv' t. handle_datagram a d (srv1, buf) = Ok (srv', buf2) \<and> heap_live srv' \<and> calm srv' p \<and>
    mset (entries srv') = add_mset p (mset (entries srv)) \<and>
    aside srv' = aside (set_session p (s\<lparr>s_timeout := t\<rparr>) srv3)"
proof -
  note frame = frame_ofD [OF sm(2)]
  have live: "heap_live srv3" "entries srv3 = entries srv2"
    by (rule heap_live_same [OF assms(5)]; simp add: frame sm(3))+
  have mem: "srv_mem srv3 p = Some s"
    by (simp add: sm(3))
  let ?t = "os_clock srv3 (os_ticks srv3) + SESSION_TIMEOUT"
  obtain srv' where srv': "handle_datagram a d (srv1, buf) = Ok (srv', buf2)" "heap_live srv'"
    "mset (entries srv') = add_mset p (mset (entries srv3))" "os_ticks srv' = os_ticks srv3 + 1"
    "aside srv' = aside (set_session p (s\<lparr>s_timeout := ?t\<rparr>) srv3)"
    using handle_datagram_live [OF assms(7,8) sm(1) mem live(1)] by blast
  have entries: "mset (entries srv') = add_mset p (mset (entries srv))"
    using srv'(3) live(2) assms(4) by simp
  have clock: "os_clock srv' = os_clock srv" "os_ticks srv' = os_ticks srv + 2" "os_ticks srv3 = os_ticks srv + 1"
    using asideD(6) [OF srv'(5)] srv'(4) frame(8,9) assms(2,3) by (simp_all add: set_session_def)
  have time: "timeout_of srv' = (timeout_of srv2)(p := ?t)"
    using aside_table(4) [OF srv'(5)] by (auto simp: timeout_of_def sm(3) fun_eq_iff)
  have "calm srv' p"
    unfolding calm_def clock(1,2) time
  proof (intro conjI ballI)
    show "\<forall>k. os_clock srv (Suc k) < os_clock srv k + SESSION_TIMEOUT"
      using calm by (simp add: calm_def)
    fix q
    assume "q \<in> set (entries srv')"
    then have q: "q = p \<or> q \<in> set (entries srv)"
      using arg_cong [OF entries, of set_mset] by auto
    have "os_clock srv (Suc (Suc (os_ticks srv))) < os_clock srv (Suc (os_ticks srv)) + SESSION_TIMEOUT"
      using calm by (simp add: calm_def)
    then show "if q = p then os_clock srv (os_ticks srv + 2) < ((timeout_of srv2)(p := ?t)) q
        else \<forall>k. os_clock srv k < ((timeout_of srv2)(p := ?t)) q"
      using q calm assms(6) [of q] frame(8) assms(2) clock(3) by (auto simp: calm_def)
  qed
  with srv' entries show ?thesis by blast
qed

section \<open>A datagram in the receive buffer\<close>

lemma syn_datagram_decoded:
  assumes "length pad = 2" "length (syn_datagram pad h name) \<le> length buf"
  shows "header_decode_in_place (recv_into buf (syn_datagram pad h name)) =
    Ok (syn_buffer pad h 0 (name @ drop (length (syn_datagram pad h name)) buf))"
  using header_decode_in_place_sent [OF assms(1)] assms(2)
  by (simp add: recv_into_def syn_datagram_def syn_buffer_def cfg_encode_def)

text \<open>Datagrams that arrive in order behind the acknowledgement number \<open>ack\<close>, without a reset.\<close>

fun datagrams_ok :: "u32 \<Rightarrow> bytes list \<Rightarrow> bool" where
  "datagrams_ok ack [] \<longleftrightarrow> True"
| "datagrams_ok ack (d # ds) \<longleftrightarrow> sizeof_header \<le> length d \<and>
     (case header_load d of
        Fault e \<Rightarrow> False
      | Ok w \<Rightarrow>
          let h = header_decode w
          in \<not> hd_seq h < ack \<and> \<not> flag_isset (hd_flags h) FLAG_RST \<and>
             datagrams_ok (hd_seq h + seq_step (hd_length h)) ds)"

section \<open>Serving a file\<close>

text \<open>A server in the middle of a file for the client at \<open>a\<close>, whose session is \<open>p\<close>.\<close>

definition serving :: "server \<Rightarrow> sid \<Rightarrow> sockaddr6 \<Rightarrow> session \<Rightarrow> bytes \<Rightarrow> bool" where
  "serving srv p a s data \<longleftrightarrow> mid_stream srv p s data \<and> table_ok srv \<and> session_lookup srv a = Some p \<and>
     s_addr s = a \<and> heap_live srv \<and> calm srv p"

text \<open>The same server behind the end of the stream.\<close>

definition ended :: "server \<Rightarrow> sid \<Rightarrow> sockaddr6 \<Rightarrow> session \<Rightarrow> bool" where
  "ended srv p a s \<longleftrightarrow> stream_over srv p s \<and> table_ok srv \<and> session_lookup srv a = Some p \<and>
     s_addr s = a \<and> heap_live srv \<and> calm srv p"

lemma stream_over_timeout:
  "stream_over srv p s \<Longrightarrow> stream_over (set_session p (s\<lparr>s_timeout := t\<rparr>) srv) p (s\<lparr>s_timeout := t\<rparr>)"
  by (simp add: stream_over_def streaming_def)

lemma mid_stream_timeout:
  "mid_stream srv p s data \<Longrightarrow> mid_stream (set_session p (s\<lparr>s_timeout := t\<rparr>) srv) p (s\<lparr>s_timeout := t\<rparr>) data"
  by (simp add: mid_stream_def streaming_def split: option.splits)

lemma linked_update:
  assumes "srv_mem srv p = Some s" "srv_mem srv' = (srv_mem srv)(p \<mapsto> s')" "s_addr s' = s_addr s" "s_next s' = s_next s"
  shows "linked srv' = linked srv"
  using assms by (auto simp: linked_def fun_eq_iff)

text \<open>A session that was handled, and its timeout set, is still found, in a table in order.\<close>

lemma handled_table:
  assumes ok: "table_ok srv" "addr_ok a" "srv_mem srv p = Some s"
    and sm: "frame_of srv3 = frame_of srv" "srv_mem srv3 = (srv_mem srv)(p \<mapsto> s')"
      "s_addr s' = s_addr s" "s_next s' = s_next s"
    and aside: "aside srv' = aside (set_session p (s'\<lparr>s_timeout := t\<rparr>) srv3)"
  shows "table_ok srv'" "session_lookup srv' a = session_lookup srv a"
    "srv_mem srv' = (srv_mem srv)(p \<mapsto> s'\<lparr>s_timeout := t\<rparr>)"
proof -
  let ?srv = "set_session p (s'\<lparr>s_timeout := t\<rparr>) srv3"
  have l: "linked ?srv = linked srv"
    by (rule linked_update [OF ok(3), where s' = "s'\<lparr>s_timeout := t\<rparr>"]) (simp_all add: sm)
  have same: "ss_table ?srv = ss_table srv" "ss_capacity ?srv = ss_capacity srv"
    "ss_count ?srv = ss_count srv" "srv_fresh ?srv = srv_fresh srv"
    using frame_ofD [OF sm(1)] by simp_all
  have t: "table_ok ?srv"
    using table_ok_linked [OF ok(1) l] same by simp
  then show "table_ok srv'"
    using aside_table(1) [OF aside] by simp
  show "session_lookup srv' a = session_lookup srv a"
    using aside_table(3) [OF aside ok(2) t] session_lookup_same [OF ok(1,2) l] same by simp
  show "srv_mem srv' = (srv_mem srv)(p \<mapsto> s'\<lparr>s_timeout := t\<rparr>)"
    using asideD(1) [OF aside] by (simp add: sm(2))
qed

text \<open>
  The round in which a packet of a known client arrives, for whatever its session
  does with it but being deleted.
\<close>

lemma known_client_round:
  assumes inv: "table_ok srv" "heap_live srv" "calm srv p" "session_lookup srv a = Some p" "addr_ok a"
      "srv_mem srv p = Some s"
    and d: "header_load d = Ok w" "16 \<le> length d" "16 \<le> length buf"
  shows "\<exists>srv2 buf'. aside srv2 = aside srv \<and> length buf' = length buf \<and> header_load buf' = Ok (header_decode w) \<and>
    (\<forall>srv3 s3. sas_server_session_state_machine srv2 p buf' = Ok srv3 \<longrightarrow> frame_of srv3 = frame_of srv2 \<longrightarrow>
      srv_mem srv3 = (srv_mem srv2)(p \<mapsto> s3) \<longrightarrow> s_addr s3 = s_addr s \<longrightarrow> s_next s3 = s_next s \<longrightarrow>
      (\<exists>srv' u. server_round (Datagram a d) (srv, buf) = Ok (Inl (srv', buf')) \<and> heap_live srv' \<and> calm srv' p \<and>
        mset (entries srv') = add_mset p (mset (entries srv)) \<and> table_ok srv' \<and> session_lookup srv' a = Some p \<and>
        aside srv' = aside (set_session p (s3\<lparr>s_timeout := u\<rparr>) srv3)))"
proof -
  obtain buf' where buf': "header_decode_in_place (recv_into buf d) = Ok buf'" "length buf' = length buf"
    "header_load buf' = Ok (header_decode w)"
    using datagram_decoded [OF d] by blast
  obtain t srv1 srv2 where wait: "next_timeout srv = Ok (t, srv1)" "readd t srv1 = Ok srv2" "heap_live srv2"
    "mset (entries srv2) = mset (entries srv)" "aside srv2 = aside srv" "os_ticks srv2 = os_ticks srv + 1"
    using quiet_wait [OF inv(2) calm_quiet [OF inv(3)]] by blast
  note as = aside_table [OF wait(5)] and same = asideD [OF wait(5)]
  have two: "table_ok srv2" "session_lookup srv2 a = Some p" "srv_mem srv2 p = Some s"
    using inv as same by simp_all
  have get: "sas_server_session_get srv2 a = Ok (Some p, srv2)"
    by (rule sessions.get_found [OF two(1) inv(5) two(2)])
  have round: "\<exists>srv' u. server_round (Datagram a d) (srv, buf) = Ok (Inl (srv', buf')) \<and> heap_live srv' \<and> calm srv' p \<and>
      mset (entries srv') = add_mset p (mset (entries srv)) \<and> table_ok srv' \<and> session_lookup srv' a = Some p \<and>
      aside srv' = aside (set_session p (s3\<lparr>s_timeout := u\<rparr>) srv3)"
    if sm: "sas_server_session_state_machine srv2 p buf' = Ok srv3" "frame_of srv3 = frame_of srv2"
      "srv_mem srv3 = (srv_mem srv2)(p \<mapsto> s3)" "s_addr s3 = s_addr s" "s_next s3 = s_next s" for srv3 s3
  proof -
    obtain srv' u where srv': "handle_datagram a d (srv2, buf) = Ok (srv', buf')" "heap_live srv'" "calm srv' p"
      "mset (entries srv') = add_mset p (mset (entries srv))"
      "aside srv' = aside (set_session p (s3\<lparr>s_timeout := u\<rparr>) srv3)"
      using calm_handled [OF inv(3) same(6) wait(6,4,3) _ get buf'(1) sm(1-3)] as(4) by auto
    note table = handled_table [OF two(1) inv(5) two(3) sm(2-5) srv'(5)]
    have "server_round (Datagram a d) (srv, buf) = Ok (Inl (srv', buf'))"
      using wait(1,2) srv'(1) by (simp add: server_round_def)
    then show ?thesis
      using srv'(2-5) table(1,2) two(2) by auto
  qed
  show ?thesis
    using wait(5) buf'(2,3) round by blast
qed

lemma serve_packet:
  assumes srv: "serving srv p a s data" "addr_ok a" and buf: "16 \<le> length buf"
    and d: "datagrams_ok (s_ack s) (d # ds)"
  shows "\<exists>srv' s' buf' pk. server_round (Datagram a d) (srv, buf) = Ok (Inl (srv', buf')) \<and>
    length buf' = length buf \<and> os_sent srv' = os_sent srv @ [(a, pk)] \<and> sent_seq pk = s_seq s \<and>
    sent_flags pk = next_flags data \<and> pk_payload pk = next_payload data \<and>
    s_seq s' = s_seq s + seq_step (of_nat (length (next_payload data))) \<and> datagrams_ok (s_ack s') ds \<and>
    mset (entries srv') = add_mset p (mset (entries srv)) \<and> heap_live srv' \<and> table_ok srv' \<and>
    packet_ok pk \<and> (data = [] \<longrightarrow> ended srv' p a s') \<and> (data \<noteq> [] \<longrightarrow> serving srv' p a s' (drop 1024 data)) \<and>
    (\<forall>w. header_load d = Ok w \<longrightarrow>
      s_ack s' = hd_seq (header_decode w) + seq_step (hd_length (header_decode w)))"
proof -
  obtain w where w: "header_load d = Ok w" "16 \<le> length d" "\<not> hd_seq (header_decode w) < s_ack s"
    "\<not> flag_isset (hd_flags (header_decode w)) FLAG_RST"
    "datagrams_ok (hd_seq (header_decode w) + seq_step (hd_length (header_decode w))) ds"
    using d by (auto simp: Let_def sizeof_defs split: res.splits)
  have inv: "mid_stream srv p s data" "table_ok srv" "session_lookup srv a = Some p" "s_addr s = a"
    "heap_live srv" "calm srv p"
    using srv(1) by (simp_all add: serving_def)
  then have mem: "srv_mem srv p = Some s"
    by (simp add: mid_stream_def)
  obtain srv2 buf' where two: "aside srv2 = aside srv" "length buf' = length buf"
    "header_load buf' = Ok (header_decode w)"
    and round: "\<And>srv3 s3. sas_server_session_state_machine srv2 p buf' = Ok srv3 \<Longrightarrow> frame_of srv3 = frame_of srv2 \<Longrightarrow>
      srv_mem srv3 = (srv_mem srv2)(p \<mapsto> s3) \<Longrightarrow> s_addr s3 = s_addr s \<Longrightarrow> s_next s3 = s_next s \<Longrightarrow>
      \<exists>srv' u. server_round (Datagram a d) (srv, buf) = Ok (Inl (srv', buf')) \<and> heap_live srv' \<and> calm srv' p \<and>
        mset (entries srv') = add_mset p (mset (entries srv)) \<and> table_ok srv' \<and> session_lookup srv' a = Some p \<and>
        aside srv' = aside (set_session p (s3\<lparr>s_timeout := u\<rparr>) srv3)"
    using known_client_round [OF inv(2,5,6,3) srv(2) mem w(1,2) buf] by blast
  have mid: "mid_stream srv2 p s data"
    using aside_table(5) [OF two(1)] inv(1) by simp
  let ?pk = "next_packet (accept (header_decode w) s) (next_flags data) (next_payload data)"
  obtain srv3 s3 where sm: "sas_server_session_state_machine srv2 p buf' = Ok srv3"
    "os_sent srv3 = os_sent srv2 @ [(a, ?pk)]" "s_addr s3 = s_addr s"
    "s_seq s3 = s_seq s + seq_step (of_nat (length (next_payload data)))"
    "s_ack s3 = hd_seq (header_decode w) + seq_step (hd_length (header_decode w))" "s_next s3 = s_next s"
    "data = [] \<longrightarrow> stream_over srv3 p s3" "data \<noteq> [] \<longrightarrow> mid_stream srv3 p s3 (drop 1024 data)"
    "frame_of srv3 = frame_of srv2" "srv_mem srv3 = (srv_mem srv2)(p \<mapsto> s3)"
    using mid_stream_step [OF mid two(3) w(3,4)] inv(4) by blast
  obtain srv' u where srv': "server_round (Datagram a d) (srv, buf) = Ok (Inl (srv', buf'))" "heap_live srv'"
    "calm srv' p" "mset (entries srv') = add_mset p (mset (entries srv))" "table_ok srv'" "session_lookup srv' a = Some p"
    "aside srv' = aside (set_session p (s3\<lparr>s_timeout := u\<rparr>) srv3)"
    using round [OF sm(1,9,10,3,6)] by blast
  have sent: "os_sent srv' = os_sent srv @ [(a, ?pk)]"
    using asideD(7) [OF srv'(7)] sm(2) asideD(7) [OF two(1)] by simp
  have "serving srv' p a (s3\<lparr>s_timeout := u\<rparr>) (drop 1024 data)" if "data \<noteq> []"
  proof -
    have "mid_stream srv' p (s3\<lparr>s_timeout := u\<rparr>) (drop 1024 data)"
      using aside_table(5) [OF srv'(7)] mid_stream_timeout sm(8) that by simp
    then show ?thesis
      using srv'(2-6) sm(3) inv(4) by (simp add: serving_def)
  qed
  moreover have "ended srv' p a (s3\<lparr>s_timeout := u\<rparr>)" if "data = []"
  proof -
    have "stream_over srv' p (s3\<lparr>s_timeout := u\<rparr>)"
      using aside_table(6) [OF srv'(7)] stream_over_timeout sm(7) that by simp
    then show ?thesis
      using srv'(2-6) sm(3) inv(4) by (simp add: ended_def)
  qed
  moreover have "packet_ok ?pk"
    by (simp add: next_payload_def)
  ultimately show ?thesis
    using srv'(1) two(2) sent sm(4,5) w(1,5) srv'(2,4,5)
    by (intro exI [of _ srv'] exI [of _ "s3\<lparr>s_timeout := u\<rparr>"] exI [of _ buf'] exI [of _ ?pk]) simp
qed

text \<open>Behind the end of the stream, a packet is acknowledged and answered with nothing.\<close>

lemma ignore_packet:
  assumes srv: "ended srv p a s" "addr_ok a" and buf: "16 \<le> length buf"
    and w: "header_load d = Ok w" "16 \<le> length d" "\<not> hd_seq (header_decode w) < s_ack s"
      "\<not> flag_isset (hd_flags (header_decode w)) FLAG_RST"
  shows "\<exists>srv' s' buf'. server_round (Datagram a d) (srv, buf) = Ok (Inl (srv', buf')) \<and>
    length buf' = length buf \<and> os_sent srv' = os_sent srv \<and> ended srv' p a s' \<and> s_seq s' = s_seq s \<and>
    s_ack s' = hd_seq (header_decode w) + seq_step (hd_length (header_decode w))"
proof -
  have inv: "stream_over srv p s" "table_ok srv" "session_lookup srv a = Some p" "s_addr s = a"
    "heap_live srv" "calm srv p"
    using srv(1) by (simp_all add: ended_def)
  then have mem: "srv_mem srv p = Some s"
    by (simp add: stream_over_def)
  obtain srv2 buf' where two: "aside srv2 = aside srv" "length buf' = length buf"
    "header_load buf' = Ok (header_decode w)"
    and round: "\<And>srv3 s3. sas_server_session_state_machine srv2 p buf' = Ok srv3 \<Longrightarrow> frame_of srv3 = frame_of srv2 \<Longrightarrow>
      srv_mem srv3 = (srv_mem srv2)(p \<mapsto> s3) \<Longrightarrow> s_addr s3 = s_addr s \<Longrightarrow> s_next s3 = s_next s \<Longrightarrow>
      \<exists>srv' u. server_round (Datagram a d) (srv, buf) = Ok (Inl (srv', buf')) \<and> heap_live srv' \<and> calm srv' p \<and>
        mset (entries srv') = add_mset p (mset (entries srv)) \<and> table_ok srv' \<and> session_lookup srv' a = Some p \<and>
        aside srv' = aside (set_session p (s3\<lparr>s_timeout := u\<rparr>) srv3)"
    using known_client_round [OF inv(2,5,6,3) srv(2) mem w(1,2) buf] by blast
  have over: "stream_over srv2 p s"
    using aside_table(6) [OF two(1)] inv(1) by simp
  obtain srv3 s3 where sm: "sas_server_session_state_machine srv2 p buf' = Ok srv3" "stream_over srv3 p s3"
    "s_ack s3 = hd_seq (header_decode w) + seq_step (hd_length (header_decode w))" "os_sent srv3 = os_sent srv2"
    "s_addr s3 = s_addr s" "s_seq s3 = s_seq s" "s_next s3 = s_next s" "frame_of srv3 = frame_of srv2"
    "srv_mem srv3 = (srv_mem srv2)(p \<mapsto> s3)"
    using stream_over_step [OF over two(3) w(3,4)] by blast
  obtain srv' u where srv': "server_round (Datagram a d) (srv, buf) = Ok (Inl (srv', buf'))" "heap_live srv'"
    "calm srv' p" "table_ok srv'" "session_lookup srv' a = Some p"
    "aside srv' = aside (set_session p (s3\<lparr>s_timeout := u\<rparr>) srv3)"
    using round [OF sm(1,8,9,5,7)] by blast
  have "stream_over srv' p (s3\<lparr>s_timeout := u\<rparr>)"
    using aside_table(6) [OF srv'(6)] stream_over_timeout sm(2) by simp
  then have "ended srv' p a (s3\<lparr>s_timeout := u\<rparr>)"
    using srv'(2-5) sm(5) inv(4) by (simp add: ended_def)
  moreover have "os_sent srv' = os_sent srv"
    using asideD(7) [OF srv'(6)] sm(4) asideD(7) [OF two(1)] by simp
  ultimately show ?thesis
    using srv'(1) two(2) sm(3,6)
    by (intro exI [of _ srv'] exI [of _ "s3\<lparr>s_timeout := u\<rparr>"] exI [of _ buf']) simp
qed

text \<open>A packet whose sequence number is an old one changes nothing but the session's timeout.\<close>

lemma old_packet_round:
  assumes srv: "(\<exists>data. serving srv p a s data) \<or> ended srv p a s" and a: "addr_ok a" and buf: "16 \<le> length buf"
    and w: "header_load d = Ok w" "16 \<le> length d" "hd_seq (header_decode w) < s_ack s"
  shows "\<exists>srv' buf' u. server_round (Datagram a d) (srv, buf) = Ok (Inl (srv', buf')) \<and>
    length buf' = length buf \<and> os_sent srv' = os_sent srv \<and>
    (\<forall>data. serving srv p a s data \<longrightarrow> serving srv' p a (s\<lparr>s_timeout := u\<rparr>) data) \<and>
    (ended srv p a s \<longrightarrow> ended srv' p a (s\<lparr>s_timeout := u\<rparr>))"
proof -
  have inv: "table_ok srv" "heap_live srv" "calm srv p" "session_lookup srv a = Some p" "srv_mem srv p = Some s"
    "s_addr s = a"
    using srv by (auto simp: serving_def ended_def mid_stream_def stream_over_def)
  obtain srv2 buf' where two: "aside srv2 = aside srv" "length buf' = length buf"
    "header_load buf' = Ok (header_decode w)"
    and round: "\<And>srv3 s3. sas_server_session_state_machine srv2 p buf' = Ok srv3 \<Longrightarrow> frame_of srv3 = frame_of srv2 \<Longrightarrow>
      srv_mem srv3 = (srv_mem srv2)(p \<mapsto> s3) \<Longrightarrow> s_addr s3 = s_addr s \<Longrightarrow> s_next s3 = s_next s \<Longrightarrow>
      \<exists>srv' u. server_round (Datagram a d) (srv, buf) = Ok (Inl (srv', buf')) \<and> heap_live srv' \<and> calm srv' p \<and>
        mset (entries srv') = add_mset p (mset (entries srv)) \<and> table_ok srv' \<and> session_lookup srv' a = Some p \<and>
        aside srv' = aside (set_session p (s3\<lparr>s_timeout := u\<rparr>) srv3)"
    using known_client_round [OF inv(1-4) a inv(5) w(1,2) buf] by blast
  have mem: "srv_mem srv2 p = Some s"
    using asideD(1) [OF two(1)] inv(5) by simp
  obtain srv' u where srv': "server_round (Datagram a d) (srv, buf) = Ok (Inl (srv', buf'))" "heap_live srv'"
    "calm srv' p" "table_ok srv'" "session_lookup srv' a = Some p"
    "aside srv' = aside (set_session p (s\<lparr>s_timeout := u\<rparr>) srv2)"
    using round [OF state_machine_old [OF two(3) mem w(3)], of s] mem by (auto simp: fun_upd_idem)
  have mid: "mid_stream srv' p (s\<lparr>s_timeout := u\<rparr>) data" if "mid_stream srv p s data" for data
    using aside_table(5) [OF srv'(6)] mid_stream_timeout aside_table(5) [OF two(1)] that by simp
  have over: "stream_over srv' p (s\<lparr>s_timeout := u\<rparr>)" if "stream_over srv p s"
    using aside_table(6) [OF srv'(6)] stream_over_timeout aside_table(6) [OF two(1)] that by simp
  have sent: "os_sent srv' = os_sent srv"
    using asideD(7) [OF srv'(6)] asideD(7) [OF two(1)] by simp
  show ?thesis
    using srv'(1-5) two(2) inv(6) mid over sent
    by (intro exI [of _ srv'] exI [of _ buf'] exI [of _ u]) (simp add: serving_def ended_def)
qed

lemma serve_packets:
  assumes "serving srv p a s data" "addr_ok a" "16 \<le> length buf"
    and "datagrams_ok (s_ack s) ds" "length ds = length (chunks data) + 1"
  shows "\<exists>srv' buf' pks. sas_server_run (map (Datagram a) ds) (srv, buf) = Ok (Inl (srv', buf')) \<and>
    os_sent srv' = os_sent srv @ map (Pair a) pks \<and> map pk_payload pks = chunks data @ [[]] \<and>
    map sent_flags pks = replicate (length (chunks data)) 0 @ [FLAG_RST OR FLAG_FIN] \<and>
    numbered (s_seq s) pks \<and> mset (entries srv') = mset (entries srv) + replicate_mset (length ds) p \<and>
    heap_live srv' \<and> table_ok srv'"
  using assms
proof (induction ds arbitrary: srv s data buf)
  case Nil
  then show ?case by simp
next
  case (Cons d ds)
  obtain srv1 s1 buf1 pk where step: "server_round (Datagram a d) (srv, buf) = Ok (Inl (srv1, buf1))"
    "length buf1 = length buf" "os_sent srv1 = os_sent srv @ [(a, pk)]" "sent_seq pk = s_seq s"
    "sent_flags pk = next_flags data" "pk_payload pk = next_payload data"
    "s_seq s1 = s_seq s + seq_step (of_nat (length (next_payload data)))" "datagrams_ok (s_ack s1) ds"
    "mset (entries srv1) = add_mset p (mset (entries srv))" "heap_live srv1" "table_ok srv1"
    "data \<noteq> [] \<longrightarrow> serving srv1 p a s1 (drop 1024 data)"
    using serve_packet [OF Cons.prems(1-4)] by blast
  show ?case
  proof (cases "data = []")
    case True
    then have "ds = []"
      using Cons.prems(5) by simp
    then show ?thesis
      using step True
      by (intro exI [of _ srv1] exI [of _ buf1] exI [of _ "[pk]"]) (simp add: next_flags_def next_payload_def)
  next
    case False
    have "serving srv1 p a s1 (drop 1024 data)" "16 \<le> length buf1"
      "length ds = length (chunks (drop 1024 data)) + 1"
      using step False Cons.prems by simp_all
    then obtain srv' buf' pks where ih: "sas_server_run (map (Datagram a) ds) (srv1, buf1) = Ok (Inl (srv', buf'))"
      "os_sent srv' = os_sent srv1 @ map (Pair a) pks" "map pk_payload pks = chunks (drop 1024 data) @ [[]]"
      "map sent_flags pks = replicate (length (chunks (drop 1024 data))) 0 @ [FLAG_RST OR FLAG_FIN]"
      "numbered (s_seq s1) pks" "mset (entries srv') = mset (entries srv1) + replicate_mset (length ds) p"
      "heap_live srv'" "table_ok srv'"
      using Cons.IH [OF _ Cons.prems(2) _ step(8)] by blast
    then show ?thesis
      using step False
      by (intro exI [of _ srv'] exI [of _ buf'] exI [of _ "pk # pks"])
        (simp add: next_flags_def next_payload_def)
  qed
qed

text \<open>The round in which a new client's SYN arrives.\<close>

lemma heap_live_entries: "heap_live srv \<Longrightarrow> q \<in> set (entries srv) \<Longrightarrow> srv_mem srv q \<noteq> None"
  using heap_at_live(2) length_entries by (metis in_set_conv_nth)

lemma link_session_heap [simp]:
  "th_heap (link_session i ps n srv) = th_heap srv" "th_count (link_session i ps n srv) = th_count srv"
  "th_capacity (link_session i ps n srv) = th_capacity srv" "os_clock (link_session i ps n srv) = os_clock srv"
  "os_ticks (link_session i ps n srv) = os_ticks srv" "os_sent (link_session i ps n srv) = os_sent srv"
  "os_files (link_session i ps n srv) = os_files srv" "os_send_error (link_session i ps n srv) = os_send_error srv"
  by (simp_all add: link_session_def Let_def)

lemma timeout_of_link_session:
  "q \<noteq> srv_fresh srv \<Longrightarrow> timeout_of (link_session i ps n srv) q = timeout_of srv q"
  by (auto simp: timeout_of_def link_session_def Let_def split: option.split)

lemma heap_live_link_session:
  assumes "heap_live srv"
  shows "heap_live (link_session i ps n srv)" "entries (link_session i ps n srv) = entries srv"
proof -
  have "srv_mem (link_session i ps n srv) q \<noteq> None" if "srv_mem srv q \<noteq> None" for q
    using that by (auto simp: link_session_def Let_def)
  then show "heap_live (link_session i ps n srv)" "entries (link_session i ps n srv) = entries srv"
    using heap_live_same [OF assms, of "link_session i ps n srv"] by simp_all
qed

lemma new_client:
  assumes ok: "table_ok srv" "addr_ok a" "session_lookup srv a = None" and m: "srv_malloc_ok srv (srv_fresh srv)"
  shows "\<exists>srv' s. sas_server_session_get srv a = Ok (Some (srv_fresh srv), srv') \<and> table_ok srv' \<and>
    session_lookup srv' a = Some (srv_fresh srv) \<and> srv_mem srv' (srv_fresh srv) = Some s \<and>
    s = new_session (srv_junk srv) a \<and> srv_mem srv (srv_fresh srv) = None \<and>
    (\<exists>i ps. srv' = link_session i ps s srv)"
proof -
  obtain cs where rep: "table_rep srv cs"
    using ok(1) by (auto simp: table_ok_def)
  let ?i = "bucket_of srv a" and ?n = "new_session (srv_junk srv) a"
  let ?srv' = "link_session ?i (cs ! ?i) ?n srv"
  have none: "bucket_lookup srv a (cs ! ?i) = None"
    using ok(3) session_lookup_bucket [OF rep ok(2)] by simp
  have get: "sas_server_session_get srv a = Ok (Some (srv_fresh srv), ?srv')"
    using session_get_new [OF rep _ none m] ok(2) by (simp add: addr_ok_def)
  have fresh: "srv_fresh srv \<notin> set (cs ! ?i)"
    using table_rep_fresh(2) [OF rep order_refl] table_rep_bucket(1) [OF rep, of a] by simp
  then have "srv_mem ?srv' (srv_fresh srv) = Some ?n"
    using last_in_set [of "cs ! ?i"] by (auto simp: link_session_def Let_def)
  moreover have "table_ok ?srv'"
    using sessions.get_total [OF ok(1,2)] get by auto
  moreover have "srv_mem srv (srv_fresh srv) = None"
    by (rule table_rep_fresh(1) [OF rep]) simp
  ultimately show ?thesis
    using get session_lookup_linked [OF rep ok(2,3)] by blast
qed

text \<open>What the configuration packet says of a file, and the codec that it was given.\<close>

definition stream_cfg :: "u8 \<Rightarrow> wave_header \<Rightarrow> packet_cfg_ack" where
  "stream_cfg k w = \<lparr>ca_sample_rate = wh_sample_fq w, ca_sample_size = ucast (wh_bit_p_spl w),
     ca_channels = ucast (wh_chans w), ca_codec = k\<rparr>"

lemma serve_syn:
  assumes ok: "table_ok srv" "heap_live srv" "addr_ok a" "session_lookup srv a = None"
      "srv_malloc_ok srv (srv_fresh srv)" "calm srv (srv_fresh srv)" "os_send_error srv = (\<lambda>_. None)"
    and f: "os_files srv name = Inr \<lparr>f_rest = wave_header_image wpad w @ data, f_err = None\<rparr>" "playable w"
    and h: "length pad = 2" "hd_length h = of_nat (Suc (length name))" "length name < 2 ^ 16 - 1" "0 \<notin> set name"
      "hd_flags h = FLAG_SYN" "length (syn_datagram pad h name) \<le> length buf"
  shows "\<exists>srv' s' buf' pk. server_round (Datagram a (syn_datagram pad h name)) (srv, buf) = Ok (Inl (srv', buf')) \<and>
    length buf' = length buf \<and> os_sent srv' = os_sent srv @ [(a, pk)] \<and> sent_seq pk = 0 \<and> s_seq s' = 8 \<and>
    length (pk_payload pk) = 8 \<and> sent_ack pk = hd_seq h + seq_step (hd_length h) \<and>
    sent_flags pk = FLAG_SYN OR FLAG_ACK \<and> s_ack s' = hd_seq h + seq_step (hd_length h) \<and>
    mset (entries srv') = add_mset (srv_fresh srv) (mset (entries srv)) \<and> serving srv' (srv_fresh srv) a s' data \<and>
    packet_ok pk \<and> (\<exists>x. pk_payload pk = cfg_ack_image [x] (cfg_ack_encode \<lparr>ca_sample_rate = wh_sample_fq w,
      ca_sample_size = ucast (wh_bit_p_spl w), ca_channels = ucast (wh_chans w), ca_codec = s_codec (srv_junk srv)\<rparr>))"
proof -
  let ?p = "srv_fresh srv"
  let ?buf = "syn_buffer pad h 0 (name @ drop (length (syn_datagram pad h name)) buf)"
  obtain t srv1 srv2 where wait: "next_timeout srv = Ok (t, srv1)" "readd t srv1 = Ok srv2" "heap_live srv2"
    "mset (entries srv2) = mset (entries srv)" "aside srv2 = aside srv" "os_ticks srv2 = os_ticks srv + 1"
    using quiet_wait [OF ok(2) calm_quiet [OF ok(6)]] by blast
  note as = aside_table [OF wait(5)] and same = asideD [OF wait(5)]
  have two: "table_ok srv2" "session_lookup srv2 a = None" "srv_malloc_ok srv2 (srv_fresh srv2)" "srv_fresh srv2 = ?p"
    using as ok same by simp_all
  obtain srv3 s i ps where new: "sas_server_session_get srv2 a = Ok (Some ?p, srv3)" "table_ok srv3"
    "session_lookup srv3 a = Some ?p" "srv_mem srv3 ?p = Some s" "s = new_session (srv_junk srv2) a"
    "srv_mem srv2 ?p = None" "srv3 = link_session i ps s srv2"
    using new_client [OF two(1) ok(3) two(2,3)] two(4) by auto
  have heap: "heap_live srv3" "entries srv3 = entries srv2"
    using heap_live_link_session [OF wait(3)] by (simp_all add: new(7))
  have times: "timeout_of srv3 q = timeout_of srv q" if "q \<noteq> ?p" for q
    using timeout_of_link_session [of q srv2 i ps s] that two(4) as(4) new(7) by simp
  have s: "s_state s = STATE_INITIAL" "s_addr s = a" "s_seq s = 0" "s_ack s = 0"
    by (simp_all add: new(5) new_session_def)
  have sm0: "sas_server_session_state_machine srv3 ?p ?buf = session_open ?p name (set_session ?p (accept h s) srv3)"
    using state_machine_syn [OF h(1-5) new(4) s(1)] s(4) by simp
  let ?srv3 = "set_session ?p (accept h s) srv3"
  let ?pk = "next_packet (accept h s) (FLAG_SYN OR FLAG_ACK) (cfg_ack_image [stack_byte ?srv3] (cfg_ack_encode
        \<lparr>ca_sample_rate = wh_sample_fq w, ca_sample_size = ucast (wh_bit_p_spl w),
         ca_channels = ucast (wh_chans w), ca_codec = s_codec (accept h s)\<rparr>))"
  have env: "os_send_error ?srv3 = (\<lambda>_. None)" "srv_mem ?srv3 ?p = Some (accept h s)"
    "os_files ?srv3 name = Inr \<lparr>f_rest = wave_header_image wpad w @ data, f_err = None\<rparr>"
    using ok(7) f(1) same by (simp_all add: new(7))
  obtain srv4 s4 where sm: "session_open ?p name ?srv3 = Ok srv4" "mid_stream srv4 ?p s4 data"
    "s_addr s4 = a" "s_seq s4 = 8" "s_ack s4 = hd_seq h + seq_step (hd_length h)" "s_next s4 = s_next s"
    "frame_of srv4 = frame_of srv3" "srv_mem srv4 = (srv_mem srv3)(?p \<mapsto> s4)"
    "os_sent srv4 = os_sent srv3 @ [(a, ?pk)]"
    using session_open_playable [OF env(2,1,3) f(2)] s by auto
  have dec: "header_decode_in_place (recv_into buf (syn_datagram pad h name)) = Ok ?buf"
    by (rule syn_datagram_decoded [OF h(1,6)])
  have sm': "sas_server_session_state_machine srv3 ?p ?buf = Ok srv4"
    using sm0 sm(1) by simp
  have clock: "os_clock srv3 = os_clock srv" "os_ticks srv3 = os_ticks srv + 1"
    "mset (entries srv3) = mset (entries srv)"
    using wait(4,6) same heap(2) by (simp_all add: new(7))
  obtain srv' u where srv': "handle_datagram a (syn_datagram pad h name) (srv2, buf) = Ok (srv', ?buf)"
    "heap_live srv'" "calm srv' ?p" "mset (entries srv') = add_mset ?p (mset (entries srv))"
    "aside srv' = aside (set_session ?p (s4\<lparr>s_timeout := u\<rparr>) srv4)"
    using calm_handled [OF ok(6) clock heap(1) times new(1) dec sm' sm(7,8)] by blast
  have addr: "s_addr s4 = s_addr s"
    using sm(3) s(2) by simp
  note table = handled_table [OF new(2) ok(3) new(4) sm(7,8) addr sm(6) srv'(5)]
  have "serving srv' ?p a (s4\<lparr>s_timeout := u\<rparr>) data"
    using aside_table(5) [OF srv'(5)] mid_stream_timeout sm(2,3) table new(3) srv'(2,3) by (simp add: serving_def)
  moreover have "os_sent srv' = os_sent srv @ [(a, ?pk)]"
    using asideD(7) [OF srv'(5)] sm(9) same(7) by (simp add: new(7))
  moreover have "length ?buf = length buf"
    using header_decode_in_place_total [of "recv_into buf (syn_datagram pad h name)"] dec h(1,6)
    by (simp add: syn_datagram_def image_simps)
  moreover have "server_round (Datagram a (syn_datagram pad h name)) (srv, buf) = Ok (Inl (srv', ?buf))"
    using wait(1,2) srv'(1) by (simp add: server_round_def)
  moreover have "\<exists>x. pk_payload ?pk = cfg_ack_image [x] (cfg_ack_encode \<lparr>ca_sample_rate = wh_sample_fq w,
      ca_sample_size = ucast (wh_bit_p_spl w), ca_channels = ucast (wh_chans w), ca_codec = s_codec (srv_junk srv)\<rparr>)"
  proof -
    have "s_codec (accept h s) = s_codec (srv_junk srv)"
      using same(12) by (simp add: new(5) new_session_def accept_def)
    then show ?thesis
      by (auto simp only: next_packet_simps)
  qed
  moreover have "length (pk_payload ?pk) = 8" "packet_ok ?pk" "sent_seq ?pk = 0"
    "sent_flags ?pk = FLAG_SYN OR FLAG_ACK" "sent_ack ?pk = hd_seq h + seq_step (hd_length h)"
    using s(3) by (simp_all add: image_simps)
  moreover have "s_seq (s4\<lparr>s_timeout := u\<rparr>) = 8" "s_ack (s4\<lparr>s_timeout := u\<rparr>) = hd_seq h + seq_step (hd_length h)"
    using sm(4,5) by simp_all
  ultimately show ?thesis
    using srv'(4) by blast
qed

section \<open>Sessions that expire\<close>

lemma delete_live:
  assumes "table_ok srv" "srv_mem srv p \<noteq> None"
  shows "\<exists>srv'. sas_server_session_delete srv p = Ok srv' \<and> table_ok srv' \<and>
    contents srv' = (contents srv)(p := None) \<and> th_heap srv' = th_heap srv \<and> th_count srv' = th_count srv \<and>
    th_capacity srv' = th_capacity srv \<and> os_clock srv' = os_clock srv \<and> os_sent srv' = os_sent srv \<and>
    os_ticks srv' = os_ticks srv"
proof -
  obtain s where s: "srv_mem srv p = Some s"
    using assms(2) by blast
  obtain cs where rep: "table_rep srv cs"
    using assms(1) by (auto simp: table_ok_def)
  obtain srv' where srv': "sas_server_session_delete srv p = Ok srv'" "table_ok srv'"
    "contents srv' = (contents srv)(p := None)"
    using sessions.del_live [OF assms(1), of p] assms(2) by (auto simp: contents_def)
  moreover have "th_heap srv' = th_heap srv" "th_count srv' = th_count srv" "th_capacity srv' = th_capacity srv"
    "os_clock srv' = os_clock srv" "os_sent srv' = os_sent srv" "os_ticks srv' = os_ticks srv"
    using session_delete_live [OF rep s] srv'(1) by auto
  ultimately show ?thesis by blast
qed

lemma contents_None: "contents srv p = None \<longleftrightarrow> srv_mem srv p = None"
  by (simp add: contents_def)

lemma contents_timeout: "contents srv' p = contents srv p \<Longrightarrow> timeout_of srv' p = timeout_of srv p"
proof -
  have "timeout_of x p = (case contents x p of None \<Rightarrow> 0 | Some s \<Rightarrow> s_timeout s)" for x
    by (simp add: timeout_of_def contents_def split: option.split)
  then show "contents srv' p = contents srv p \<Longrightarrow> timeout_of srv' p = timeout_of srv p"
    by simp
qed

text \<open>The sessions whose time was not over at a reading of the clock that was made.\<close>

definition keeps_alive :: "server \<Rightarrow> server \<Rightarrow> bool" where
  "keeps_alive srv srv' \<longleftrightarrow> os_clock srv' = os_clock srv \<and> os_sent srv' = os_sent srv \<and> os_ticks srv \<le> os_ticks srv' \<and>
     (\<forall>p. contents srv' p = contents srv p \<or> contents srv' p = None \<and>
       (\<exists>k. os_ticks srv \<le> k \<and> k < os_ticks srv' \<and> timeout_of srv p \<le> os_clock srv k))"

lemma keeps_alive_refl [simp]: "keeps_alive srv srv"
  by (simp add: keeps_alive_def)

lemma keeps_alive_trans:
  assumes "keeps_alive a b" "keeps_alive b c"
  shows "keeps_alive a c"
proof -
  have ticks: "os_ticks a \<le> os_ticks b" "os_ticks b \<le> os_ticks c" "os_clock b = os_clock a"
    using assms by (simp_all add: keeps_alive_def)
  have "contents c p = contents a p \<or> contents c p = None \<and>
      (\<exists>k. os_ticks a \<le> k \<and> k < os_ticks c \<and> timeout_of a p \<le> os_clock a k)" for p
  proof (cases "contents b p = contents a p")
    case True
    have "contents c p = contents b p \<or> contents c p = None \<and>
        (\<exists>k. os_ticks b \<le> k \<and> k < os_ticks c \<and> timeout_of b p \<le> os_clock b k)"
      using assms(2) by (simp add: keeps_alive_def)
    then show ?thesis
      using True contents_timeout [OF True] ticks order_trans [OF ticks(1)] by auto
  next
    case False
    then obtain k where k: "contents b p = None" "os_ticks a \<le> k" "k < os_ticks b" "timeout_of a p \<le> os_clock a k"
      using assms(1) unfolding keeps_alive_def by metis
    moreover have "contents c p = None"
      using assms(2) k(1) unfolding keeps_alive_def by metis
    ultimately show ?thesis
      using less_le_trans [OF k(3) ticks(2)] by blast
  qed
  then show ?thesis
    using assms by (simp add: keeps_alive_def)
qed

lemma keeps_alive_aside:
  assumes "aside srv' = aside srv" "os_ticks srv \<le> os_ticks srv'"
  shows "keeps_alive srv srv'"
  using aside_table(2) [OF assms(1)] asideD(6,7) [OF assms(1)] assms(2) by (simp add: keeps_alive_def)

lemma ticks_os_time [simp]: "os_ticks (snd (os_time srv)) = Suc (os_ticks srv)"
  by (simp add: os_time_def)

text \<open>A wait that is over: the session is deleted if it has expired.\<close>

lemma timeout_live:
  assumes ok: "table_ok srv" "heap_live srv" and p: "srv_mem srv p \<noteq> None" "p \<notin> set (entries srv)"
  shows "\<exists>srv'. sas_server_timeout srv p = Ok srv' \<and> table_ok srv' \<and> heap_live srv' \<and>
    entries srv' = entries srv \<and> keeps_alive srv srv' \<and>
    contents srv' = (if timeout_of srv p \<le> os_clock srv (os_ticks srv) then (contents srv)(p := None)
      else contents srv)"
proof -
  let ?srv1 = "snd (os_time srv)"
  obtain s where s: "srv_mem srv p = Some s"
    using p(1) by blast
  have one: "table_ok ?srv1" "contents ?srv1 = contents srv" "timeout_of ?srv1 = timeout_of srv"
    "keeps_alive srv ?srv1"
    using aside_table [OF aside_os_time] keeps_alive_aside [OF aside_os_time, of srv] ok(1) by simp_all
  have heap: "heap_live ?srv1" "entries ?srv1 = entries srv"
    by (rule heap_live_same [OF ok(2)]; simp add: os_time_def)+
  have time: "timeout_of srv p = s_timeout s" "fst (os_time srv) = os_clock srv (os_ticks srv)"
    by (simp_all add: timeout_of_def s os_time_def)
  show ?thesis
  proof (cases "timeout_of srv p \<le> os_clock srv (os_ticks srv)")
    case False
    then have "sas_server_timeout srv p = Ok ?srv1"
      using s time by (simp add: sas_server_timeout_def case_prod_unfold Let_def session_at_def)
    with one heap False show ?thesis
      by (intro exI [of _ ?srv1]) simp
  next
    case True
    obtain srv' where srv': "sas_server_session_delete ?srv1 p = Ok srv'" "table_ok srv'"
      "contents srv' = (contents ?srv1)(p := None)" "th_heap srv' = th_heap ?srv1"
      "th_count srv' = th_count ?srv1" "th_capacity srv' = th_capacity ?srv1" "os_clock srv' = os_clock ?srv1"
      "os_sent srv' = os_sent ?srv1" "os_ticks srv' = os_ticks ?srv1"
      using delete_live [OF one(1), of p] s by auto
    have run: "sas_server_timeout srv p = Ok srv'"
      using s time True srv'(1) by (simp add: sas_server_timeout_def case_prod_unfold Let_def session_at_def)
    have e: "entries srv' = entries srv"
      using heap(2) by (simp add: entries_def srv'(4,5))
    have "heap_live srv'"
      unfolding heap_live_def srv'(4-6)
    proof (intro conjI allI impI)
      fix i
      assume i: "i < th_count ?srv1"
      from heap(1) i obtain q where q: "th_heap ?srv1 ! i = Some q" "srv_mem ?srv1 q \<noteq> None"
        by (auto simp: heap_live_def)
      have "entries ?srv1 ! i = q"
        using i q(1) heap(1) unfolding entries_def heap_live_def by simp
      moreover have "i < length (entries ?srv1)"
        using i length_entries [OF heap(1)] by simp
      ultimately have "q \<in> set (entries srv)"
        unfolding heap(2) by (metis nth_mem)
      then have "q \<noteq> p"
        using p(2) by auto
      then have "srv_mem srv' q \<noteq> None"
        using q(2) srv'(3) contents_None by (metis fun_upd_other)
      with q(1) show "\<exists>q. th_heap ?srv1 ! i = Some q \<and> srv_mem srv' q \<noteq> None" by blast
    qed (use heap(1) in \<open>simp_all add: heap_live_def\<close>)
    moreover have "keeps_alive srv srv'"
    proof -
      have "os_ticks srv \<le> os_ticks srv \<and> os_ticks srv < os_ticks srv' \<and> timeout_of srv p \<le> os_clock srv (os_ticks srv)"
        using True srv'(9) by simp
      then show ?thesis
        using srv'(3,7-9) one(2) unfolding keeps_alive_def by (auto simp: os_time_def)
    qed
    ultimately show ?thesis
      using run srv'(2,3) e one(2) True by (intro exI [of _ srv']) simp
  qed
qed

text \<open>
  Where no session is in the heap twice, the loop that deletes the expired
  ones ends, without a fault, at a session with time left or with an empty heap.
\<close>

lemma pop_live:
  assumes live: "heap_live srv" and e: "distinct (entries srv)"
  shows "\<exists>t srv'. sas_server_timeout_pop srv = Ok (t, srv') \<and> heap_live srv' \<and> distinct (entries srv') \<and>
    aside srv' = aside srv \<and> os_ticks srv' = os_ticks srv \<and> mset (entries srv') \<subseteq># mset (entries srv) \<and>
    (case t of
       None \<Rightarrow> entries srv' = [] \<and> entries srv = []
     | Some p \<Rightarrow> srv_mem srv' p \<noteq> None \<and> p \<notin> set (entries srv') \<and> length (entries srv) = Suc (length (entries srv')))"
proof (cases "th_count srv = 0")
  case True
  then show ?thesis
    using live e timeout_pop_empty [OF True] length_entries [OF live]
    by (intro exI [of _ None] exI [of _ srv]) simp
next
  case False
  then have n: "0 < th_count srv" by simp
  let ?q = "hd (entries srv)"
  obtain srv1 where pop: "sas_server_timeout_pop srv = Ok (Some ?q, srv1)" "heap_live srv1"
    "mset (entries srv) = add_mset ?q (mset (entries srv1))"
    "srv1 = srv\<lparr>th_count := th_count srv - 1, th_heap := th_heap srv1\<rparr>"
    using timeout_pop_spec [OF live n] by blast
  have same: "aside srv1 = aside srv" "os_ticks srv1 = os_ticks srv" "srv_mem srv1 = srv_mem srv"
    by (subst pop(4), simp add: aside_def)+
  have "?q \<in> set (entries srv)"
    using n length_entries [OF live] by (cases "entries srv") auto
  then have q: "srv_mem srv1 ?q \<noteq> None"
    using heap_live_entries [OF live] same(3) by simp
  have perm: "mset (?q # entries srv1) = mset (entries srv)"
    using pop(3) by simp
  have "distinct (?q # entries srv1)" "length (entries srv) = Suc (length (entries srv1))"
    using mset_eq_imp_distinct_iff [OF perm] e mset_eq_length [OF perm] by simp_all
  then show ?thesis
    using pop(1-3) same q by (intro exI [of _ "Some ?q"] exI [of _ srv1]) simp
qed

lemma expire_loop_ends:
  assumes "table_ok srv" "heap_live srv" "distinct (entries srv)" "Suc (length (entries srv)) < k"
    and "case t of None \<Rightarrow> entries srv = [] | Some p \<Rightarrow> srv_mem srv p \<noteq> None \<and> p \<notin> set (entries srv)"
  shows "\<exists>t' srv'. expire_loop k now t srv = Ok (t', srv') \<and> table_ok srv' \<and> heap_live srv' \<and>
    distinct (entries srv') \<and> mset (entries srv') \<subseteq># mset (entries srv) \<and> keeps_alive srv srv' \<and>
    (case t' of None \<Rightarrow> entries srv' = []
     | Some p \<Rightarrow> srv_mem srv' p \<noteq> None \<and> p \<notin> set (entries srv') \<and> now < timeout_of srv' p)"
  using assms
proof (induction k arbitrary: t srv)
  case (Suc k)
  show ?case
  proof (cases t)
    case None
    then show ?thesis
      using Suc.prems by (intro exI [of _ None] exI [of _ srv]) simp
  next
    case (Some p)
    then have p: "srv_mem srv p \<noteq> None" "p \<notin> set (entries srv)"
      using Suc.prems(5) by simp_all
    then obtain s where s: "srv_mem srv p = Some s" by blast
    then have time: "timeout_of srv p = s_timeout s"
      by (simp add: timeout_of_def)
    show ?thesis
    proof (cases "s_timeout s \<le> now")
      case False
      then show ?thesis
        using Suc.prems Some s p time by (intro exI [of _ t] exI [of _ srv]) (simp add: session_at_def)
    next
      case True
      obtain srv1 where one: "sas_server_timeout srv p = Ok srv1" "table_ok srv1" "heap_live srv1"
        "entries srv1 = entries srv" "keeps_alive srv srv1"
        using timeout_live [OF Suc.prems(1,2) p] by blast
      have "distinct (entries srv1)"
        using one(4) Suc.prems(3) by simp
      then obtain u srv2 where two: "sas_server_timeout_pop srv1 = Ok (u, srv2)" "heap_live srv2"
        "distinct (entries srv2)" "aside srv2 = aside srv1" "mset (entries srv2) \<subseteq># mset (entries srv1)"
        "case u of None \<Rightarrow> entries srv2 = [] \<and> entries srv1 = []
         | Some p \<Rightarrow> srv_mem srv2 p \<noteq> None \<and> p \<notin> set (entries srv2) \<and>
             length (entries srv1) = Suc (length (entries srv2))"
        "os_ticks srv2 = os_ticks srv1"
        using pop_live [OF one(3)] by blast
      have ok: "table_ok srv2" and keep: "keeps_alive srv srv2"
        using aside_table(1) [OF two(4)] one(2) keeps_alive_trans [OF one(5) keeps_alive_aside [OF two(4)]] two(7) by simp_all
      show ?thesis
      proof (cases u)
        case None
        have "expire_loop (Suc k) now t srv = expire_loop k now None srv2"
          using Some s True one(1) two(1) None by (simp add: session_at_def)
        moreover have "expire_loop k now None srv2 = Ok (None, srv2)"
          using Suc.prems(4) by (cases k) simp_all
        ultimately show ?thesis
          using two(2,6) None ok keep by (intro exI [of _ None] exI [of _ srv2]) simp
      next
        case (Some q)
        have "expire_loop (Suc k) now t srv = expire_loop k now (Some q) srv2"
          using \<open>t = Some p\<close> s True one(1) two(1) Some by (simp add: session_at_def)
        moreover obtain t' srv' where "expire_loop k now (Some q) srv2 = Ok (t', srv')" "table_ok srv'" "heap_live srv'"
          "distinct (entries srv')" "mset (entries srv') \<subseteq># mset (entries srv2)" "keeps_alive srv2 srv'"
          "case t' of None \<Rightarrow> entries srv' = []
           | Some p \<Rightarrow> srv_mem srv' p \<noteq> None \<and> p \<notin> set (entries srv') \<and> now < timeout_of srv' p"
          using Suc.IH [OF ok two(2,3), of "Some q"] two(6) Some one(4) Suc.prems(4) by auto
        ultimately show ?thesis
          using keeps_alive_trans [OF keep] two(5) one(4) subset_mset.order_trans by auto
      qed
    qed
  qed
qed simp

section \<open>A client that stays silent\<close>

text \<open>The heap with two entries for a session that has been deleted.\<close>

lemma pop_freed:
  assumes "th_count srv = length es" "\<And>i. i < length es \<Longrightarrow> th_heap srv ! i = Some p" "es \<noteq> []"
    "length es \<le> length (th_heap srv)" "srv_mem srv p = None"
  shows "sas_server_timeout_pop srv = Fault Use_After_Free \<or>
    (\<exists>srv'. sas_server_timeout_pop srv = Ok (Some p, srv') \<and> srv_mem srv' p = None)"
proof -
  let ?n = "length es - 1"
  let ?srv = "srv\<lparr>th_count := ?n, th_heap := (th_heap srv)[0 := th_heap srv ! ?n]\<rparr>"
  have n: "0 < length es"
    using assms(3) by simp
  have pop: "sas_server_timeout_pop srv =
      and_then (sas_server_timeout_heapify 0 ?srv) (\<lambda>srv'. Ok (Some p, srv'))"
    using n assms(1,2) by (simp add: sas_server_timeout_pop_def Let_def)
  show ?thesis
  proof (cases "1 < ?n")
    case True
    then have "th_heap ?srv ! 1 = Some p" "1 < length (th_heap ?srv)"
      using assms(2,4) by simp_all
    then have "heap_timeout 1 ?srv = Fault Use_After_Free"
      using assms(5) by (simp add: heap_timeout_def heap_at_def session_at_def del: One_nat_def)
    then have "heapify_lowest 0 ?srv = Fault Use_After_Free"
      using True by (simp add: heapify_lowest_def del: One_nat_def)
    then show ?thesis
      by (simp add: pop sas_server_timeout_heapify.simps [of 0])
  next
    case False
    then have "heapify_lowest 0 ?srv = Ok 0"
      by (simp add: heapify_lowest_def)
    then have "sas_server_timeout_heapify 0 ?srv = Ok ?srv"
      by (simp add: sas_server_timeout_heapify.simps [of 0])
    then show ?thesis
      using assms(5) by (simp add: pop)
  qed
qed

text \<open>
  Its entry is taken out, and where its time is over at the second reading of the clock, it is deleted; what is
  then taken out next is the freed session.
\<close>

lemma pop_then_delete:
  assumes ok: "table_ok srv" "heap_live srv" and e: "set (entries srv) = {p}" "1 < length (entries srv)"
    and over: "timeout_of srv p \<le> os_clock srv (Suc (os_ticks srv))"
  shows "\<exists>srv1 srv4 s. sas_server_timeout_pop srv = Ok (Some p, srv1) \<and> session_at p srv1 = Ok s \<and>
    s_timeout s = timeout_of srv p \<and> fst (os_time srv1) = os_clock srv (os_ticks srv) \<and>
    sas_server_timeout (snd (os_time srv1)) p = Ok srv4 \<and>
    (sas_server_timeout_pop srv4 = Fault Use_After_Free \<or>
     (\<exists>srv'. sas_server_timeout_pop srv4 = Ok (Some p, srv') \<and> srv_mem srv' p = None))"
proof -
  have n: "0 < th_count srv"
    using e(2) length_entries [OF ok(2)] by simp
  have "entries srv \<noteq> []"
    using e(2) by auto
  then have hd: "hd (entries srv) = p"
    using e(1) hd_in_set by fastforce
  obtain srv1 where pop: "sas_server_timeout_pop srv = Ok (Some p, srv1)" "heap_live srv1"
    "mset (entries srv) = add_mset p (mset (entries srv1))"
    "srv1 = srv\<lparr>th_count := th_count srv - 1, th_heap := th_heap srv1\<rparr>"
    using timeout_pop_spec [OF ok(2) n] hd by blast
  have same: "aside srv1 = aside srv" "os_ticks srv1 = os_ticks srv"
    by (subst pop(4), simp add: aside_def)+
  let ?srv2 = "snd (os_time srv1)" and ?now = "fst (os_time srv1)"
  let ?srv3 = "snd (os_time ?srv2)"
  have "srv_mem srv p \<noteq> None"
    using heap_live_entries [OF ok(2)] e(1) by blast
  then obtain s where s: "srv_mem srv p = Some s" by blast
  note d = asideD [OF same(1)]
  have now: "?now = os_clock srv (os_ticks srv)" "s_timeout s \<le> fst (os_time ?srv2)" "s_timeout s = timeout_of srv p"
    using over s d(6) same(2) by (simp_all add: os_time_def timeout_of_def)
  have ok3: "table_ok ?srv3"
    using aside_table(1) [OF same(1)] aside_table(1) [OF aside_os_time] ok(1) by simp
  obtain srv4 where del: "sas_server_session_delete ?srv3 p = Ok srv4" "contents srv4 = (contents ?srv3)(p := None)"
    "th_heap srv4 = th_heap ?srv3" "th_count srv4 = th_count ?srv3"
    using delete_live [OF ok3, of p] s d(1) by auto
  have time: "sas_server_timeout ?srv2 p = Ok srv4"
    using s d(1) now(2) del(1) by (simp add: sas_server_timeout_def case_prod_unfold Let_def session_at_def)
  have heap: "th_heap srv4 = th_heap srv1" "th_count srv4 = th_count srv1"
    by (simp_all add: del(3,4) os_time_def)
  have dead: "srv_mem srv4 p = None"
    using del(2) by (simp add: contents_None [symmetric])
  have len: "length (entries srv1) = th_count srv1" "0 < th_count srv1" "th_count srv1 \<le> length (th_heap srv1)"
    using length_entries [OF pop(2)] e(2) arg_cong [OF pop(3), of size] pop(2) by (simp_all add: heap_live_def)
  have all: "th_heap srv4 ! i = Some p" if i: "i < length (entries srv1)" for i
  proof -
    have "entries srv1 ! i \<in> set (entries srv)"
      using arg_cong [OF pop(3), of set_mset] nth_mem [OF i] by auto
    then have "entries srv1 ! i = p"
      using e(1) by simp
    moreover obtain q where "th_heap srv1 ! i = Some q"
      using pop(2) i len(1) by (auto simp: heap_live_def)
    ultimately show ?thesis
      using heap i len by (simp add: entries_def)
  qed
  have freed: "sas_server_timeout_pop srv4 = Fault Use_After_Free \<or>
      (\<exists>srv'. sas_server_timeout_pop srv4 = Ok (Some p, srv') \<and> srv_mem srv' p = None)"
    by (rule pop_freed [where es = "entries srv1"]) (use heap len all dead in auto)
  show ?thesis
    using pop(1) now(1,3) time freed s d(1)
    by (intro exI [of _ srv1] exI [of _ srv4] exI [of _ s]) (simp add: session_at_def)
qed

lemma expire_freed: "srv_mem srv p = None \<Longrightarrow> expire_loop (Suc k) now (Some p) srv = Fault Use_After_Free"
  by (simp add: session_at_def)

lemma next_timeout_freed:
  assumes "table_ok srv" "heap_live srv" "set (entries srv) = {p}" "1 < length (entries srv)"
    and "timeout_of srv p \<le> os_clock srv (os_ticks srv)" "timeout_of srv p \<le> os_clock srv (Suc (os_ticks srv))"
  shows "next_timeout srv = Fault Use_After_Free"
proof -
  obtain srv1 srv4 s where run: "sas_server_timeout_pop srv = Ok (Some p, srv1)" "session_at p srv1 = Ok s"
    "s_timeout s = timeout_of srv p" "fst (os_time srv1) = os_clock srv (os_ticks srv)"
    "sas_server_timeout (snd (os_time srv1)) p = Ok srv4"
    "sas_server_timeout_pop srv4 = Fault Use_After_Free \<or>
     (\<exists>srv'. sas_server_timeout_pop srv4 = Ok (Some p, srv') \<and> srv_mem srv' p = None)"
    using pop_then_delete [OF assms(1-4,6)] by blast
  let ?k = "th_count (snd (os_time srv1))" and ?now = "fst (os_time srv1)"
  have "session_at p (snd (os_time srv1)) = Ok s"
    using run(2) by (simp add: session_at_def)
  then have "expire_loop (Suc (Suc ?k)) ?now (Some p) (snd (os_time srv1)) = Fault Use_After_Free"
    using run(3-6) assms(5) expire_freed by (subst expire_loop.simps) (auto simp del: expire_loop.simps)
  then show ?thesis
    by (simp add: next_timeout_def run(1) case_prod_unfold Let_def del: expire_loop.simps)
qed

text \<open>
  The session's time is over in the next round, or when \<open>select\<close> gives up in it: then the round after it
  reads the freed session.
\<close>

lemma silent_freed:
  assumes "table_ok srv" "heap_live srv" "set (entries srv) = {p}" "1 < length (entries srv)"
    and "timeout_of srv p \<le> os_clock srv (Suc (os_ticks srv))"
  shows "sas_server_run [Select_Timeout, i] (srv, buf) = Fault Use_After_Free"
proof (cases "timeout_of srv p \<le> os_clock srv (os_ticks srv)")
  case True
  then show ?thesis
    using next_timeout_freed [OF assms(1-4) _ assms(5)] by (simp add: server_round_def)
next
  case False
  obtain srv1 srv4 s where run: "sas_server_timeout_pop srv = Ok (Some p, srv1)" "session_at p srv1 = Ok s"
    "s_timeout s = timeout_of srv p" "fst (os_time srv1) = os_clock srv (os_ticks srv)"
    "sas_server_timeout (snd (os_time srv1)) p = Ok srv4"
    "sas_server_timeout_pop srv4 = Fault Use_After_Free \<or>
     (\<exists>srv'. sas_server_timeout_pop srv4 = Ok (Some p, srv') \<and> srv_mem srv' p = None)"
    using pop_then_delete [OF assms] by blast
  have "session_at p (snd (os_time srv1)) = Ok s"
    using run(2) by (simp add: session_at_def)
  then have "next_timeout srv = Ok (Some p, snd (os_time srv1))"
    using run(1,3,4) False by (simp add: next_timeout_def case_prod_unfold Let_def)
  then have one: "server_round Select_Timeout (srv, buf) = Ok (Inl (srv4, buf))"
    using run(5) by (simp add: server_round_def)
  have "next_timeout srv4 = Fault Use_After_Free"
    using run(6) by (auto simp: next_timeout_def case_prod_unfold Let_def session_at_def)
  then have "server_round i (srv4, buf) = Fault Use_After_Free"
    by (simp add: server_round_def)
  with one show ?thesis
    by simp
qed

text \<open>A packet that deletes its session.\<close>

lemma round_deletes:
  assumes ok: "table_ok srv" "heap_live srv" "addr_ok a"
    and quiet: "\<And>q. q \<in> set (entries srv) \<Longrightarrow> os_clock srv (os_ticks srv) < timeout_of srv q"
    and dec: "header_decode_in_place (recv_into buf d) = Ok buf'"
    and sm: "\<And>srv2. aside srv2 = aside srv \<Longrightarrow> \<exists>p srv3 srv4. sas_server_session_get srv2 a = Ok (Some p, srv3) \<and>
      sas_server_session_state_machine srv3 p buf' = Ok srv4 \<and> contents srv4 p = None"
  shows "server_round (Datagram a d) (srv, buf) = Fault Use_After_Free"
proof -
  obtain t srv1 srv2 where wait: "next_timeout srv = Ok (t, srv1)" "readd t srv1 = Ok srv2" "heap_live srv2"
    "aside srv2 = aside srv"
    using quiet_wait [OF ok(2) quiet] by blast
  obtain p srv3 srv4 where "sas_server_session_get srv2 a = Ok (Some p, srv3)"
    "sas_server_session_state_machine srv3 p buf' = Ok srv4" "srv_mem srv4 p = None"
    using sm [OF wait(4)] contents_None by blast
  then have "handle_datagram a d (srv2, buf) = Fault Use_After_Free"
    using dec by (intro handle_datagram_freed) auto
  then show ?thesis
    using wait(1,2) by (simp add: server_round_def)
qed

section \<open>An example\<close>

text \<open>
  A server with the files \<open>media\<close>, as it starts, and one with a client
  whose session expires at a given time and has some entries in the heap.
\<close>

definition example_start :: server where
  "example_start = sas_server_alloc (fresh_os media (\<lambda>_. 0)) (\<lambda>_. True) blank_session []"

lemma session_lookup_alloc: "addr_ok a \<Longrightarrow> session_lookup (sas_server_alloc env m j st) a = None"
  using session_lookup_bucket [OF table_rep_alloc] table_rep_bucket(1) [OF table_rep_alloc]
  by (simp add: bucket_lookup_def)

lemma table_ok_alloc: "table_ok (sas_server_alloc env m j st)"
  unfolding table_ok_def by (rule exI, rule table_rep_alloc)

lemma example_start_simps [simp]:
  "os_files example_start = media" "os_clock example_start = (\<lambda>_. 0)" "os_sent example_start = []"
  "os_send_error example_start = (\<lambda>_. None)" "srv_fresh example_start = 0" "srv_malloc_ok example_start n"
  "table_ok example_start" "heap_live example_start" "entries example_start = []"
  "addr_ok a \<Longrightarrow> session_lookup example_start a = None"
  by (simp_all add: example_start_def table_ok_alloc session_lookup_alloc)
    (simp_all add: sas_server_alloc_def fresh_os_def os.defs server.defs)

definition example_waiting :: "nat \<Rightarrow> (nat \<Rightarrow> int) \<Rightarrow> int \<Rightarrow> server" where
  "example_waiting n clock t = set_session 0 (example_new\<lparr>s_timeout := t\<rparr>)
     (example_media\<lparr>os_clock := clock, th_count := n, th_capacity := 32,
       th_heap := replicate n (Some 0) @ replicate (32 - n) None\<rparr>)"

lemma example_waiting_simps [simp]:
  "os_clock (example_waiting n clock t) = clock" "os_ticks (example_waiting n clock t) = 0"
  "srv_mem (example_waiting n clock t) 0 = Some (example_new\<lparr>s_timeout := t\<rparr>)"
  "timeout_of (example_waiting n clock t) 0 = t"
  "n \<le> 32 \<Longrightarrow> entries (example_waiting n clock t) = replicate n 0"
  "n \<le> 32 \<Longrightarrow> heap_live (example_waiting n clock t)"
  by (auto simp: example_waiting_def set_session_def timeout_of_def entries_def heap_live_def nth_append)
    (simp add: example_media_def link_session_def Let_def sas_server_alloc_def fresh_os_def os.defs server.defs)

lemma example_waiting_table [simp]:
  "table_ok (example_waiting n clock t)" "session_lookup (example_waiting n clock t) (example_addr 1) = Some 0"
proof -
  let ?srv = "sas_server_alloc (fresh_os media (\<lambda>_. 0)) (\<lambda>_. True) blank_session []"
  have look: "session_lookup example_media (example_addr 1) = Some 0"
    using session_lookup_linked [OF table_rep_alloc [of "fresh_os media (\<lambda>_. 0)" "\<lambda>_. True" blank_session "[]"]
        example_addr_ok(1) [of 1]] session_lookup_alloc table_rep_bucket(1) [OF table_rep_alloc]
    by (simp add: example_media_def Let_def)
  have l: "linked (example_waiting n clock t) = linked example_media"
    by (auto simp: linked_def fun_eq_iff example_waiting_def)
  have same: "ss_table (example_waiting n clock t) = ss_table example_media"
    "ss_capacity (example_waiting n clock t) = ss_capacity example_media"
    "ss_count (example_waiting n clock t) = ss_count example_media"
    "srv_fresh (example_waiting n clock t) = srv_fresh example_media"
    by (simp_all add: example_waiting_def)
  show "table_ok (example_waiting n clock t)"
    by (rule table_ok_linked [OF example_media_simps(2) l same])
  show "session_lookup (example_waiting n clock t) (example_addr 1) = Some 0"
    using session_lookup_same [OF example_media_simps(2) example_addr_ok(1) l same] look by simp
qed

definition example_wire_ack :: "u32 \<Rightarrow> bytes" where
  "example_wire_ack seq = header_image [0, 0] (header_encode (example_header seq FLAG_ACK 0))"

lemma example_wire_acks_ok: "datagrams_ok 2 [example_wire_ack 2, example_wire_ack 3]"
proof -
  have "header_load (example_wire_ack n) = Ok (header_encode (example_header n FLAG_ACK 0))" for n
    using hdr.load_image [of "[0, 0]" "header_encode (example_header n FLAG_ACK 0)" "[]"]
    by (simp add: example_wire_ack_def)
  moreover have "length (example_wire_ack n) = 16" for n
    by (simp add: example_wire_ack_def image_simps)
  ultimately show ?thesis
    by (simp add: Let_def sizeof_defs seq_step_def)
qed

section \<open>Properties\<close>

text \<open>C9. A file over the server's own loop: a new client's SYN and its
  acknowledgements, as they arrive from the network and while no more than the
  session's time passes between two readings of the clock, are answered
  with the configuration (what the file's header says, and the codec that the session's memory held), the file in chunks of at most 1024 bytes and the end
  of the stream. The other clients' sessions, which wait, stay in the heap; of this
  client there is then one entry for each of its packets.\<close>

theorem file_served:
  assumes "table_ok srv" "heap_live srv" "addr_ok a" "session_lookup srv a = None"
    and "srv_malloc_ok srv (srv_fresh srv)" "os_send_error srv = (\<lambda>_. None)"
    and "\<forall>k. os_clock srv (Suc k) < os_clock srv k + SESSION_TIMEOUT"
    and "\<forall>q \<in> set (entries srv). \<forall>k. os_clock srv k < timeout_of srv q"
    and "os_files srv name = Inr \<lparr>f_rest = wave_header_image wpad w @ data, f_err = None\<rparr>" "playable w"
    and "length pad = 2" "hd_length h = of_nat (Suc (length name))" "length name < 2 ^ 16 - 1" "0 \<notin> set name"
    and "hd_flags h = FLAG_SYN" "length (syn_datagram pad h name) \<le> buffer_size" "length buf = buffer_size"
    and "datagrams_ok (hd_seq h + seq_step (hd_length h)) acks" "length acks = length (chunks data) + 1"
  shows "\<exists>srv' buf' d ds x. sas_server_run (map (Datagram a) (syn_datagram pad h name # acks)) (srv, buf) =
      Ok (Inl (srv', buf')) \<and>
    os_sent srv' = os_sent srv @ map (Pair a) (d # ds) \<and> numbered 0 (d # ds) \<and>
    pk_payload d = cfg_ack_image [x] (cfg_ack_encode (stream_cfg (s_codec (srv_junk srv)) w)) \<and>
    sent_flags d = FLAG_SYN OR FLAG_ACK \<and> sent_ack d = hd_seq h + seq_step (hd_length h) \<and>
    concat (map pk_payload ds) = data \<and> list_all (\<lambda>e. length (pk_payload e) \<le> 1024) ds \<and>
    map sent_flags ds = replicate (length (chunks data)) 0 @ [FLAG_RST OR FLAG_FIN] \<and>
    mset (entries srv') = mset (entries srv) + replicate_mset (length acks + 1) (srv_fresh srv) \<and>
    table_ok srv' \<and> heap_live srv'"
proof -
  let ?p = "srv_fresh srv"
  have calm: "calm srv ?p"
    using assms(7,8) by (simp add: calm_def)
  have buf: "length (syn_datagram pad h name) \<le> length buf" "16 \<le> length buf"
    using assms(16,17) by (simp_all add: buffer_size_def)
  obtain srv1 s1 buf1 d x where syn: "server_round (Datagram a (syn_datagram pad h name)) (srv, buf) = Ok (Inl (srv1, buf1))"
    "length buf1 = length buf" "os_sent srv1 = os_sent srv @ [(a, d)]" "sent_seq d = 0" "s_seq s1 = 8"
    "length (pk_payload d) = 8" "sent_ack d = hd_seq h + seq_step (hd_length h)"
    "sent_flags d = FLAG_SYN OR FLAG_ACK" "s_ack s1 = hd_seq h + seq_step (hd_length h)"
    "mset (entries srv1) = add_mset ?p (mset (entries srv))" "serving srv1 ?p a s1 data"
    "pk_payload d = cfg_ack_image [x] (cfg_ack_encode (stream_cfg (s_codec (srv_junk srv)) w))"
    using serve_syn [OF assms(1-5) calm assms(6,9-15) buf(1)] unfolding stream_cfg_def by blast
  obtain srv' buf' ds where ds: "sas_server_run (map (Datagram a) acks) (srv1, buf1) = Ok (Inl (srv', buf'))"
    "os_sent srv' = os_sent srv1 @ map (Pair a) ds" "map pk_payload ds = chunks data @ [[]]"
    "map sent_flags ds = replicate (length (chunks data)) 0 @ [FLAG_RST OR FLAG_FIN]" "numbered 8 ds"
    "mset (entries srv') = mset (entries srv1) + replicate_mset (length acks) ?p" "heap_live srv'" "table_ok srv'"
    using serve_packets [OF syn(11) assms(3), of buf1 acks] syn(2,5,9) buf(2) assms(18,19) by auto
  have "numbered 0 (d # ds)"
    using syn(4,6) ds(5) by (simp add: seq_step_def)
  then show ?thesis
    using syn(1,3,7,8,10,12) ds chunk_payloads [OF ds(3)]
    by (intro exI [of _ srv'] exI [of _ buf'] exI [of _ d] exI [of _ ds] exI [of _ x]) simp
qed

theorem file_served_witness:
  "\<exists>srv' buf' d ds. sas_server_run (map (Datagram (example_addr 1))
      [syn_datagram [0, 0] (example_header 0 FLAG_SYN 2) [0x61], example_wire_ack 2, example_wire_ack 3])
      (example_start, replicate buffer_size 0) = Ok (Inl (srv', buf')) \<and>
    os_sent srv' = map (Pair (example_addr 1)) (d # ds) \<and> concat (map pk_payload ds) = [1, 2] \<and>
    mset (entries srv') = {#0, 0, 0#}"
proof -
  have f: "os_files example_start [0x61] = Inr \<lparr>f_rest = wave_header_image 0x20 example_wav @ [1, 2], f_err = None\<rparr>"
    by (simp add: media_def)
  have len: "length (syn_datagram [0, 0] (example_header 0 FLAG_SYN 2) [0x61]) = 18"
    by (simp add: syn_datagram_def image_simps)
  have "\<exists>srv' buf' d ds x. sas_server_run (map (Datagram (example_addr 1))
      (syn_datagram [0, 0] (example_header 0 FLAG_SYN 2) [0x61] # [example_wire_ack 2, example_wire_ack 3]))
      (example_start, replicate buffer_size 0) = Ok (Inl (srv', buf')) \<and>
    os_sent srv' = os_sent example_start @ map (Pair (example_addr 1)) (d # ds) \<and> numbered 0 (d # ds) \<and>
    pk_payload d = cfg_ack_image [x] (cfg_ack_encode (stream_cfg (s_codec (srv_junk example_start)) example_wav)) \<and>
    sent_flags d = FLAG_SYN OR FLAG_ACK \<and>
    sent_ack d = hd_seq (example_header 0 FLAG_SYN 2) + seq_step (hd_length (example_header 0 FLAG_SYN 2)) \<and>
    concat (map pk_payload ds) = [1, 2] \<and> list_all (\<lambda>e. length (pk_payload e) \<le> 1024) ds \<and>
    map sent_flags ds = replicate (length (chunks [1, 2])) 0 @ [FLAG_RST OR FLAG_FIN] \<and>
    mset (entries srv') = mset (entries example_start) +
      replicate_mset (length [example_wire_ack 2, example_wire_ack 3] + 1) (srv_fresh example_start) \<and>
    table_ok srv' \<and> heap_live srv'"
    by (rule file_served [OF _ _ _ _ _ _ _ _ f example_playable])
      (simp_all add: len buffer_size_def SESSION_TIMEOUT_def example_wire_acks_ok seq_step_def
        del: datagrams_ok.simps)
  then show ?thesis
    by (simp add: numeral_3_eq_3) blast
qed

text \<open>C23. The loop that deletes expired sessions ends: where no session is
  in the heap twice (no client has sent more than one packet since it was waited for), it does so without a fault, at a session whose time is
  not over or with an empty heap, table and heap stay in order, nothing is
  sent, and a session that is gone had its time over at one of the readings of the clock that the loop made.\<close>

theorem expired_sessions_end:
  assumes "table_ok srv" "heap_live srv" "distinct (entries srv)"
  shows "\<exists>t srv'. next_timeout srv = Ok (t, srv') \<and> table_ok srv' \<and> heap_live srv' \<and>
    distinct (entries srv') \<and> mset (entries srv') \<subseteq># mset (entries srv) \<and> os_sent srv' = os_sent srv \<and>
    (\<forall>p. contents srv' p = contents srv p \<or> contents srv' p = None \<and>
      (\<exists>k. os_ticks srv \<le> k \<and> k < os_ticks srv' \<and> timeout_of srv p \<le> os_clock srv k)) \<and>
    (case t of None \<Rightarrow> entries srv' = []
     | Some p \<Rightarrow> srv_mem srv' p \<noteq> None \<and> os_clock srv (os_ticks srv) < timeout_of srv' p)"
proof -
  obtain t srv1 where pop: "sas_server_timeout_pop srv = Ok (t, srv1)" "heap_live srv1" "distinct (entries srv1)"
    "aside srv1 = aside srv" "os_ticks srv1 = os_ticks srv" "mset (entries srv1) \<subseteq># mset (entries srv)"
    "case t of None \<Rightarrow> entries srv1 = [] \<and> entries srv = []
     | Some p \<Rightarrow> srv_mem srv1 p \<noteq> None \<and> p \<notin> set (entries srv1) \<and>
         length (entries srv) = Suc (length (entries srv1))"
    using pop_live [OF assms(2,3)] by blast
  let ?srv2 = "snd (os_time srv1)"
  have heap: "heap_live ?srv2" "entries ?srv2 = entries srv1"
    by (rule heap_live_same [OF pop(2)]; simp add: os_time_def)+
  have same: "aside ?srv2 = aside srv"
    using pop(4) by simp
  have now: "fst (os_time srv1) = os_clock srv (os_ticks srv)"
    using pop(5) asideD(6) [OF pop(4)] by (simp add: os_time_def)
  have ok: "table_ok ?srv2"
    using aside_table(1) [OF same] assms(1) by simp
  have d: "distinct (entries ?srv2)" "Suc (length (entries ?srv2)) < th_count ?srv2 + 2"
    using pop(3) heap length_entries [OF heap(1)] by simp_all
  have t: "case t of None \<Rightarrow> entries ?srv2 = [] | Some p \<Rightarrow> srv_mem ?srv2 p \<noteq> None \<and> p \<notin> set (entries ?srv2)"
    using pop(7) heap(2) by (simp split: option.splits)
  obtain t' srv' where run: "expire_loop (th_count ?srv2 + 2) (fst (os_time srv1)) t ?srv2 = Ok (t', srv')"
    "table_ok srv'" "heap_live srv'" "distinct (entries srv')" "mset (entries srv') \<subseteq># mset (entries ?srv2)"
    "keeps_alive ?srv2 srv'"
    "case t' of None \<Rightarrow> entries srv' = []
     | Some p \<Rightarrow> srv_mem srv' p \<noteq> None \<and> p \<notin> set (entries srv') \<and> fst (os_time srv1) < timeout_of srv' p"
    using expire_loop_ends [OF ok heap(1) d t] by blast
  have keep: "keeps_alive srv srv'"
    by (rule keeps_alive_trans [OF keeps_alive_aside [OF same] run(6)]) (simp add: pop(5))
  moreover have "mset (entries srv') \<subseteq># mset (entries srv)"
    using run(5) pop(6) heap(2) subset_mset.order_trans by simp
  moreover have "next_timeout srv = Ok (t', srv')"
    using run(1) by (simp add: next_timeout_def pop(1) case_prod_unfold Let_def del: expire_loop.simps)
  ultimately show ?thesis
    using run(2-4,7) now keep unfolding keeps_alive_def
    by (intro exI [of _ t'] exI [of _ srv']) (simp split: option.splits)
qed

theorem expired_sessions_end_witness:
  "\<exists>t srv'. next_timeout (example_waiting 1 (\<lambda>_. 20) 30) = Ok (t, srv') \<and>
    contents srv' 0 = contents (example_waiting 1 (\<lambda>_. 20) 30) 0"
proof -
  have e: "heap_live (example_waiting 1 (\<lambda>_. 20) 30)" "distinct (entries (example_waiting 1 (\<lambda>_. 20) 30))"
    by simp_all
  from expired_sessions_end [OF example_waiting_table(1) e]
  obtain t srv' where "next_timeout (example_waiting 1 (\<lambda>_. 20) 30) = Ok (t, srv')"
    "contents srv' 0 = contents (example_waiting 1 (\<lambda>_. 20) 30) 0 \<or> contents srv' 0 = None \<and>
      (\<exists>k. timeout_of (example_waiting 1 (\<lambda>_. 20) 30) 0 \<le> os_clock (example_waiting 1 (\<lambda>_. 20) 30) k)"
    by blast
  then show ?thesis by (simp del: One_nat_def)
qed

text \<open>C34. A client that sent one packet and is silent, and whose session is the only one in the
  heap: when \<open>select\<close> gives up, its session is deleted. The loop reads the clock once more to decide that, and where
  this reading is before the session's time, it is kept but not put back
  into the heap: it is then never timed out.\<close>

theorem silent_client_timed_out:
  assumes "table_ok srv" "heap_live srv" "entries srv = [p]" "os_clock srv (os_ticks srv) < timeout_of srv p"
  shows "\<exists>srv'. server_round Select_Timeout (srv, buf) = Ok (Inl (srv', buf)) \<and> table_ok srv' \<and> heap_live srv' \<and>
    entries srv' = [] \<and> os_sent srv' = os_sent srv \<and>
    contents srv' = (if timeout_of srv p \<le> os_clock srv (os_ticks srv + 1) then (contents srv)(p := None)
      else contents srv)"
proof -
  have "distinct (entries srv)"
    using assms(3) by simp
  then obtain t srv1 where pop: "sas_server_timeout_pop srv = Ok (t, srv1)" "heap_live srv1"
    "aside srv1 = aside srv" "os_ticks srv1 = os_ticks srv" "mset (entries srv1) \<subseteq># mset (entries srv)"
    "case t of None \<Rightarrow> entries srv1 = [] \<and> entries srv = []
     | Some p \<Rightarrow> srv_mem srv1 p \<noteq> None \<and> p \<notin> set (entries srv1) \<and>
         length (entries srv) = Suc (length (entries srv1))"
    using pop_live [OF assms(2)] by blast
  have n: "0 < th_count srv"
    using length_entries [OF assms(2)] assms(3) by simp
  have "t = Some p"
    using timeout_pop_spec [OF assms(2) n] assms(3) pop(1) by auto
  then have one: "t = Some p" "entries srv1 = []"
    using pop(6) assms(3) by simp_all
  let ?srv2 = "snd (os_time srv1)"
  have heap: "heap_live ?srv2" "entries ?srv2 = []"
    using heap_live_same [OF pop(2), of ?srv2] one(2) by (simp_all add: os_time_def)
  have same: "aside ?srv2 = aside srv"
    using pop(3) by simp
  have as: "os_ticks ?srv2 = os_ticks srv + 1" "fst (os_time srv1) = os_clock srv (os_ticks srv)"
    using pop(4) asideD(6) [OF pop(3)] by (simp_all add: os_time_def)
  note d = asideD [OF same] and tab = aside_table [OF same]
  have "srv_mem srv p \<noteq> None"
    using heap_live_entries [OF assms(2), of p] assms(3) by simp
  then obtain s where s: "srv_mem srv p = Some s" by blast
  have ok: "table_ok ?srv2" "srv_mem ?srv2 p \<noteq> None" "p \<notin> set (entries ?srv2)"
    using tab(1) assms(1) s d(1) heap(2) by simp_all
  obtain srv' where srv': "sas_server_timeout ?srv2 p = Ok srv'" "table_ok srv'" "heap_live srv'"
    "entries srv' = entries ?srv2" "keeps_alive ?srv2 srv'"
    "contents srv' = (if timeout_of ?srv2 p \<le> os_clock ?srv2 (os_ticks ?srv2) then (contents ?srv2)(p := None)
      else contents ?srv2)"
    using timeout_live [OF ok(1) heap(1) ok(2,3)] by blast
  have "next_timeout srv = Ok (Some p, ?srv2)"
    using one(1) s d(1) as(2) assms(4)
    by (simp add: next_timeout_def pop(1) case_prod_unfold Let_def session_at_def timeout_of_def)
  then have "server_round Select_Timeout (srv, buf) = Ok (Inl (srv', buf))"
    using srv'(1) by (simp add: server_round_def)
  then show ?thesis
    using srv' heap(2) tab(2,4) as(1) d(6,7) by (intro exI [of _ srv']) (simp add: keeps_alive_def)
qed

theorem silent_client_timed_out_witness:
  "\<exists>srv'. server_round Select_Timeout (example_waiting 1 (\<lambda>k. 30 * int k) 30, []) = Ok (Inl (srv', [])) \<and>
    contents srv' 0 = None \<and> entries srv' = []"
  using silent_client_timed_out [OF example_waiting_table(1), of 1 "\<lambda>k. 30 * int k" 30 0 "[]"] by auto

text \<open>A client that resets its session: the session is deleted, and the
  loop, which has it in its hand, sets the timeout of the freed session.\<close>

lemma reset_use_after_free:
  assumes "table_ok srv" "heap_live srv" "addr_ok a" "session_lookup srv a = Some p" "srv_mem srv p = Some s"
    and "\<forall>q \<in> set (entries srv). os_clock srv (os_ticks srv) < timeout_of srv q"
    and "header_load d = Ok w" "sizeof_header \<le> length d" "sizeof_header \<le> length buf"
    and "\<not> hd_seq (header_decode w) < s_ack s" "flag_isset (hd_flags (header_decode w)) FLAG_RST"
  shows "server_round (Datagram a d) (srv, buf) = Fault Use_After_Free"
proof -
  have len: "16 \<le> length d" "16 \<le> length buf"
    using assms(8,9) by (simp_all add: sizeof_defs)
  obtain buf' where dec: "header_decode_in_place (recv_into buf d) = Ok buf'" "header_load buf' = Ok (header_decode w)"
    using datagram_decoded [OF assms(7) len] by blast
  show ?thesis
  proof (rule round_deletes [OF assms(1-3) _ dec(1)])
    show "os_clock srv (os_ticks srv) < timeout_of srv q" if "q \<in> set (entries srv)" for q
      using assms(6) that by blast
    fix srv2
    assume as: "aside srv2 = aside srv"
    have ok: "table_ok srv2" "session_lookup srv2 a = Some p" "srv_mem srv2 p = Some s"
      using aside_table [OF as] asideD(1) [OF as] assms(1,3-5) by simp_all
    have get: "sas_server_session_get srv2 a = Ok (Some p, srv2)"
      by (rule sessions.get_found [OF ok(1) assms(3) ok(2)])
    obtain srv4 where "sas_server_session_state_machine srv2 p buf' = Ok srv4"
      "contents srv4 = (contents srv2)(p := None)"
      using state_machine_reset [OF ok(1,3) dec(2) assms(10,11)] by blast
    with get show "\<exists>p srv3 srv4. sas_server_session_get srv2 a = Ok (Some p, srv3) \<and>
      sas_server_session_state_machine srv3 p buf' = Ok srv4 \<and> contents srv4 p = None"
      by (intro exI [of _ p] exI [of _ srv2] exI [of _ srv4]) simp
  qed
qed

lemma reset_use_after_free_witness:
  "server_round (Datagram (example_addr 1) (header_image [0, 0] (header_encode (example_header 0 FLAG_RST 0))))
    (example_waiting 1 (\<lambda>_. 20) 30, replicate buffer_size 0) = Fault Use_After_Free"
proof -
  let ?d = "header_image [0, 0] (header_encode (example_header 0 FLAG_RST 0))"
  have d: "header_load ?d = Ok (header_encode (example_header 0 FLAG_RST 0))" "sizeof_header \<le> length ?d"
    using hdr.load_image [of "[0, 0]" "header_encode (example_header 0 FLAG_RST 0)" "[]"]
    by (simp_all add: image_simps sizeof_defs)
  show ?thesis
    by (rule reset_use_after_free [OF _ _ _ _ example_waiting_simps(3) _ d])
      (simp_all add: buffer_size_def sizeof_defs)
qed

text \<open>C35. A client whose file the server cannot open: the client is sent the
  error code, its new session is deleted, and the loop sets the timeout of the
  freed session, so the first request for a missing file is memory corruption.\<close>

theorem missing_file_use_after_free:
  assumes "table_ok srv" "heap_live srv" "addr_ok a" "session_lookup srv a = None"
    and "srv_malloc_ok srv (srv_fresh srv)" "os_send_error srv = (\<lambda>_. None)" "os_files srv name = Inl e"
    and "\<forall>q \<in> set (entries srv). os_clock srv (os_ticks srv) < timeout_of srv q"
    and "length pad = 2" "hd_length h = of_nat (Suc (length name))" "length name < 2 ^ 16 - 1" "0 \<notin> set name"
    and "hd_flags h = FLAG_SYN" "length (syn_datagram pad h name) \<le> length buf"
  shows "server_round (Datagram a (syn_datagram pad h name)) (srv, buf) = Fault Use_After_Free"
proof (rule round_deletes [OF assms(1-3) _ syn_datagram_decoded [OF assms(9,14)]])
  show "os_clock srv (os_ticks srv) < timeout_of srv q" if "q \<in> set (entries srv)" for q
    using assms(8) that by blast
  fix srv2
  assume as: "aside srv2 = aside srv"
  note d = asideD [OF as] and tab = aside_table [OF as]
  have two: "table_ok srv2" "session_lookup srv2 a = None" "srv_malloc_ok srv2 (srv_fresh srv2)"
    using tab d assms(1,3-5) by simp_all
  obtain srv3 s i ps where new: "sas_server_session_get srv2 a = Ok (Some (srv_fresh srv2), srv3)" "table_ok srv3"
    "srv_mem srv3 (srv_fresh srv2) = Some s" "s = new_session (srv_junk srv2) a" "srv3 = link_session i ps s srv2"
    using new_client [OF two(1) assms(3) two(2,3)] by blast
  have s: "s_state s = STATE_INITIAL" "\<not> hd_seq h < s_ack s"
    by (simp_all add: new(4) new_session_def)
  have env: "os_send_error srv3 = (\<lambda>_. None)" "os_files srv3 name = Inl e \<or> (0 :: u8) \<noteq> 0"
    using assms(6,7) d by (simp_all add: new(5))
  let ?rest = "drop (length (syn_datagram pad h name)) buf"
  obtain srv4 where "sas_server_session_state_machine srv3 (srv_fresh srv2) (syn_buffer pad h 0 (name @ ?rest)) = Ok srv4"
    "contents srv4 = (contents srv3)(srv_fresh srv2 := None)"
    using state_machine_refuses [OF new(2,3) s(1) env assms(9-13) s(2), of ?rest] by blast
  with new(1) show "\<exists>p srv3 srv4. sas_server_session_get srv2 a = Ok (Some p, srv3) \<and>
    sas_server_session_state_machine srv3 p (syn_buffer pad h 0 (name @ ?rest)) = Ok srv4 \<and> contents srv4 p = None"
    by (intro exI [of _ "srv_fresh srv2"] exI [of _ srv3] exI [of _ srv4]) simp
qed

theorem missing_file_use_after_free_witness:
  "server_round (Datagram (example_addr 1) (syn_datagram [0, 0] (example_header 0 FLAG_SYN 2) [0x63]))
    (example_start, replicate buffer_size 0) = Fault Use_After_Free"
proof -
  have f: "os_files example_start [0x63] = Inl 2"
    by (simp add: media_def)
  have len: "length (syn_datagram [0, 0] (example_header 0 FLAG_SYN 2) [0x63]) = 18"
    by (simp add: syn_datagram_def image_simps)
  show ?thesis
    by (rule missing_file_use_after_free [OF _ _ _ _ _ _ f]) (simp_all add: len buffer_size_def)
qed

end
