(* ===== verification/Client.thy ===== *)
theory Client
  imports Rxc_Pipeline Sas_Os
begin

text \<open>
  The client (\<open>sas-client/src/client.c\<close>, \<open>client.h\<close> and \<open>source.c\<close>): its
  session, the source that pulls on it, what a received packet does, and the
  loop that receives a stream. The sink that the chunks go to is a parameter.
\<close>

section \<open>The state\<close>

text \<open>
  A client and the one pipeline it runs; the state of the sink is what
  extends the record. \<open>c_pipeline\<close> and \<open>c_sink_logic\<close> say whether the pointer
  is not null. All its packets go to the server its socket is connected to.
\<close>

record client = rx +
  c_os :: "unit os"
  c_fd :: int
  c_state :: transport_state
  c_seq :: u32
  c_ack :: u32
  c_send_window :: u16
  c_receive_window :: u16
  c_pipeline :: bool
  c_sink_logic :: bool
  c_chunk :: sas_chunk

definition CLIENT_WINDOW_SIZE :: u16 where "CLIENT_WINDOW_SIZE = 1024"

definition sas_client_alloc :: "'a client_scheme \<Rightarrow> 'a client_scheme" where
  "sas_client_alloc junk = junk\<lparr>c_fd := - 1\<rparr>"

definition sas_client_init :: "'a client_scheme \<Rightarrow> 'a client_scheme" where
  "sas_client_init c = c\<lparr>c_fd := - 1, c_seq := 0, c_ack := 0, c_state := STATE_INITIAL, c_send_window := 0,
     c_receive_window := CLIENT_WINDOW_SIZE, c_pipeline := False, c_sink_logic := False\<rparr>"

definition on_os :: "(unit os \<Rightarrow> unit os) \<Rightarrow> 'a client_scheme \<Rightarrow> 'a client_scheme" where
  "on_os f c = c\<lparr>c_os := f (c_os c)\<rparr>"

definition sas_client_dealloc :: "'a client_scheme \<Rightarrow> 'a client_scheme" where
  "sas_client_dealloc c = (if 0 \<le> c_fd c then on_os (os_close (c_fd c)) c else c)"

section \<open>Connecting\<close>

text \<open>
  What the system makes of the addresses that \<open>getaddrinfo\<close> found, in turn:
  no socket for it, a socket that cannot be connected, or a connection.
\<close>

datatype attempt = No_Socket i32 | No_Connect i32 | Connected

definition EAI_NONAME :: i32 where "EAI_NONAME = - 2"

fun connect_any :: "attempt list \<Rightarrow> unit os \<Rightarrow> int option \<times> unit os" where
  "connect_any [] o' = (None, o')"
| "connect_any (No_Socket e # as) o' = connect_any as (o'\<lparr>os_errno := e\<rparr>)"
| "connect_any (No_Connect e # as) o' =
     (let (fd, o1) = os_socket o' in connect_any as (os_close fd (o1\<lparr>os_errno := e\<rparr>)))"
| "connect_any (Connected # as) o' = (let (fd, o1) = os_socket o' in (Some fd, o1))"

text \<open>The port is printed into six bytes.\<close>

definition sas_client_connect_hostname ::
    "(bytes \<Rightarrow> int \<Rightarrow> i32 + attempt list) \<Rightarrow> 'a client_scheme \<Rightarrow> bytes \<Rightarrow> int \<Rightarrow> (i32 \<times> 'a client_scheme) res" where
  "sas_client_connect_hostname getaddrinfo c hostname port =
     (let c1 = (if 0 \<le> c_fd c then (on_os (os_close (c_fd c)) c)\<lparr>c_fd := - 1\<rparr> else c)
      in if port < - 9999 \<or> 99999 < port then Fault Out_Of_Bounds
         else
           (case getaddrinfo hostname port of
              Inl err \<Rightarrow> Ok (err, c1)
            | Inr as \<Rightarrow>
                let (fd, o') = connect_any as (c_os c1)
                in (case fd of
                      None \<Rightarrow> Ok (EAI_NONAME, c1\<lparr>c_os := o'\<rparr>)
                    | Some fd \<Rightarrow> Ok (0, c1\<lparr>c_os := o', c_fd := fd\<rparr>))))"

section \<open>Sending\<close>

text \<open>\<open>payload\<close> are the bytes behind the header in the sender's memory.\<close>

definition sas_client_session_send ::
    "'a client_scheme \<Rightarrow> header \<Rightarrow> bytes \<Rightarrow> (i32 \<times> 'a client_scheme) res" where
  "sas_client_session_send c packet payload =
     (let packet1 = packet\<lparr>hd_seq := c_seq c, hd_ack := c_ack c, hd_window := c_receive_window c, hd_reserved := 0\<rparr>;
          c1 = c\<lparr>c_seq := c_seq c + seq_step (hd_length packet)\<rparr>
      in if length payload < unat (hd_length packet) then Fault Out_Of_Bounds
         else
           let (err, o') = os_send ()
             \<lparr>pk_header = header_encode packet1, pk_payload = take (unat (hd_length packet)) payload\<rparr> (c_os c1)
           in Ok (err, c1\<lparr>c_os := o'\<rparr>))"

text \<open>The length of the name is an \<open>int16_t\<close>, and what \<open>memcpy\<close> copies.\<close>

definition sas_client_session_syn :: "'a client_scheme \<Rightarrow> bytes \<Rightarrow> (i32 \<times> 'a client_scheme) res" where
  "sas_client_session_syn c name =
     (let name_len = (of_nat (length name) :: u16);
          c1 = c\<lparr>c_state := STATE_SYN_SENT\<rparr>
      in if sint name_len < 0 then Fault Out_Of_Bounds
         else sas_client_session_send c1 (packet_header FLAG_SYN (of_nat sizeof_cfg + name_len))
           (cfg_image [] (cfg_encode \<lparr>cfg_codec = 0\<rparr>) @ take (unat name_len) name))"

definition sas_client_session_ack :: "'a client_scheme \<Rightarrow> (i32 \<times> 'a client_scheme) res" where
  "sas_client_session_ack c = sas_client_session_send c (packet_header FLAG_ACK 0) []"

section \<open>The source of the session\<close>

definition client_on_pull :: "long \<Rightarrow> 'a client_scheme \<Rightarrow> 'a client_scheme res" where
  "client_on_pull n c =
     and_then (sas_client_session_ack (c\<lparr>c_receive_window := CLIENT_WINDOW_SIZE\<rparr>)) (\<lambda>(err, c'). Ok c')"

definition client_source_logic :: "'a client_scheme source_logic" where
  "client_source_logic = \<lparr>on_pull = client_on_pull, on_downstream_finish = (\<lambda>c. Ok c)\<rparr>"

text \<open>
  Calls through the connection nest once, as the source emits nothing itself:
  it is the state machine that pushes. A pull runs one task of the worker.
\<close>

definition client_depth :: nat where "client_depth = 1"
definition client_rounds :: nat where "client_rounds = 2"

definition sas_client_session_source :: "nat \<Rightarrow> ('e, 'a client_scheme) source" where
  "sas_client_session_source d =
     \<lparr>connect = (\<lambda>sink c. and_then (connect_stages (\<lambda>_. client_source_logic) d sink c)
        (\<lambda>c'. Ok (c'\<lparr>c_sink_logic := True\<rparr>)))\<rparr>"

text \<open>\<open>client->session.sink_logic\<close>, which is that of the stage of the scheduler.\<close>

definition client_parent :: "(sas_chunk, 'a client_scheme) sink \<Rightarrow> 'a client_scheme inlet" where
  "client_parent snk =
     conn_inlet (\<lambda>_. client_source_logic) (pipeline_sink_logic client_rounds (logic_of snk)) client_depth"

definition client_sink_logic ::
    "(sas_chunk, 'a client_scheme) sink \<Rightarrow> (sas_chunk, 'a client_scheme) sink_logic" where
  "client_sink_logic snk = pipeline_sink_logic client_rounds (logic_of snk) (client_parent snk)"

definition client_push ::
    "(sas_chunk, 'a client_scheme) sink \<Rightarrow> 'a client_scheme \<Rightarrow> 'a client_scheme res" where
  "client_push snk c =
     (if \<not> c_sink_logic c then Fault Null_Deref else on_push (client_sink_logic snk) (c_chunk c) c)"

section \<open>The state machine\<close>

text \<open>
  The packets' fields are decoded in the receive buffer, which is part of the
  result. The size of a chunk is a \<open>size_t\<close>, from which the size of a
  configuration is taken off for every packet.
\<close>

definition chunk_size :: "header \<Rightarrow> nat" where
  "chunk_size h = unat ((ucast (hd_length h) :: u64) - of_nat sizeof_cfg_ack)"

definition client_reset :: "header \<Rightarrow> 'a client_scheme \<Rightarrow> bytes \<Rightarrow> (i32 \<times> 'a client_scheme \<times> bytes) res" where
  "client_reset h c buf =
     (if flag_isset (hd_flags h) FLAG_ERR then
        and_then (err_load (drop sizeof_header buf)) (\<lambda>w.
        let packet = err_decode w
        in Ok (err_code packet, c, store_bytes buf sizeof_header (err_image [] packet)))
      else if flag_isset (hd_flags h) FLAG_FIN then Ok (0, c\<lparr>c_state := STATE_FINISHED\<rparr>, buf)
      else Ok (ECONNRESET, c, buf))"

definition client_configure ::
    "(sas_chunk, 'a client_scheme) sink \<Rightarrow> header \<Rightarrow> 'a client_scheme \<Rightarrow> bytes \<Rightarrow>
     (i32 \<times> 'a client_scheme \<times> bytes) res" where
  "client_configure snk h c buf =
     and_then (cfg_ack_load (drop sizeof_header buf)) (\<lambda>w.
     let cfg = cfg_ack_decode w;
         buf1 = store_bytes buf sizeof_header (cfg_ack_image [] cfg);
         c1 = c\<lparr>c_chunk := \<lparr>ck_size = chunk_size h, ck_sample_rate = ca_sample_rate cfg,
             ck_sample_size = ca_sample_size cfg, ck_channels = ca_channels cfg, ck_codec = ca_codec cfg,
             ck_buffer = drop (sizeof_header + sizeof_cfg_ack) buf1\<rparr>, c_pipeline := True\<rparr>
     in and_then (rxc_pipeline_start client_rounds
            (rxc_source_to (sas_client_session_source client_depth) snk) c1) (\<lambda>(err, c2).
        if err \<noteq> 0 then Ok (- 1, c2, buf1)
        else
          and_then (sas_client_session_ack c2) (\<lambda>(e, c3).
          and_then (client_push snk (c3\<lparr>c_state := STATE_ESTABLSH\<rparr>)) (\<lambda>c4. Ok (0, c4, buf1)))))"

definition client_chunk ::
    "(sas_chunk, 'a client_scheme) sink \<Rightarrow> header \<Rightarrow> 'a client_scheme \<Rightarrow> bytes \<Rightarrow>
     (i32 \<times> 'a client_scheme \<times> bytes) res" where
  "client_chunk snk h c buf =
     (let c1 = c\<lparr>c_chunk := (c_chunk c)\<lparr>ck_size := chunk_size h, ck_buffer := drop sizeof_header buf\<rparr>\<rparr>
      in and_then (client_push snk c1) (\<lambda>c2.
         and_then (sas_client_session_ack (c2\<lparr>c_receive_window := 0\<rparr>)) (\<lambda>(e, c3). Ok (0, c3, buf))))"

definition client_accept :: "header \<Rightarrow> 'a client_scheme \<Rightarrow> 'a client_scheme" where
  "client_accept h c = c\<lparr>c_send_window := hd_window h, c_ack := hd_seq h + seq_step (hd_length h)\<rparr>"

definition sas_client_session_state_machine ::
    "(sas_chunk, 'a client_scheme) sink \<Rightarrow> 'a client_scheme \<Rightarrow> bytes \<Rightarrow> (i32 \<times> 'a client_scheme \<times> bytes) res" where
  "sas_client_session_state_machine snk c buf =
     and_then (header_load buf) (\<lambda>h.
     if hd_seq h < c_ack c then Ok (0, c, buf)
     else
       let c1 = client_accept h c
       in if flag_isset (hd_flags h) FLAG_RST then client_reset h c1 buf
          else
            case c_state c1 of
              STATE_SYN_SENT \<Rightarrow> client_configure snk h c1 buf
            | STATE_ESTABLSH \<Rightarrow> client_chunk snk h c1 buf
            | _ \<Rightarrow> Ok (0, c1, buf))"

section \<open>The loop\<close>

text \<open>What \<open>select\<close> and \<open>recv\<close> give.\<close>

datatype event =
    Wait_Failed i32
  | Wait_Timeout
  | Receive_Failed i32
  | Received bytes

definition client_buffer_size :: nat where "client_buffer_size = 4096"

definition client_received :: "(sas_chunk, 'a client_scheme) sink \<Rightarrow> bytes \<Rightarrow> 'a client_scheme \<times> bytes \<Rightarrow>
    (i32 \<times> 'a client_scheme \<times> bytes) res" where
  "client_received snk d = (\<lambda>(c, buf).
     and_then (header_decode_in_place (recv_into buf d)) (sas_client_session_state_machine snk c))"

text \<open>
  Over the events there are, the loop ends with an error number or \<open>0\<close>
  (\<open>Inr\<close>), or still runs behind the last of them (\<open>Inl\<close>).
\<close>

fun client_loop :: "(sas_chunk, 'a client_scheme) sink \<Rightarrow> event list \<Rightarrow> 'a client_scheme \<times> bytes \<Rightarrow>
    ('a client_scheme \<times> bytes + i32 \<times> 'a client_scheme) res" where
  "client_loop snk [] (c, buf) =
     (if c_state c = STATE_FINISHED then Ok (Inr (0, c)) else Ok (Inl (c, buf)))"
| "client_loop snk (e # es) (c, buf) =
     (if c_state c = STATE_FINISHED then Ok (Inr (0, c))
      else
        case e of
          Wait_Failed err \<Rightarrow> Ok (Inr (err, c))
        | Wait_Timeout \<Rightarrow> Ok (Inr (ETIMEDOUT, c))
        | Receive_Failed err \<Rightarrow> Ok (Inr (err, c))
        | Received d \<Rightarrow>
            and_then (client_received snk d (c, buf)) (\<lambda>(err, c1, buf1).
            if err \<noteq> 0 then Ok (Inr (err, c1)) else client_loop snk es (c1, buf1)))"

definition sas_client_receive :: "(sas_chunk, 'a client_scheme) sink \<Rightarrow> bytes \<Rightarrow> event list \<Rightarrow>
    'a client_scheme \<times> bytes \<Rightarrow> ('a client_scheme \<times> bytes + i32 \<times> 'a client_scheme) res" where
  "sas_client_receive snk name es = (\<lambda>(c, buf).
     and_then (sas_client_session_syn c name) (\<lambda>(err, c1).
     if err \<noteq> 0 then Ok (Inr (err, c1)) else client_loop snk es (c1, buf)))"

end
