(* ===== verification/Drivers.thy ===== *)
theory Drivers
  imports Client
begin

text \<open>
  The sinks that the client can play to (\<open>sas-client/src/drivers\<close>): the one
  that ignores the audio, and the one that writes it to a sound device.
\<close>

section \<open>Ignoring the audio\<close>

text \<open>
  Deallocating one of the client's chunks does nothing: its memory is the
  receive buffer.
\<close>

definition chunk_dealloc :: "sas_chunk \<Rightarrow> 's \<Rightarrow> 's" where
  "chunk_dealloc chunk s = s"

definition driver_ignore_logic :: "'s inlet \<Rightarrow> (sas_chunk, 's) sink_logic" where
  "driver_ignore_logic i =
     \<lparr>on_connect = rxc_inlet_pull i 1,
      on_push = (\<lambda>chunk s. rxc_inlet_pull i 1 (chunk_dealloc chunk s)),
      on_upstream_finish = (\<lambda>s. Ok s),
      on_upstream_failure = (\<lambda>s. Ok s)\<rparr>"

definition sas_drivers_ignore :: "(sas_chunk, 's) sink" where
  "sas_drivers_ignore = \<lparr>create_logic = (\<lambda>s. s), logic_of = driver_ignore_logic\<rparr>"

section \<open>A sound device\<close>

text \<open>
  The requests to set up the device, which may each be refused, and how many
  bytes the device would take at most with the n-th write, if it is no error.
  \<open>oss_env\<close> is the variable \<open>AUDIODEV\<close> of the environment, if it is set.
\<close>

datatype dsp_request =
    DSP_RESET
  | DSP_SAMPLESIZE i32
  | DSP_CHANNELS i32
  | DSP_SPEED i32
  | DSP_SYNC

record oss_client = client +
  oss_env :: "bytes option"
  oss_accepts :: "dsp_request \<Rightarrow> bool"
  oss_write_gives :: "nat \<Rightarrow> int"
  oss_fd :: int
  oss_finished :: bool
  oss_requests :: "dsp_request list"
  oss_writes :: "bytes list"

definition AUDIODEV :: bytes where
  "AUDIODEV = [0x2f, 0x64, 0x65, 0x76, 0x2f, 0x64, 0x73, 0x70]"

text \<open>The requests are made in turn until one fails; then the device is closed.\<close>

fun setup_device :: "int \<Rightarrow> dsp_request list \<Rightarrow> 'a oss_client_scheme \<Rightarrow> int \<times> 'a oss_client_scheme" where
  "setup_device fd [] c = (fd, c)"
| "setup_device fd (r # rs) c =
     (let c1 = c\<lparr>oss_requests := oss_requests c @ [r]\<rparr>
      in if \<not> oss_accepts c r then (- 1, on_os (os_close fd) c1) else setup_device fd rs c1)"

definition open_audio_fd :: "i32 \<Rightarrow> i32 \<Rightarrow> i32 \<Rightarrow> 'a oss_client_scheme \<Rightarrow> int \<times> 'a oss_client_scheme" where
  "open_audio_fd sample_rate sample_size channels c =
     (let devicename = (case oss_env c of None \<Rightarrow> AUDIODEV | Some name \<Rightarrow> name);
          (audio_fd, o') = os_open devicename (c_os c);
          c1 = c\<lparr>c_os := o'\<rparr>
      in if audio_fd < 0 then (- 1, c1)
         else setup_device audio_fd
           [DSP_RESET, DSP_SAMPLESIZE sample_size, DSP_CHANNELS channels, DSP_SPEED sample_rate, DSP_SYNC] c1)"

text \<open>
  \<open>write\<close> on a descriptor that is not open fails; else it takes no more bytes than
  it is given, none of none, and gives their number. It is handed memory, so a count beyond the
  buffer is a fault, also one so large that POSIX leaves it to the implementation.
\<close>

definition oss_write :: "bytes \<Rightarrow> nat \<Rightarrow> 'a oss_client_scheme \<Rightarrow> (int \<times> 'a oss_client_scheme) res" where
  "oss_write buffer n c =
     (if fd_open (oss_fd c) (c_os c) = None then Ok (- 1, on_os (\<lambda>o'. o'\<lparr>os_errno := EBADF\<rparr>) c)
      else if length buffer < n then Fault Out_Of_Bounds
      else
        let r = min (oss_write_gives c (length (oss_writes c))) (int n)
        in Ok (r, c\<lparr>oss_writes := oss_writes c @ [take (nat r) buffer]\<rparr>))"

definition oss_on_push ::
    "'a oss_client_scheme inlet \<Rightarrow> sas_chunk \<Rightarrow> 'a oss_client_scheme \<Rightarrow> 'a oss_client_scheme res" where
  "oss_on_push i chunk c =
     (if oss_fd c \<le> 0 \<and> \<not> oss_finished c then
        let (fd, c1) = open_audio_fd (ck_sample_rate chunk) (scast (ck_sample_size chunk)) (scast (ck_channels chunk)) c
        in rxc_inlet_pull i 1 (c1\<lparr>oss_fd := fd\<rparr>)
      else
        and_then (oss_write (ck_buffer chunk) (ck_size chunk) c) (\<lambda>(n, c1).
        let c2 = chunk_dealloc chunk c1
        in if n \<le> 0 then rxc_inlet_cancel i (on_os (os_close (oss_fd c2)) (c2\<lparr>oss_finished := True\<rparr>))
           else rxc_inlet_pull i 1 c2))"

definition oss_logic :: "'a oss_client_scheme inlet \<Rightarrow> (sas_chunk, 'a oss_client_scheme) sink_logic" where
  "oss_logic i =
     \<lparr>on_connect = rxc_inlet_pull i 1, on_push = oss_on_push i,
      on_upstream_finish = (\<lambda>c. Ok c), on_upstream_failure = (\<lambda>c. Ok c)\<rparr>"

definition oss_create_logic :: "'a oss_client_scheme \<Rightarrow> 'a oss_client_scheme" where
  "oss_create_logic c = c\<lparr>oss_fd := - 1, oss_finished := False\<rparr>"

definition sas_drivers_oss :: "(sas_chunk, 'a oss_client_scheme) sink" where
  "sas_drivers_oss = \<lparr>create_logic = oss_create_logic, logic_of = oss_logic\<rparr>"

definition oss_dealloc :: "'a oss_client_scheme \<Rightarrow> 'a oss_client_scheme" where
  "oss_dealloc c = (if 0 \<le> oss_fd c \<or> oss_finished c then on_os (os_close (oss_fd c)) c else c)"

end
