(* ===== verification/Client_Stream.thy ===== *)
theory Client_Stream
  imports Drivers
begin

text \<open>
  What the client's session does for every sink that asks for another chunk
  when it has played one: what it acknowledges, what reaches the sink, and how
  its loop ends.
\<close>

section \<open>Sending and pulling, in terms of the packet\<close>

definition client_packet :: "'a client_scheme \<Rightarrow> u8 \<Rightarrow> bytes \<Rightarrow> packet" where
  "client_packet c flags payload =
     \<lparr>pk_header = header_encode
        \<lparr>hd_seq = c_seq c, hd_ack = c_ack c, hd_reserved = 0, hd_flags = flags,
         hd_window = c_receive_window c, hd_length = of_nat (length payload)\<rparr>,
      pk_payload = payload\<rparr>"

definition client_sent :: "u8 \<Rightarrow> bytes \<Rightarrow> 'a client_scheme \<Rightarrow> 'a client_scheme" where
  "client_sent flags payload c =
     c\<lparr>c_seq := c_seq c + seq_step (of_nat (length payload)),
       c_os := snd (os_send () (client_packet c flags payload) (c_os c))\<rparr>"

text \<open>Whether the packet goes out or not, the session goes on as if it had.\<close>

definition send_result :: "u8 \<Rightarrow> bytes \<Rightarrow> 'a client_scheme \<Rightarrow> i32" where
  "send_result flags payload c = fst (os_send () (client_packet c flags payload) (c_os c))"

lemma send_result [simp]: "os_send_error (c_os c) = (\<lambda>_. None) \<Longrightarrow> send_result flags payload c = 0"
  by (simp add: send_result_def os_send_def)

lemma client_sends:
  assumes "length payload < 2 ^ 16"
  shows "sas_client_session_send c (packet_header flags (of_nat (length payload))) payload =
    Ok (send_result flags payload c, client_sent flags payload c)"
proof -
  have len: "unat (of_nat (length payload) :: u16) = length payload"
    using assms by (simp add: unat_of_nat)
  show ?thesis
    by (simp add: sas_client_session_send_def len client_packet_def client_sent_def send_result_def
        packet_header_def Let_def case_prod_unfold)
qed

lemma client_send:
  "length payload < 2 ^ 16 \<Longrightarrow> os_send_error (c_os c) = (\<lambda>_. None) \<Longrightarrow>
    sas_client_session_send c (packet_header flags (of_nat (length payload))) payload =
      Ok (0, client_sent flags payload c)"
  by (simp add: client_sends)

lemma client_acks: "sas_client_session_ack c = Ok (send_result FLAG_ACK [] c, client_sent FLAG_ACK [] c)"
  using client_sends [of "[]" c FLAG_ACK] by (simp add: sas_client_session_ack_def)

lemma client_ack:
  "os_send_error (c_os c) = (\<lambda>_. None) \<Longrightarrow> sas_client_session_ack c = Ok (0, client_sent FLAG_ACK [] c)"
  by (simp add: client_acks)

text \<open>A request through the connection: the window opens, and the server is told.\<close>

definition one_more :: "long \<Rightarrow> long" where
  "one_more r = (if sint (r + 1) < 0 then LONG_MAX else r + 1)"

lemma one_more_open [simp]: "one_more r \<noteq> LONG_MIN"
  by (auto simp: one_more_def LONG_MIN_iff LONG_MAX_iff)

definition client_pulled :: "'a client_scheme \<Rightarrow> 'a client_scheme" where
  "client_pulled c =
     (client_sent FLAG_ACK [] (c\<lparr>c_receive_window := CLIENT_WINDOW_SIZE\<rparr>))
       \<lparr>requested := one_more (requested c), worker := idle_worker (Suc (fresh (worker c)))\<rparr>"

lemma client_sent_simps [simp]:
  "c_seq (client_sent flags payload c) = c_seq c + seq_step (of_nat (length payload))"
  "c_ack (client_sent flags payload c) = c_ack c" "c_state (client_sent flags payload c) = c_state c"
  "c_receive_window (client_sent flags payload c) = c_receive_window c"
  "c_sink_logic (client_sent flags payload c) = c_sink_logic c" "c_chunk (client_sent flags payload c) = c_chunk c"
  "requested (client_sent flags payload c) = requested c" "worker (client_sent flags payload c) = worker c"
  "in_parent (client_sent flags payload c) = in_parent c" "client.more (client_sent flags payload c) = client.more c"
  "os_send_error (c_os (client_sent flags payload c)) = os_send_error (c_os c)"
  "os_fds (c_os (client_sent flags payload c)) = os_fds (c_os c)"
  "os_files (c_os (client_sent flags payload c)) = os_files (c_os c)" "c_fd (client_sent flags payload c) = c_fd c"
  by (simp_all add: client_sent_def os_send_def Let_def split: option.split)

lemma client_sent_sent:
  "os_send_error (c_os c) = (\<lambda>_. None) \<Longrightarrow>
    os_sent (c_os (client_sent flags payload c)) = os_sent (c_os c) @ [((), client_packet c flags payload)]"
  by (simp add: client_sent_def os_send_def)

lemma client_pulled_simps [simp]:
  "c_seq (client_pulled c) = c_seq c + 1" "c_ack (client_pulled c) = c_ack c"
  "c_state (client_pulled c) = c_state c" "c_receive_window (client_pulled c) = CLIENT_WINDOW_SIZE"
  "c_sink_logic (client_pulled c) = c_sink_logic c" "c_chunk (client_pulled c) = c_chunk c"
  "requested (client_pulled c) = one_more (requested c)"
  "worker (client_pulled c) = idle_worker (Suc (fresh (worker c)))"
  "in_parent (client_pulled c) = in_parent c" "client.more (client_pulled c) = client.more c"
  "os_send_error (c_os (client_pulled c)) = os_send_error (c_os c)"
  "os_fds (c_os (client_pulled c)) = os_fds (c_os c)" "os_files (c_os (client_pulled c)) = os_files (c_os c)"
  "c_fd (client_pulled c) = c_fd c"
  by (simp_all add: client_pulled_def seq_step_def)

lemma client_pulled_sent:
  "os_send_error (c_os c) = (\<lambda>_. None) \<Longrightarrow>
    os_sent (c_os (client_pulled c)) =
      os_sent (c_os c) @ [((), client_packet (c\<lparr>c_receive_window := CLIENT_WINDOW_SIZE\<rparr>) FLAG_ACK [])]"
  by (simp add: client_pulled_def client_sent_sent)

definition client_inlet :: "(sas_chunk, 'a client_scheme) sink \<Rightarrow> 'a client_scheme inlet" where
  "client_inlet snk = pipeline_inlet_create client_rounds (client_parent snk)"

text \<open>A connection that is not cancelled, and one of which every acknowledgement goes out.\<close>

definition tuned :: "'a client_scheme \<Rightarrow> bool" where
  "tuned c \<longleftrightarrow> in_parent c \<and> (\<exists>n. worker c = idle_worker n) \<and> requested c \<noteq> LONG_MIN"

definition listening :: "'a client_scheme \<Rightarrow> bool" where
  "listening c \<longleftrightarrow> in_parent c \<and> (\<exists>n. worker c = idle_worker n) \<and> requested c \<noteq> LONG_MIN \<and>
     os_send_error (c_os c) = (\<lambda>_. None)"

lemma listening_tuned: "listening c \<longleftrightarrow> tuned c \<and> os_send_error (c_os c) = (\<lambda>_. None)"
  by (simp add: listening_def tuned_def)

lemma tuned_pulled [simp]: "tuned c \<Longrightarrow> tuned (client_pulled c)"
  by (auto simp: tuned_def)

lemma listening_pulled [simp]: "listening c \<Longrightarrow> listening (client_pulled c)"
  by (auto simp: listening_def)

lemma client_pull:
  assumes "tuned c"
  shows "rxc_inlet_pull (client_inlet snk) 1 c = Ok (client_pulled c)"
proof -
  obtain n where n: "worker c = idle_worker n" "in_parent c" "requested c \<noteq> LONG_MIN"
    using assms by (auto simp: tuned_def)
  let ?c = "set_worker (busy_worker n 1) c"
  let ?c1 = "(?c\<lparr>requested := one_more (requested c)\<rparr>)\<lparr>c_receive_window := CLIENT_WINDOW_SIZE\<rparr>"
  have parent: "inlet_pull (client_parent snk) 1 ?c = Ok (client_sent FLAG_ACK [] ?c1)"
    using n(3) client_acks [of ?c1]
    by (simp add: client_parent_def client_depth_def rxc_connection_inlet_pull_def set_worker_def
        client_source_logic_def client_on_pull_def one_more_def Let_def)
  have leaf: "worker (client_sent FLAG_ACK [] ?c1) = busy_worker n 1"
    by (simp add: set_worker_def)
  have done': "set_worker (idle_worker (Suc n)) (client_sent FLAG_ACK [] ?c1) = client_pulled c"
    using n(1) by (simp add: client_pulled_def client_sent_def client_packet_def set_worker_def)
  show ?thesis
    using rx.schedule_leaf [OF n(1), of client_rounds "pipeline_executor (client_parent snk)" 1] leaf n(2) done'
    by (simp add: rxc_inlet_pull_def client_inlet_def pipeline_inlet_create_def pipeline_inlet_pull_def
        client_rounds_def pipeline_executor_def parent)
qed

lemma client_cancel:
  assumes "in_parent c"
  shows "rxc_inlet_cancel (client_inlet snk) c = Ok (c\<lparr>in_parent := False, requested := LONG_MIN\<rparr>)"
proof -
  have "c\<lparr>in_parent := False, requested := LONG_MIN\<rparr> = c\<lparr>in_parent := False\<rparr>" if "requested c = LONG_MIN"
    using that by (intro client.equality) simp_all
  then show ?thesis
    using assms
    by (simp add: rxc_inlet_cancel_def client_inlet_def pipeline_inlet_create_def pipeline_inlet_cancel_def
        client_parent_def client_depth_def rxc_connection_inlet_cancel_def client_source_logic_def Let_def)
qed

section \<open>The contract of a sink\<close>

text \<open>
  What the client's session relies on: a sink asks for one chunk when it is
  connected, and with each chunk it is given, it plays it and asks for
  another one, or cancels. Playing leaves the session alone, and does not
  depend on it but only on the chunk's format and bytes and on the device, that
  is the sink's own state, the descriptors, of which one is the client's socket, and the files.
\<close>

definition session_part :: "'a client_scheme \<Rightarrow>
    (long \<times> long trampoline_worker \<times> bool) \<times> (transport_state \<times> u32 \<times> u32 \<times> u16) \<times>
    (bool \<times> sas_chunk) \<times> ((unit \<times> packet) list \<times> (nat \<Rightarrow> i32 option))" where
  "session_part c = ((requested c, worker c, in_parent c), (c_state c, c_seq c, c_ack c, c_receive_window c),
     (c_sink_logic c, c_chunk c), (os_sent (c_os c), os_send_error (c_os c)))"

definition device :: "'a client_scheme \<Rightarrow> 'a \<times> open_file option list \<times> (bytes \<Rightarrow> i32 + open_file) \<times> int" where
  "device c = (client.more c, os_fds (c_os c), os_files (c_os c), c_fd c)"

lemma session_partD:
  assumes "session_part c' = session_part c"
  shows "requested c' = requested c" "worker c' = worker c" "in_parent c' = in_parent c" "c_state c' = c_state c"
    "c_seq c' = c_seq c" "c_ack c' = c_ack c" "c_receive_window c' = c_receive_window c"
    "c_sink_logic c' = c_sink_logic c" "c_chunk c' = c_chunk c" "os_sent (c_os c') = os_sent (c_os c)"
    "os_send_error (c_os c') = os_send_error (c_os c)"
  using assms by (simp_all add: session_part_def)

text \<open>A session that receives chunks, the chunk a packet carries, and an acknowledgement.\<close>

definition established :: "'a client_scheme \<Rightarrow> bool" where
  "established c \<longleftrightarrow> listening c \<and> c_sink_logic c \<and> c_state c = STATE_ESTABLSH"

definition received_chunk :: "header \<Rightarrow> bytes \<Rightarrow> 'a client_scheme \<Rightarrow> sas_chunk" where
  "received_chunk h buf c = (c_chunk c)\<lparr>ck_size := chunk_size h, ck_buffer := drop sizeof_header buf\<rparr>"

definition config_chunk :: "header \<Rightarrow> packet_cfg_ack \<Rightarrow> bytes \<Rightarrow> sas_chunk" where
  "config_chunk h cfg buf = \<lparr>ck_size = chunk_size h, ck_sample_rate = ca_sample_rate cfg,
     ck_sample_size = ca_sample_size cfg, ck_channels = ca_channels cfg, ck_codec = ca_codec cfg,
     ck_buffer = drop (sizeof_header + sizeof_cfg_ack) (store_bytes buf sizeof_header (cfg_ack_image [] cfg))\<rparr>"

text \<open>The chunk that stands for a configuration: it has a format and no audio.\<close>

definition format_chunk :: "packet_cfg_ack \<Rightarrow> sas_chunk" where
  "format_chunk cfg = \<lparr>ck_size = 0, ck_sample_rate = ca_sample_rate cfg, ck_sample_size = ca_sample_size cfg,
     ck_channels = ca_channels cfg, ck_codec = ca_codec cfg, ck_buffer = []\<rparr>"

definition ack_of :: "packet \<Rightarrow> u32 \<Rightarrow> u32 \<Rightarrow> u16 \<Rightarrow> bool" where
  "ack_of p seq ack window \<longleftrightarrow> sent_seq p = seq \<and> sent_ack p = ack \<and> sent_flags p = FLAG_ACK \<and>
     sent_window p = window \<and> pk_payload p = [] \<and> packet_ok p"

lemma ack_of_packet:
  "ack_of (client_packet c FLAG_ACK []) seq ack window \<longleftrightarrow>
    c_seq c = seq \<and> c_ack c = ack \<and> c_receive_window c = window"
  by (simp add: ack_of_def client_packet_def sent_seq_def sent_ack_def sent_flags_def sent_window_def packet_ok_def)

text \<open>
  The bytes of a packet that reach the sink are all but the last eight; a
  chunk of them in the format of the stream.
\<close>

definition trim :: "bytes \<Rightarrow> bytes" where
  "trim payload = take (length payload - sizeof_cfg_ack) payload"

definition chunk_with :: "sas_chunk \<Rightarrow> bytes \<Rightarrow> sas_chunk" where
  "chunk_with f bs = f\<lparr>ck_size := length bs, ck_buffer := bs\<rparr>"

text \<open>The chunk that the sink is given, in the receive buffer: its size is a difference of unsigned numbers.\<close>

definition raw_size :: "nat \<Rightarrow> nat" where
  "raw_size n = unat ((of_nat n :: u64) - of_nat sizeof_cfg_ack)"

definition raw_chunk :: "sas_chunk \<Rightarrow> bytes \<Rightarrow> bytes \<Rightarrow> sas_chunk" where
  "raw_chunk f b rest = f\<lparr>ck_size := raw_size (length b), ck_buffer := b @ rest\<rparr>"

lemma raw_size:
  assumes "sizeof_cfg_ack \<le> n" "n < 2 ^ 16"
  shows "raw_size n = n - sizeof_cfg_ack"
proof -
  have "(of_nat n :: u64) - of_nat sizeof_cfg_ack = of_nat (n - sizeof_cfg_ack)"
    using assms(1) by (metis of_nat_diff)
  moreover have "unat (of_nat (n - sizeof_cfg_ack) :: u64) = n - sizeof_cfg_ack"
    using assms(2) by (simp add: unat_of_nat)
  ultimately show ?thesis
    by (simp only: raw_size_def)
qed

lemma chunk_size_raw:
  assumes "hd_length h = of_nat n" "n < 2 ^ 16"
  shows "chunk_size h = raw_size n"
proof -
  have "unat (hd_length h) = n"
    unfolding assms(1) unat_of_nat using assms(2) by simp
  then have "(ucast (hd_length h) :: u64) = of_nat n"
    by (metis of_nat_unat)
  then show ?thesis
    by (simp only: chunk_size_def raw_size_def)
qed

lemma chunk_size_length:
  "hd_length h = of_nat n \<Longrightarrow> sizeof_cfg_ack \<le> n \<Longrightarrow> n < 2 ^ 16 \<Longrightarrow> chunk_size h = n - sizeof_cfg_ack"
  by (simp only: chunk_size_raw raw_size)

text \<open>The packets of a stream between its configuration and its end.\<close>

definition audio_packet :: "nat \<Rightarrow> packet \<Rightarrow> bool" where
  "audio_packet n p \<longleftrightarrow> packet_ok p \<and> \<not> flag_isset (sent_flags p) FLAG_RST \<and> 16 + length (pk_payload p) \<le> n"

text \<open>Those from which the size of a configuration can be taken off.\<close>

definition chunk_packet :: "nat \<Rightarrow> packet \<Rightarrow> bool" where
  "chunk_packet n p \<longleftrightarrow> packet_ok p \<and> \<not> flag_isset (sent_flags p) FLAG_RST \<and>
     sizeof_cfg_ack \<le> length (pk_payload p) \<and> 16 + length (pk_payload p) \<le> n"

lemma chunk_packet_audio:
  "chunk_packet n p \<longleftrightarrow> audio_packet n p \<and> sizeof_cfg_ack \<le> length (pk_payload p)"
  by (auto simp: chunk_packet_def audio_packet_def)

locale audio_sink =
  fixes snk :: "(sas_chunk, 'a client_scheme) sink"
    and play :: "sas_chunk \<Rightarrow> 'a client_scheme \<Rightarrow> (bool \<times> 'a client_scheme) res"
  assumes connects: "on_connect (logic_of snk i) = rxc_inlet_pull i 1"
    and pushes: "on_push (logic_of snk i) e c =
      and_then (play e c) (\<lambda>(go, c'). if go then rxc_inlet_pull i 1 c' else rxc_inlet_cancel i c')"
    and play_session: "play e c = Ok (go, c') \<Longrightarrow> session_part c' = session_part c"
    and play_device: "play e c = Ok (go, c') \<Longrightarrow> device d = device c \<Longrightarrow>
      \<exists>d'. play e d = Ok (go, d') \<and> device d' = device c'"
    and play_audio: "ck_size e \<le> length (ck_buffer e) \<Longrightarrow>
      play (e\<lparr>ck_buffer := take (ck_size e) (ck_buffer e)\<rparr>) c = play e c"
    and create_session: "session_part (create_logic snk c) = session_part c"
    and create_device: "device d = device c \<Longrightarrow> device (create_logic snk d) = device (create_logic snk c)"
begin

lemma play_listening: "play e c = Ok (go, c') \<Longrightarrow> listening c \<Longrightarrow> listening c'"
  using session_partD [OF play_session, of e c go c'] by (simp add: listening_def)

lemma play_tuned: "play e c = Ok (go, c') \<Longrightarrow> tuned c \<Longrightarrow> tuned c'"
  using session_partD [OF play_session, of e c go c'] by (simp add: tuned_def)

lemma push_plays:
  assumes "c_sink_logic c" "tuned c" "play (c_chunk c) c = Ok (go, c')"
  shows "client_push snk c = Ok (if go then client_pulled c' else c'\<lparr>in_parent := False, requested := LONG_MIN\<rparr>)"
proof -
  have l: "tuned c'"
    by (rule play_tuned [OF assms(3,2)])
  then have "in_parent c'"
    by (simp add: tuned_def)
  with l assms show ?thesis
    by (simp add: client_push_def client_sink_logic_def pipeline_sink_logic_def pushes Let_def client_pull
        client_cancel client_inlet_def [symmetric])
qed

text \<open>The connection is made, and the sink's first request goes through it.\<close>

definition connecting :: "'a client_scheme \<Rightarrow> 'a client_scheme" where
  "connecting c = (set_worker scheduler_create_worker (create_logic snk c))\<lparr>requested := 0, in_parent := True\<rparr>"

lemma tuned_connecting: "tuned (connecting c)"
  by (auto simp: tuned_def connecting_def set_worker_def create_is_idle LONG_MIN_iff)

lemma start_connects:
  "rxc_pipeline_start client_rounds (rxc_source_to (sas_client_session_source client_depth) snk) c =
    Ok (0, (client_pulled (connecting c))\<lparr>c_sink_logic := True\<rparr>)"
proof -
  have "tuned (connecting c)"
    by (rule tuned_connecting)
  note pull = client_pull [OF this, of snk]
  have inlet: "client_inlet snk = pipeline_inlet_create client_rounds
      (conn_inlet (\<lambda>_. client_source_logic) (pipeline_sink_logic client_rounds (logic_of snk)) client_depth)"
    by (simp add: client_inlet_def client_parent_def)
  show ?thesis
    using pull
    by (simp add: rxc_pipeline_start_def rxc_source_to_def pipeline_sink_def pipeline_sink_create_logic_def
        pipeline_sink_logic_def connect_stages_def sas_client_session_source_def rxc_connection_create_def
        connects connecting_def inlet RXC_EOK_def Let_def)
qed

lemma receive_chunk:
  assumes c: "established c" and h: "header_load buf = Ok h" "\<not> hd_seq h < c_ack c" "\<not> flag_isset (hd_flags h) FLAG_RST"
    and play: "play (received_chunk h buf c) c = Ok (True, d)"
  shows "\<exists>c' a b. sas_client_session_state_machine snk c buf = Ok (0, c', buf) \<and> established c' \<and>
    os_sent (c_os c') = os_sent (c_os c) @ [((), a), ((), b)] \<and>
    ack_of a (c_seq c) (hd_seq h + seq_step (hd_length h)) CLIENT_WINDOW_SIZE \<and>
    ack_of b (c_seq c + 1) (hd_seq h + seq_step (hd_length h)) 0 \<and> c_seq c' = c_seq c + 2 \<and>
    c_ack c' = hd_seq h + seq_step (hd_length h) \<and> device c' = device d \<and> c_chunk c' = received_chunk h buf c"
proof -
  let ?c1 = "(client_accept h c)\<lparr>c_chunk := received_chunk h buf c\<rparr>"
  have one: "c_sink_logic ?c1" "listening ?c1" "device ?c1 = device c" "c_state (client_accept h c) = STATE_ESTABLSH"
    using c by (simp_all add: established_def client_accept_def listening_def device_def)
  obtain e where e: "play (c_chunk ?c1) ?c1 = Ok (True, e)" "device e = device d"
    using play_device [OF play one(3)] by auto
  note s = session_partD [OF play_session [OF e(1)]]
  have le: "listening e"
    by (rule play_listening [OF e(1) one(2)])
  let ?c2 = "(client_pulled e)\<lparr>c_receive_window := 0\<rparr>"
  let ?a = "client_packet (e\<lparr>c_receive_window := CLIENT_WINDOW_SIZE\<rparr>) FLAG_ACK []"
  let ?b = "client_packet ?c2 FLAG_ACK []"
  let ?c' = "client_sent FLAG_ACK [] ?c2"
  have err: "os_send_error (c_os e) = (\<lambda>_. None)"
    using le by (simp add: listening_def)
  have push: "client_push snk ?c1 = Ok (client_pulled e)"
    using push_plays [OF one(1) _ e(1)] one(2) by (simp add: listening_tuned)
  have ack: "sas_client_session_ack ?c2 = Ok (0, ?c')"
    using err by (intro client_ack) simp
  have run: "sas_client_session_state_machine snk c buf = Ok (0, ?c', buf)"
    using h one(4) push ack
    by (simp add: sas_client_session_state_machine_def client_chunk_def received_chunk_def client_accept_def Let_def)
  have "established ?c'"
    using le s one(1,4) by (auto simp: established_def listening_def)
  moreover have "os_sent (c_os ?c') = os_sent (c_os c) @ [((), ?a), ((), ?b)]"
    using err s(10) by (simp add: client_sent_sent client_pulled_sent client_accept_def)
  moreover have "device ?c' = device d"
    using e(2) by (simp add: device_def)
  ultimately show ?thesis
    using run s
    by (intro exI [of _ ?c'] exI [of _ ?a] exI [of _ ?b])
      (simp add: client_accept_def ack_of_packet seq_step_def)
qed

lemma receive_config:
  assumes c: "c_state c = STATE_SYN_SENT" "os_send_error (c_os c) = (\<lambda>_. None)"
    and h: "header_load buf = Ok h" "\<not> hd_seq h < c_ack c" "\<not> flag_isset (hd_flags h) FLAG_RST"
    and cfg: "cfg_ack_load (drop sizeof_header buf) = Ok w"
    and play: "play (config_chunk h (cfg_ack_decode w) buf) (create_logic snk c) = Ok (True, d)"
  shows "\<exists>c' a1 a2 a3. sas_client_session_state_machine snk c buf =
      Ok (0, c', store_bytes buf sizeof_header (cfg_ack_image [] (cfg_ack_decode w))) \<and> established c' \<and>
    os_sent (c_os c') = os_sent (c_os c) @ [((), a1), ((), a2), ((), a3)] \<and>
    ack_of a1 (c_seq c) (hd_seq h + seq_step (hd_length h)) CLIENT_WINDOW_SIZE \<and>
    ack_of a2 (c_seq c + 1) (hd_seq h + seq_step (hd_length h)) CLIENT_WINDOW_SIZE \<and>
    ack_of a3 (c_seq c + 2) (hd_seq h + seq_step (hd_length h)) CLIENT_WINDOW_SIZE \<and>
    c_seq c' = c_seq c + 3 \<and> c_ack c' = hd_seq h + seq_step (hd_length h) \<and> device c' = device d \<and>
    c_chunk c' = config_chunk h (cfg_ack_decode w) buf"
proof -
  let ?n = "hd_seq h + seq_step (hd_length h)"
  let ?e = "config_chunk h (cfg_ack_decode w) buf"
  let ?buf = "store_bytes buf sizeof_header (cfg_ack_image [] (cfg_ack_decode w))"
  define c1 where "c1 = (client_accept h c)\<lparr>c_chunk := ?e, c_pipeline := True\<rparr>"
  define k where "k = connecting c1"
  have one: "os_send_error (c_os c1) = (\<lambda>_. None)" "device c1 = device c" "c_state (client_accept h c) = STATE_SYN_SENT"
    using c by (simp_all add: c1_def client_accept_def device_def)
  note cs = session_partD [OF create_session [of c1]]
  have k: "listening k" "c_seq k = c_seq c" "c_ack k = ?n" "c_chunk k = ?e" "os_sent (c_os k) = os_sent (c_os c)"
    "os_send_error (c_os k) = (\<lambda>_. None)"
    using one cs
    by (auto simp: k_def connecting_def listening_def set_worker_def create_is_idle LONG_MIN_iff c1_def client_accept_def)
  have dev: "device k = device (create_logic snk c)"
    using create_device [OF one(2)] by (simp add: k_def connecting_def set_worker_def device_def)
  let ?c2 = "(client_pulled k)\<lparr>c_sink_logic := True\<rparr>"
  let ?c3 = "client_sent FLAG_ACK [] ?c2"
  let ?s = "?c3\<lparr>c_state := STATE_ESTABLSH\<rparr>"
  have start: "rxc_pipeline_start client_rounds (rxc_source_to (sas_client_session_source client_depth) snk) c1 =
      Ok (0, ?c2)"
    unfolding k_def by (rule start_connects)
  have ack: "sas_client_session_ack ?c2 = Ok (0, ?c3)"
    using k(6) by (intro client_ack) simp
  have s: "c_sink_logic ?s" "listening ?s" "c_chunk ?s = ?e"
    using k(1,4) by (auto simp: listening_def)
  have "device ?s = device (create_logic snk c)"
    using dev by (simp add: device_def)
  then obtain e where e: "play (c_chunk ?s) ?s = Ok (True, e)" "device e = device d"
    using play_device [OF play] s(3) by auto
  note es = session_partD [OF play_session [OF e(1)]]
  have le: "listening e"
    by (rule play_listening [OF e(1) s(2)])
  have run: "sas_client_session_state_machine snk c buf = Ok (0, client_pulled e, ?buf)"
    using h one(3) cfg start ack push_plays [OF s(1) _ e(1)] s(2) [unfolded listening_tuned]
    by (simp add: sas_client_session_state_machine_def client_configure_def config_chunk_def client_accept_def
        c1_def Let_def)
  let ?a1 = "client_packet (k\<lparr>c_receive_window := CLIENT_WINDOW_SIZE\<rparr>) FLAG_ACK []"
  let ?a2 = "client_packet ?c2 FLAG_ACK []"
  let ?a3 = "client_packet (e\<lparr>c_receive_window := CLIENT_WINDOW_SIZE\<rparr>) FLAG_ACK []"
  have "established (client_pulled e)"
    using le es(4,8) by (simp add: established_def)
  moreover have "os_sent (c_os (client_pulled e)) = os_sent (c_os c) @ [((), ?a1), ((), ?a2), ((), ?a3)]"
    using le k(5,6) es(10) by (simp add: listening_def client_pulled_sent client_sent_sent)
  moreover have "device (client_pulled e) = device d"
    using e(2) by (simp add: device_def)
  ultimately show ?thesis
    using run k es s(3)
    by (intro exI [of _ "client_pulled e"] exI [of _ ?a1] exI [of _ ?a2] exI [of _ ?a3])
      (simp add: ack_of_packet seq_step_def)
qed

lemma play_trimmed:
  assumes "ck_size e = length payload - sizeof_cfg_ack" "ck_buffer e = payload @ rest"
  shows "play e c = play (chunk_with e (trim payload)) c"
proof -
  have "e\<lparr>ck_buffer := take (ck_size e) (ck_buffer e)\<rparr> = chunk_with e (trim payload)"
    using assms by (simp add: chunk_with_def trim_def)
  then show ?thesis
    using play_audio [of e c] assms by simp
qed

text \<open>A packet with a chunk, and one with the configuration.\<close>

lemma receive_raw_packet:
  assumes c: "established c" and p: "packet_ok p" "\<not> sent_seq p < c_ack c" "\<not> flag_isset (sent_flags p) FLAG_RST"
    and len: "16 + length (pk_payload p) \<le> length buf" "length pad = 2"
    and play: "play (raw_chunk (c_chunk c) (pk_payload p) (drop (16 + length (pk_payload p)) buf)) c = Ok (True, d)"
  shows "\<exists>c' buf' a b. client_received snk (packet_bytes pad p) (c, buf) = Ok (0, c', buf') \<and>
    length buf' = length buf \<and> established c' \<and> os_sent (c_os c') = os_sent (c_os c) @ [((), a), ((), b)] \<and>
    ack_of a (c_seq c) (c_ack c') CLIENT_WINDOW_SIZE \<and> ack_of b (c_seq c + 1) (c_ack c') 0 \<and>
    c_seq c' = c_seq c + 2 \<and> c_ack c' = sent_seq p + seq_step (of_nat (length (pk_payload p))) \<and>
    device c' = device d \<and> (\<forall>x. chunk_with (c_chunk c') x = chunk_with (c_chunk c) x)"
proof -
  let ?h = "header_decode (pk_header p)"
  let ?rest = "drop (16 + length (pk_payload p)) buf"
  let ?buf = "header_image pad ?h @ pk_payload p @ ?rest"
  have dec: "header_decode_in_place (recv_into buf (packet_bytes pad p)) = Ok ?buf"
    by (rule packet_received [OF len(2,1)])
  have h: "header_load ?buf = Ok ?h" "\<not> hd_seq ?h < c_ack c" "\<not> flag_isset (hd_flags ?h) FLAG_RST"
    "hd_length ?h = of_nat (length (pk_payload p))" "length (pk_payload p) < 2 ^ 16"
    using p hdr.load_image [OF len(2)] by (auto simp: sent_seq_def sent_flags_def packet_ok_def)
  have e: "received_chunk ?h ?buf c = raw_chunk (c_chunk c) (pk_payload p) ?rest"
    unfolding received_chunk_def hdr.payload_follows [OF len(2)] raw_chunk_def chunk_size_raw [OF h(4,5)] ..
  have w: "chunk_with (received_chunk ?h ?buf c) x = chunk_with (c_chunk c) x" for x
    by (simp add: received_chunk_def chunk_with_def)
  have "play (received_chunk ?h ?buf c) c = Ok (True, d)"
    using play by (simp only: e)
  from receive_chunk [OF c h(1-3) this]
  obtain c' a b where r: "sas_client_session_state_machine snk c ?buf = Ok (0, c', ?buf)" "established c'"
    "os_sent (c_os c') = os_sent (c_os c) @ [((), a), ((), b)]"
    "ack_of a (c_seq c) (hd_seq ?h + seq_step (hd_length ?h)) CLIENT_WINDOW_SIZE"
    "ack_of b (c_seq c + 1) (hd_seq ?h + seq_step (hd_length ?h)) 0" "c_seq c' = c_seq c + 2"
    "c_ack c' = hd_seq ?h + seq_step (hd_length ?h)" "device c' = device d" "c_chunk c' = received_chunk ?h ?buf c"
    by blast
  moreover have "length ?buf = length buf"
    using len by (simp add: image_simps)
  ultimately show ?thesis
    using dec w h(4)
    by (intro exI [of _ c'] exI [of _ ?buf] exI [of _ a] exI [of _ b]) (simp add: client_received_def sent_seq_def)
qed

lemma raw_trimmed:
  assumes "sizeof_cfg_ack \<le> length b" "length b \<le> 1024"
  shows "play (raw_chunk f b rest) c = play (chunk_with f (trim b)) c"
proof -
  have "ck_size (raw_chunk f b rest) = length b - sizeof_cfg_ack"
    using raw_size [of "length b"] assms by (simp add: raw_chunk_def)
  moreover have "chunk_with (raw_chunk f b rest) x = chunk_with f x" for x
    by (simp add: raw_chunk_def chunk_with_def)
  ultimately show ?thesis
    using play_trimmed [of "raw_chunk f b rest" b rest c] by (simp add: raw_chunk_def)
qed

lemma receive_chunk_packet:
  assumes c: "established c" and p: "packet_ok p" "\<not> sent_seq p < c_ack c" "\<not> flag_isset (sent_flags p) FLAG_RST"
    and len: "sizeof_cfg_ack \<le> length (pk_payload p)" "16 + length (pk_payload p) \<le> length buf" "length pad = 2"
    and play: "play (chunk_with (c_chunk c) (trim (pk_payload p))) c = Ok (True, d)"
  shows "\<exists>c' buf' a b. client_received snk (packet_bytes pad p) (c, buf) = Ok (0, c', buf') \<and>
    length buf' = length buf \<and> established c' \<and> os_sent (c_os c') = os_sent (c_os c) @ [((), a), ((), b)] \<and>
    ack_of a (c_seq c) (c_ack c') CLIENT_WINDOW_SIZE \<and> ack_of b (c_seq c + 1) (c_ack c') 0 \<and>
    c_seq c' = c_seq c + 2 \<and> c_ack c' = sent_seq p + seq_step (of_nat (length (pk_payload p))) \<and>
    device c' = device d \<and> (\<forall>x. chunk_with (c_chunk c') x = chunk_with (c_chunk c) x)"
proof -
  have "length (pk_payload p) \<le> 1024"
    using p(1) by (simp add: packet_ok_def)
  then show ?thesis
    using play by (intro receive_raw_packet [OF c p len(2,3)]) (simp only: raw_trimmed [OF len(1)])
qed

lemma receive_config_packet:
  assumes c: "c_state c = STATE_SYN_SENT" "os_send_error (c_os c) = (\<lambda>_. None)"
    and p: "packet_ok p" "sent_seq p = c_ack c" "\<not> flag_isset (sent_flags p) FLAG_RST"
    and cfg: "pk_payload p = cfg_ack_image [x] (cfg_ack_encode cfg)"
    and len: "24 \<le> length buf" "length pad = 2"
    and play: "play (format_chunk cfg) (create_logic snk c) = Ok (True, d)"
  shows "\<exists>c' buf' a1 a2 a3. client_received snk (packet_bytes pad p) (c, buf) = Ok (0, c', buf') \<and>
    length buf' = length buf \<and> established c' \<and>
    os_sent (c_os c') = os_sent (c_os c) @ [((), a1), ((), a2), ((), a3)] \<and>
    ack_of a1 (c_seq c) (c_ack c') CLIENT_WINDOW_SIZE \<and> ack_of a2 (c_seq c + 1) (c_ack c') CLIENT_WINDOW_SIZE \<and>
    ack_of a3 (c_seq c + 2) (c_ack c') CLIENT_WINDOW_SIZE \<and> c_seq c' = c_seq c + 3 \<and>
    c_ack c' = sent_seq p + 8 \<and> device c' = device d \<and>
    (\<forall>x. chunk_with (c_chunk c') x = chunk_with (format_chunk cfg) x)"
proof -
  let ?h = "header_decode (pk_header p)"
  have n: "length (pk_payload p) = sizeof_cfg_ack"
    using cack.length_image [of "[x]"] by (simp add: cfg)
  then have n8: "length (pk_payload p) = 8"
    by (simp add: sizeof_cfg_ack_def)
  let ?rest = "drop (16 + length (pk_payload p)) buf"
  let ?buf = "header_image pad ?h @ pk_payload p @ ?rest"
  have fits: "16 + length (pk_payload p) \<le> length buf"
    using len(1) n8 by simp
  have dec: "header_decode_in_place (recv_into buf (packet_bytes pad p)) = Ok ?buf"
    by (rule packet_received [OF len(2) fits])
  have h: "header_load ?buf = Ok ?h" "\<not> hd_seq ?h < c_ack c" "\<not> flag_isset (hd_flags ?h) FLAG_RST"
    "hd_length ?h = of_nat (length (pk_payload p))"
    using p hdr.load_image [OF len(2)] by (auto simp: sent_seq_def sent_flags_def packet_ok_def)
  have drop16: "drop sizeof_header ?buf = cfg_ack_image [x] (cfg_ack_encode cfg) @ ?rest"
    unfolding hdr.payload_follows [OF len(2)] by (simp only: cfg)
  have load: "cfg_ack_load (drop sizeof_header ?buf) = Ok (cfg_ack_encode cfg)"
    unfolding drop16 by (rule cack.load_image) simp
  let ?e = "config_chunk ?h (cfg_ack_decode (cfg_ack_encode cfg)) ?buf"
  have e: "ck_size ?e = 0" "chunk_with ?e x = chunk_with (format_chunk cfg) x" for x
    using chunk_size_length [OF h(4)] n8
    by (simp_all add: config_chunk_def sizeof_cfg_ack_def chunk_with_def format_chunk_def cack.dec_enc)
  have "?e\<lparr>ck_buffer := take (ck_size ?e) (ck_buffer ?e)\<rparr> = format_chunk cfg"
    using e(1) by (simp add: config_chunk_def format_chunk_def cack.dec_enc)
  then have "play ?e (create_logic snk c) = Ok (True, d)"
    using play_audio [of ?e "create_logic snk c"] e(1) play by simp
  from receive_config [OF c h(1-3) load this]
  obtain c' a1 a2 a3 where r: "sas_client_session_state_machine snk c ?buf =
      Ok (0, c', store_bytes ?buf sizeof_header (cfg_ack_image [] (cfg_ack_decode (cfg_ack_encode cfg))))" "established c'"
    "os_sent (c_os c') = os_sent (c_os c) @ [((), a1), ((), a2), ((), a3)]"
    "ack_of a1 (c_seq c) (hd_seq ?h + seq_step (hd_length ?h)) CLIENT_WINDOW_SIZE"
    "ack_of a2 (c_seq c + 1) (hd_seq ?h + seq_step (hd_length ?h)) CLIENT_WINDOW_SIZE"
    "ack_of a3 (c_seq c + 2) (hd_seq ?h + seq_step (hd_length ?h)) CLIENT_WINDOW_SIZE"
    "c_seq c' = c_seq c + 3" "c_ack c' = hd_seq ?h + seq_step (hd_length ?h)" "device c' = device d" "c_chunk c' = ?e"
    by blast
  have "seq_step (hd_length ?h) = 8"
    using h(4) n8 by (simp add: seq_step_def)
  moreover have "length (store_bytes ?buf sizeof_header (cfg_ack_image [] y)) = length buf" for y
    using fits len n8 by (simp add: store_bytes_def image_simps sizeof_header_def)
  ultimately show ?thesis
    using dec r e(2)
    by (intro exI [of _ c'] exI [of _ "store_bytes ?buf sizeof_header (cfg_ack_image [] (cfg_ack_decode (cfg_ack_encode cfg)))"]
        exI [of _ a1] exI [of _ a2] exI [of _ a3]) (simp add: client_received_def sent_seq_def)
qed

text \<open>A sequence of chunks that the sink plays without stopping, from one state of its device to another.\<close>

primrec plays :: "sas_chunk \<Rightarrow> bytes list \<Rightarrow> 'a client_scheme \<Rightarrow> 'a client_scheme \<Rightarrow> bool" where
  "plays f [] c d \<longleftrightarrow> device d = device c"
| "plays f (b # bs) c d \<longleftrightarrow> (\<exists>c'. play (chunk_with f b) c = Ok (True, c') \<and> plays f bs c' d)"

text \<open>
  Chunks that the sink takes, whatever follows them in the receive buffer,
  from one state of its device to another.
\<close>

primrec takes :: "sas_chunk \<Rightarrow> bytes list \<Rightarrow> 'a client_scheme \<Rightarrow> 'a client_scheme \<Rightarrow> bool" where
  "takes f [] c d \<longleftrightarrow> device d = device c"
| "takes f (b # bs) c d \<longleftrightarrow>
     (\<exists>e. (\<forall>rest. \<exists>c'. play (raw_chunk f b rest) c = Ok (True, c') \<and> device c' = device e) \<and> takes f bs e d)"

lemma takes_device: "takes f bs c d \<Longrightarrow> device c' = device c \<Longrightarrow> takes f bs c' d"
proof (cases bs)
  case (Cons b bs')
  assume "takes f bs c d" and dev: "device c' = device c"
  then obtain e where e: "\<forall>rest. \<exists>x. play (raw_chunk f b rest) c = Ok (True, x) \<and> device x = device e" "takes f bs' e d"
    by (auto simp: Cons)
  have "\<exists>x. play (raw_chunk f b rest) c' = Ok (True, x) \<and> device x = device e" for rest
    using e(1) play_device [OF _ dev] by metis
  then show ?thesis
    using e(2) by (auto simp: Cons)
qed simp

lemma raw_chunk_format: "chunk_with g [] = chunk_with f [] \<Longrightarrow> raw_chunk g b rest = raw_chunk f b rest"
proof -
  have "raw_chunk h b rest = (chunk_with h [])\<lparr>ck_size := raw_size (length b), ck_buffer := b @ rest\<rparr>" for h
    by (simp add: raw_chunk_def chunk_with_def)
  then show "chunk_with g [] = chunk_with f [] \<Longrightarrow> raw_chunk g b rest = raw_chunk f b rest"
    by simp
qed

lemma takes_format:
  assumes "chunk_with g [] = chunk_with f []"
  shows "takes g bs c d = takes f bs c d"
  by (induction bs arbitrary: c) (simp_all only: takes.simps raw_chunk_format [OF assms])

text \<open>Where every chunk has the eight bytes that are taken off it, the sink takes the chunks as it plays the rest of them.\<close>

lemma plays_takes:
  "list_all (\<lambda>b. sizeof_cfg_ack \<le> length b \<and> length b \<le> 1024) bs \<Longrightarrow> plays f (map trim bs) c d \<Longrightarrow> takes f bs c d"
proof (induction bs arbitrary: c)
  case (Cons b bs)
  then obtain e where e: "play (chunk_with f (trim b)) c = Ok (True, e)" "plays f (map trim bs) e d"
    by auto
  have b: "sizeof_cfg_ack \<le> length b" "length b \<le> 1024"
    and bs: "list_all (\<lambda>b. sizeof_cfg_ack \<le> length b \<and> length b \<le> 1024) bs"
    using Cons.prems(1) by simp_all
  have "play (raw_chunk f b rest) c = Ok (True, e)" for rest
    unfolding raw_trimmed [OF b] by (rule e(1))
  with Cons.IH [OF bs e(2)] show ?case
    by (intro takes.simps(2) [THEN iffD2] exI [of _ e]) simp
qed simp

lemma loop_chunks:
  assumes "established c" "length pad = 2" "list_all (audio_packet (length buf)) ps" "numbered (c_ack c) ps"
    and "takes (c_chunk c) (map pk_payload ps) c d"
  shows "\<exists>c' buf' acks. (\<forall>es. client_loop snk (map (\<lambda>p. Received (packet_bytes pad p)) ps @ es) (c, buf) =
      client_loop snk es (c', buf')) \<and>
    established c' \<and> length buf' = length buf \<and> os_sent (c_os c') = os_sent (c_os c) @ map (Pair ()) acks \<and>
    length acks = 2 * length ps \<and> numbered (c_seq c) acks \<and> c_ack c' = seq_after (c_ack c) ps \<and>
    list_all (\<lambda>a. sent_flags a = FLAG_ACK) acks \<and> device c' = device d"
  using assms
proof (induction ps arbitrary: c buf)
  case Nil
  then show ?case by (intro exI [of _ c] exI [of _ buf] exI [of _ "[]"]) simp
next
  case (Cons p ps)
  obtain e where e: "\<forall>rest. \<exists>x. play (raw_chunk (c_chunk c) (pk_payload p) rest) c = Ok (True, x) \<and> device x = device e"
    "takes (c_chunk c) (map pk_payload ps) e d"
    using Cons.prems(5) by auto
  obtain x where x: "play (raw_chunk (c_chunk c) (pk_payload p) (drop (16 + length (pk_payload p)) buf)) c = Ok (True, x)"
    "device x = device e"
    using e(1) by blast
  have p: "packet_ok p" "sent_seq p = c_ack c" "\<not> flag_isset (sent_flags p) FLAG_RST"
    "16 + length (pk_payload p) \<le> length buf"
    using Cons.prems(3,4) by (simp_all add: audio_packet_def)
  have new: "\<not> sent_seq p < c_ack c"
    by (simp add: p(2))
  obtain c1 buf1 a b where one: "client_received snk (packet_bytes pad p) (c, buf) = Ok (0, c1, buf1)"
    "length buf1 = length buf" "established c1" "os_sent (c_os c1) = os_sent (c_os c) @ [((), a), ((), b)]"
    "ack_of a (c_seq c) (c_ack c1) CLIENT_WINDOW_SIZE" "ack_of b (c_seq c + 1) (c_ack c1) 0" "c_seq c1 = c_seq c + 2"
    "c_ack c1 = sent_seq p + seq_step (of_nat (length (pk_payload p)))" "device c1 = device x"
    "\<forall>x. chunk_with (c_chunk c1) x = chunk_with (c_chunk c) x"
    using receive_raw_packet [OF Cons.prems(1) p(1) new p(3,4) Cons.prems(2) x(1)] by blast
  have dev: "device c1 = device e"
    using one(9) x(2) by simp
  have "takes (c_chunk c1) (map pk_payload ps) c1 d"
    using takes_device [OF e(2) dev] takes_format [of "c_chunk c1" "c_chunk c"] one(10) by simp
  moreover have "numbered (c_ack c1) ps" "list_all (audio_packet (length buf1)) ps"
    using Cons.prems(3,4) one(2,8) p(2) by simp_all
  ultimately obtain c' buf' acks where ih: "\<forall>es. client_loop snk (map (\<lambda>p. Received (packet_bytes pad p)) ps @ es) (c1, buf1) =
      client_loop snk es (c', buf')"
    "established c'" "length buf' = length buf1" "os_sent (c_os c') = os_sent (c_os c1) @ map (Pair ()) acks"
    "length acks = 2 * length ps" "numbered (c_seq c1) acks" "c_ack c' = seq_after (c_ack c1) ps"
    "list_all (\<lambda>a. sent_flags a = FLAG_ACK) acks" "device c' = device d"
    using Cons.IH [OF one(3) Cons.prems(2)] by blast
  have "c_state c \<noteq> STATE_FINISHED"
    using Cons.prems(1) by (simp add: established_def)
  then show ?case
    using one ih p(2) Cons.prems(4)
    by (intro exI [of _ c'] exI [of _ buf'] exI [of _ "a # b # acks"])
      (simp add: ack_of_def seq_step_def add.assoc)
qed

end

section \<open>The drivers keep the contract\<close>

lemma os_close_session [simp]:
  "os_sent (os_close fd o') = os_sent o'" "os_send_error (os_close fd o') = os_send_error o'"
  "os_files (os_close fd o') = os_files o'"
  by (simp_all add: os_close_def split: option.split)

lemma os_open_session [simp]:
  "os_sent (snd (os_open path o')) = os_sent o'" "os_send_error (snd (os_open path o')) = os_send_error o'"
  "os_files (snd (os_open path o')) = os_files o'"
  by (simp_all add: os_open_def Let_def split: sum.split)

lemma os_close_fds: "os_fds a = os_fds b \<Longrightarrow> os_fds (os_close fd a) = os_fds (os_close fd b)"
  by (simp add: os_close_def fd_open_def split: option.split)

lemma os_open_fds:
  "os_fds a = os_fds b \<Longrightarrow> os_files a = os_files b \<Longrightarrow>
    fst (os_open path a) = fst (os_open path b) \<and> os_fds (snd (os_open path a)) = os_fds (snd (os_open path b))"
  by (simp add: os_open_def Let_def split: sum.split)

interpretation ignoring: audio_sink sas_drivers_ignore "\<lambda>e c. Ok (True, c)"
  by unfold_locales (simp_all add: sas_drivers_ignore_def driver_ignore_logic_def chunk_dealloc_def)

lemma ignoring_takes: "ignoring.takes f bs c c"
  by (induction bs) auto

text \<open>Playing a chunk on the sound device: the first one only opens it.\<close>

definition oss_play :: "sas_chunk \<Rightarrow> 'a oss_client_scheme \<Rightarrow> (bool \<times> 'a oss_client_scheme) res" where
  "oss_play e c =
     (if oss_fd c \<le> 0 \<and> \<not> oss_finished c then
        let (fd, c1) = open_audio_fd (ck_sample_rate e) (scast (ck_sample_size e)) (scast (ck_channels e)) c
        in Ok (True, c1\<lparr>oss_fd := fd\<rparr>)
      else
        and_then (oss_write (ck_buffer e) (ck_size e) c) (\<lambda>(n, c1).
        Ok (if n \<le> 0 then (False, on_os (os_close (oss_fd c1)) (c1\<lparr>oss_finished := True\<rparr>)) else (True, c1))))"

lemma oss_more:
  "client.more c = client.more d \<longleftrightarrow> oss_env c = oss_env d \<and> oss_accepts c = oss_accepts d \<and>
    oss_write_gives c = oss_write_gives d \<and> oss_fd c = oss_fd d \<and> oss_finished c = oss_finished d \<and>
    oss_requests c = oss_requests d \<and> oss_writes c = oss_writes d \<and> oss_client.more c = oss_client.more d"
  by (cases c rule: oss_client.cases_scheme, cases d rule: oss_client.cases_scheme) simp

lemmas device_oss = device_def oss_more

lemma setup_device_session: "session_part (snd (setup_device fd rs c)) = session_part c"
  by (induction fd rs c rule: setup_device.induct) (auto simp: session_part_def on_os_def Let_def)

lemma setup_device_device:
  "device d = device c \<Longrightarrow> fst (setup_device fd rs d) = fst (setup_device fd rs c) \<and>
    device (snd (setup_device fd rs d)) = device (snd (setup_device fd rs c))"
proof (induction rs arbitrary: c d)
  case (Cons r rs)
  show ?case
  proof (cases "oss_accepts c r")
    case True
    have dev: "device (d\<lparr>oss_requests := oss_requests d @ [r]\<rparr>) = device (c\<lparr>oss_requests := oss_requests c @ [r]\<rparr>)"
      and acc: "oss_accepts d r"
      using Cons.prems True by (simp_all add: device_oss)
    show ?thesis
      using Cons.IH [OF dev] True acc by (simp add: Let_def)
  next
    case False
    then show ?thesis
      using Cons.prems os_close_fds [of "c_os d" "c_os c" fd] by (simp add: device_oss on_os_def Let_def)
  qed
qed simp

lemma open_audio_session: "session_part (snd (open_audio_fd r s n c)) = session_part c"
proof -
  have "session_part (c\<lparr>c_os := snd (os_open path (c_os c))\<rparr>) = session_part c" for path
    by (simp add: session_part_def)
  then show ?thesis
    by (simp add: open_audio_fd_def case_prod_unfold Let_def setup_device_session del: setup_device.simps)
qed

lemma open_audio_device:
  assumes "device d = device c"
  shows "fst (open_audio_fd r s n d) = fst (open_audio_fd r s n c) \<and>
    device (snd (open_audio_fd r s n d)) = device (snd (open_audio_fd r s n c))"
proof -
  let ?o = "\<lambda>x path. os_open path (c_os x)"
  have "fst (?o d path) = fst (?o c path)" "os_fds (snd (?o d path)) = os_fds (snd (?o c path))" for path
    using os_open_fds [of "c_os d" "c_os c"] assms by (simp_all add: device_def)
  moreover from this have "device (d\<lparr>c_os := snd (?o d path)\<rparr>) = device (c\<lparr>c_os := snd (?o c path)\<rparr>)" for path
    using assms by (simp add: device_def)
  moreover have "oss_env d = oss_env c"
    using assms by (simp add: device_oss)
  ultimately show ?thesis
    unfolding open_audio_fd_def case_prod_unfold Let_def
    by (simp add: setup_device_device [of "d\<lparr>c_os := snd (?o d path)\<rparr>" "c\<lparr>c_os := snd (?o c path)\<rparr>" for path]
        del: setup_device.simps)
qed

lemma oss_write_device:
  assumes "oss_write bs n c = Ok (k, c1)" "device d = device c"
  shows "\<exists>d1. oss_write bs n d = Ok (k, d1) \<and> device d1 = device c1 \<and> oss_fd d1 = oss_fd c1"
proof -
  have same: "oss_fd d = oss_fd c" "oss_writes d = oss_writes c" "oss_write_gives d = oss_write_gives c"
    "fd_open (oss_fd c) (c_os d) = fd_open (oss_fd c) (c_os c)"
    using assms(2) by (simp_all add: device_oss fd_open_def)
  show ?thesis
  proof (cases "fd_open (oss_fd c) (c_os c) = None")
    case True
    let ?w = "on_os (\<lambda>o'. o'\<lparr>os_errno := EBADF\<rparr>)"
    have "oss_write bs n c = Ok (- 1, ?w c)" "oss_write bs n d = Ok (- 1, ?w d)"
      using True same by (simp_all add: oss_write_def)
    moreover have "device (?w d) = device (?w c)" "oss_fd (?w d) = oss_fd (?w c)"
      using assms(2) same(1) by (simp_all add: device_def on_os_def)
    ultimately show ?thesis
      using assms(1) by simp
  next
    case False
    then have n: "\<not> length bs < n"
      using assms(1) by (auto simp: oss_write_def)
    let ?r = "min (oss_write_gives c (length (oss_writes c))) (int n)"
    let ?w = "\<lambda>x. x\<lparr>oss_writes := oss_writes c @ [take (nat ?r) bs]\<rparr>"
    have "oss_write bs n c = Ok (?r, ?w c)" "oss_write bs n d = Ok (?r, ?w d)"
      using False n same by (auto simp: oss_write_def Let_def)
    moreover have "device (?w d) = device (?w c)"
      using assms(2) by (simp add: device_oss)
    ultimately show ?thesis
      using assms(1) same(1) by simp
  qed
qed

lemma oss_write_front:
  assumes "n \<le> length bs"
  shows "oss_write (take n bs) n c = oss_write bs n c"
proof -
  let ?r = "min (oss_write_gives c (length (oss_writes c))) (int n)"
  have "min (nat ?r) n = nat ?r"
    by linarith
  then have "take (nat ?r) (take n bs) = take (nat ?r) bs"
    by (simp only: take_take)
  with assms show ?thesis
    by (simp add: oss_write_def Let_def)
qed

lemma oss_play_device:
  assumes "oss_play e c = Ok (go, c')" "device d = device c"
  shows "\<exists>d'. oss_play e d = Ok (go, d') \<and> device d' = device c'"
proof -
  have same: "oss_fd d = oss_fd c" "oss_finished d = oss_finished c" "oss_writes d = oss_writes c"
    "oss_write_gives d = oss_write_gives c" "fd_open fd (c_os d) = fd_open fd (c_os c)"
    "os_fds (c_os d) = os_fds (c_os c)" for fd
    using assms(2) by (simp_all add: device_oss fd_open_def)
  show ?thesis
  proof (cases "oss_fd c \<le> 0 \<and> \<not> oss_finished c")
    case True
    let ?open = "\<lambda>x. open_audio_fd (ck_sample_rate e) (scast (ck_sample_size e)) (scast (ck_channels e)) x"
    have "oss_play e x = Ok (True, (snd (?open x))\<lparr>oss_fd := fst (?open x)\<rparr>)" if "x = c \<or> x = d" for x
      using True that same(1,2) by (auto simp: oss_play_def case_prod_unfold Let_def)
    moreover have "device ((snd (?open d))\<lparr>oss_fd := fst (?open d)\<rparr>) = device ((snd (?open c))\<lparr>oss_fd := fst (?open c)\<rparr>)"
      using open_audio_device [OF assms(2), of "ck_sample_rate e" "scast (ck_sample_size e)" "scast (ck_channels e)"]
      by (simp add: device_oss)
    ultimately show ?thesis
      using assms(1) by simp
  next
    case False
    obtain n c1 where w: "oss_write (ck_buffer e) (ck_size e) c = Ok (n, c1)"
      "(go, c') = (if n \<le> 0 then (False, on_os (os_close (oss_fd c1)) (c1\<lparr>oss_finished := True\<rparr>)) else (True, c1))"
      using assms(1) False by (auto simp: oss_play_def and_then_eq_Ok)
    obtain d1 where d1: "oss_write (ck_buffer e) (ck_size e) d = Ok (n, d1)" "device d1 = device c1" "oss_fd d1 = oss_fd c1"
      using oss_write_device [OF w(1) assms(2)] by blast
    have "device (on_os (os_close fd) (x\<lparr>oss_finished := True\<rparr>)) = device (on_os (os_close fd) (y\<lparr>oss_finished := True\<rparr>))"
      if "device x = device y" for x y :: "'a oss_client_scheme" and fd
      using that os_close_fds [of "c_os x" "c_os y" fd] by (simp add: device_oss on_os_def)
    note closed = this [OF d1(2)]
    have "oss_play e d = Ok (if n \<le> 0 then (False, on_os (os_close (oss_fd d1)) (d1\<lparr>oss_finished := True\<rparr>)) else (True, d1))"
      using False same(1,2) d1(1) by (auto simp: oss_play_def)
    then show ?thesis
      using w(2) d1(2,3) closed by (cases "n \<le> 0") simp_all
  qed
qed

lemma session_part_simps [simp]:
  "session_part (on_os (os_close fd) c) = session_part c" "session_part (c\<lparr>oss_finished := b\<rparr>) = session_part c"
  "session_part (c\<lparr>oss_fd := fd\<rparr>) = session_part c"
  by (simp_all add: session_part_def on_os_def)

lemma oss_write_session: "oss_write bs n c = Ok (k, c1) \<Longrightarrow> session_part c1 = session_part c"
  by (auto simp: oss_write_def on_os_def session_part_def Let_def split: if_splits)

lemma oss_play_session:
  assumes "oss_play e c = Ok (go, c')"
  shows "session_part c' = session_part c"
proof (cases "oss_fd c \<le> 0 \<and> \<not> oss_finished c")
  case True
  then have "c' = (snd (open_audio_fd (ck_sample_rate e) (scast (ck_sample_size e)) (scast (ck_channels e)) c))
      \<lparr>oss_fd := fst (open_audio_fd (ck_sample_rate e) (scast (ck_sample_size e)) (scast (ck_channels e)) c)\<rparr>"
    using assms by (auto simp: oss_play_def case_prod_unfold Let_def)
  then show ?thesis
    by (simp add: open_audio_session)
next
  case False
  then obtain n c1 where "oss_write (ck_buffer e) (ck_size e) c = Ok (n, c1)"
    "c' = (if n \<le> 0 then on_os (os_close (oss_fd c1)) (c1\<lparr>oss_finished := True\<rparr>) else c1)"
    using assms by (auto simp: oss_play_def and_then_eq_Ok split: if_splits)
  then show ?thesis
    using oss_write_session by simp
qed

interpretation oss: audio_sink sas_drivers_oss oss_play
proof unfold_locales
  fix i :: "'a oss_client_scheme inlet" and e and c d c' :: "'a oss_client_scheme" and go
  show "on_connect (logic_of sas_drivers_oss i) = rxc_inlet_pull i 1"
    by (simp add: sas_drivers_oss_def oss_logic_def)
  show "on_push (logic_of sas_drivers_oss i) e c =
      and_then (oss_play e c) (\<lambda>(go, c'). if go then rxc_inlet_pull i 1 c' else rxc_inlet_cancel i c')"
    by (cases "oss_write (ck_buffer e) (ck_size e) c")
      (auto simp: sas_drivers_oss_def oss_logic_def oss_on_push_def oss_play_def chunk_dealloc_def case_prod_unfold Let_def)
  show "session_part c' = session_part c" if "oss_play e c = Ok (go, c')"
    by (rule oss_play_session [OF that])
  show "\<exists>d'. oss_play e d = Ok (go, d') \<and> device d' = device c'"
    if "oss_play e c = Ok (go, c')" "device d = device c"
    using oss_play_device [OF that] .
next
  show "oss_play (e\<lparr>ck_buffer := take (ck_size e) (ck_buffer e)\<rparr>) c = oss_play e c"
    if "ck_size e \<le> length (ck_buffer e)" for e and c :: "'a oss_client_scheme"
    using oss_write_front [OF that, of c] by (simp add: oss_play_def)
qed (auto simp: sas_drivers_oss_def oss_create_logic_def session_part_def device_oss)

end
