(* ===== verification/Client_Run.thy ===== *)
theory Client_Run
  imports Client_Stream
begin

text \<open>
  What the client's program promises: a stream from its configuration to its
  end, the errors its loop ends with, what a sound device is given of the
  audio, and the inputs it does not survive.
\<close>

section \<open>The end of a stream\<close>

lemma client_loop_append:
  "client_loop snk (es @ fs) cb = and_then (client_loop snk es cb) (\<lambda>r.
     case r of Inl cb' \<Rightarrow> client_loop snk fs cb' | Inr x \<Rightarrow> Ok (Inr x))"
proof (induction es arbitrary: cb)
  case Nil
  obtain c buf where "cb = (c, buf)" by fastforce
  then show ?case by (cases fs) simp_all
next
  case (Cons e es)
  obtain c buf where cb: "cb = (c, buf)" by fastforce
  show ?case
  proof (cases e)
    case (Received d)
    then show ?thesis
      using Cons.IH by (cases "client_received snk d (c, buf)") (auto simp: cb split: prod.splits)
  qed (simp_all add: cb)
qed

lemma client_received_reset:
  assumes "packet_ok p" "\<not> sent_seq p < c_ack c" "flag_isset (sent_flags p) FLAG_RST"
    and "16 + length (pk_payload p) \<le> length buf" "length pad = 2"
  shows "client_received snk (packet_bytes pad p) (c, buf) =
    client_reset (header_decode (pk_header p)) (client_accept (header_decode (pk_header p)) c)
      (header_image pad (header_decode (pk_header p)) @ pk_payload p @ drop (16 + length (pk_payload p)) buf)"
proof -
  let ?h = "header_decode (pk_header p)"
  let ?buf = "header_image pad ?h @ pk_payload p @ drop (16 + length (pk_payload p)) buf"
  have "header_decode_in_place (recv_into buf (packet_bytes pad p)) = Ok ?buf"
    by (rule packet_received [OF assms(5,4)])
  moreover have "header_load ?buf = Ok ?h"
    by (rule hdr.load_image [OF assms(5)])
  ultimately show ?thesis
    using assms(2,3)
    by (simp add: client_received_def sas_client_session_state_machine_def sent_seq_def sent_flags_def)
qed

lemma client_accept_simps [simp]:
  "c_state (client_accept h c) = c_state c" "c_os (client_accept h c) = c_os c"
  "c_seq (client_accept h c) = c_seq c" "client.more (client_accept h c) = client.more c"
  "c_fd (client_accept h c) = c_fd c"
  by (simp_all add: client_accept_def)

text \<open>The packet that ends a stream.\<close>

definition fin_packet :: "packet \<Rightarrow> bool" where
  "fin_packet p \<longleftrightarrow> packet_ok p \<and> sent_flags p = FLAG_RST OR FLAG_FIN \<and> pk_payload p = []"

lemma receive_fin:
  assumes "fin_packet p" "\<not> sent_seq p < c_ack c" "16 \<le> length buf" "length pad = 2"
  shows "\<exists>c' buf'. client_received snk (packet_bytes pad p) (c, buf) = Ok (0, c', buf') \<and>
    c_state c' = STATE_FINISHED \<and> c_os c' = c_os c \<and> device c' = device c \<and> c_seq c' = c_seq c"
proof -
  have "client_received snk (packet_bytes pad p) (c, buf) = client_reset (header_decode (pk_header p))
      (client_accept (header_decode (pk_header p)) c)
      (header_image pad (header_decode (pk_header p)) @ pk_payload p @ drop (16 + length (pk_payload p)) buf)"
    using assms by (intro client_received_reset) (simp_all add: fin_packet_def)
  then show ?thesis
    using assms(1) by (auto simp: client_reset_def fin_packet_def sent_flags_def device_def)
qed

lemma client_loop_fin:
  assumes "fin_packet p" "\<not> sent_seq p < c_ack c" "16 \<le> length buf" "length pad = 2"
    and "c_state c \<noteq> STATE_FINISHED"
  shows "\<exists>c'. client_loop snk (Received (packet_bytes pad p) # es) (c, buf) = Ok (Inr (0, c')) \<and>
    c_state c' = STATE_FINISHED \<and> c_os c' = c_os c \<and> device c' = device c \<and> c_seq c' = c_seq c"
proof -
  obtain c' buf' where r: "client_received snk (packet_bytes pad p) (c, buf) = Ok (0, c', buf')"
    "c_state c' = STATE_FINISHED" "c_os c' = c_os c" "device c' = device c" "c_seq c' = c_seq c"
    using receive_fin [OF assms(1-4)] by blast
  moreover have "client_loop snk es (c', buf') = Ok (Inr (0, c'))"
    using r(2) by (cases es) simp_all
  ultimately show ?thesis
    using assms(5) by simp
qed

text \<open>An error packet, whose code is decoded in the receive buffer.\<close>

lemma client_reset_error:
  assumes "sent_flags p = FLAG_RST OR FLAG_ERR" "pk_payload p = err_image [] (err_encode \<lparr>err_code = code\<rparr>)"
    and "length pad = 2"
  shows "client_reset (header_decode (pk_header p)) c (header_image pad (header_decode (pk_header p)) @ pk_payload p @ rest) =
    Ok (code, c, store_bytes (header_image pad (header_decode (pk_header p)) @ pk_payload p @ rest) sizeof_header
      (err_image [] \<lparr>err_code = code\<rparr>))"
proof -
  have "err_load (drop sizeof_header (header_image pad h @ pk_payload p @ rest)) = Ok (err_encode \<lparr>err_code = code\<rparr>)" for h
    unfolding hdr.payload_follows [OF assms(3)] unfolding assms(2) by (rule perr.load_image) simp
  then show ?thesis
    using assms(1) by (simp add: client_reset_def sent_flags_def perr.dec_enc)
qed

section \<open>A whole stream\<close>

definition config_packet :: "packet_cfg_ack \<Rightarrow> packet \<Rightarrow> bool" where
  "config_packet cfg p \<longleftrightarrow> packet_ok p \<and> \<not> flag_isset (sent_flags p) FLAG_RST \<and>
     (\<exists>x. pk_payload p = cfg_ack_image [x] (cfg_ack_encode cfg))"

context audio_sink
begin

lemma loop_stream:
  assumes c: "c_state c = STATE_SYN_SENT" "os_send_error (c_os c) = (\<lambda>_. None)" "length pad = 2" "24 \<le> length buf"
    and p: "config_packet cfg p" "list_all (audio_packet (length buf)) ps" "fin_packet e"
      "numbered (c_ack c) (p # ps @ [e])"
    and play: "play (format_chunk cfg) (create_logic snk c) = Ok (True, d0)"
      "takes (format_chunk cfg) (map pk_payload ps) d0 d"
  shows "\<exists>c' acks. client_loop snk (map (\<lambda>p. Received (packet_bytes pad p)) (p # ps @ [e])) (c, buf) =
      Ok (Inr (0, c')) \<and>
    os_sent (c_os c') = os_sent (c_os c) @ map (Pair ()) acks \<and> length acks = 3 + 2 * length ps \<and>
    numbered (c_seq c) acks \<and> list_all (\<lambda>a. sent_flags a = FLAG_ACK) acks \<and> device c' = device d"
proof -
  obtain x where cfg: "pk_payload p = cfg_ack_image [x] (cfg_ack_encode cfg)" "packet_ok p"
    "\<not> flag_isset (sent_flags p) FLAG_RST"
    using p(1) by (auto simp: config_packet_def)
  have seq: "sent_seq p = c_ack c"
    using p(4) by simp
  have len: "length (pk_payload p) = 8"
    by (simp add: cfg(1) image_simps)
  obtain c1 buf1 a1 a2 a3 where one: "client_received snk (packet_bytes pad p) (c, buf) = Ok (0, c1, buf1)"
    "length buf1 = length buf" "established c1"
    "os_sent (c_os c1) = os_sent (c_os c) @ [((), a1), ((), a2), ((), a3)]"
    "ack_of a1 (c_seq c) (c_ack c1) CLIENT_WINDOW_SIZE" "ack_of a2 (c_seq c + 1) (c_ack c1) CLIENT_WINDOW_SIZE"
    "ack_of a3 (c_seq c + 2) (c_ack c1) CLIENT_WINDOW_SIZE" "c_seq c1 = c_seq c + 3" "c_ack c1 = sent_seq p + 8"
    "device c1 = device d0" "\<forall>x. chunk_with (c_chunk c1) x = chunk_with (format_chunk cfg) x"
    using receive_config_packet [OF c(1,2) cfg(2) seq cfg(3,1) c(4,3) play(1)] by blast
  have pl: "takes (c_chunk c1) (map pk_payload ps) c1 d"
    using takes_device [OF play(2) one(10)] takes_format [of "c_chunk c1" "format_chunk cfg"] one(11) by simp
  have n: "numbered (c_ack c1) ps" "sent_seq e = seq_after (c_ack c1) ps" "list_all (audio_packet (length buf1)) ps"
    using p(2,4) one(2,9) len by (simp_all add: seq_step_def)
  obtain c2 buf2 acks where two: "\<forall>es. client_loop snk (map (\<lambda>p. Received (packet_bytes pad p)) ps @ es) (c1, buf1) =
      client_loop snk es (c2, buf2)"
    "established c2" "length buf2 = length buf1" "os_sent (c_os c2) = os_sent (c_os c1) @ map (Pair ()) acks"
    "length acks = 2 * length ps" "numbered (c_seq c1) acks" "c_ack c2 = seq_after (c_ack c1) ps"
    "list_all (\<lambda>a. sent_flags a = FLAG_ACK) acks" "device c2 = device d"
    using loop_chunks [OF one(3) c(3) n(3,1) pl] by blast
  have fin: "\<not> sent_seq e < c_ack c2" "16 \<le> length buf2" "c_state c2 \<noteq> STATE_FINISHED"
    using n(2) two(2,3,7) one(2) c(4) by (simp_all add: established_def)
  obtain c' where last: "client_loop snk [Received (packet_bytes pad e)] (c2, buf2) = Ok (Inr (0, c'))"
    "c_os c' = c_os c2" "device c' = device c2"
    using client_loop_fin [OF p(3) fin(1,2) c(3) fin(3)] by blast
  have "client_loop snk (map (\<lambda>p. Received (packet_bytes pad p)) (p # ps @ [e])) (c, buf) =
      client_loop snk (map (\<lambda>p. Received (packet_bytes pad p)) ps @ [Received (packet_bytes pad e)]) (c1, buf1)"
    using c(1) one(1) by simp
  also have "\<dots> = Ok (Inr (0, c'))"
    using two(1) last(1) by simp
  finally show ?thesis
    using one(4-8) two(4-6,8,9) last(2,3)
    by (intro exI [of _ c'] exI [of _ "a1 # a2 # a3 # acks"])
      (simp add: ack_of_def seq_step_def add.assoc)
qed

text \<open>The chunk of a packet reaches the sink; a sink that has stopped cannot stop again.\<close>

lemma chunk_pushed:
  assumes "c_state c = STATE_ESTABLSH" "packet_ok p" "sent_seq p = c_ack c" "\<not> flag_isset (sent_flags p) FLAG_RST"
    and "16 + length (pk_payload p) \<le> length buf" "length pad = 2"
  shows "\<exists>c1 h. client_received snk (packet_bytes pad p) (c, buf) = and_then (client_push snk c1) (\<lambda>c2.
      and_then (sas_client_session_ack (c2\<lparr>c_receive_window := 0\<rparr>)) (\<lambda>(e, c3).
      Ok (0, c3, header_image pad h @ pk_payload p @ drop (16 + length (pk_payload p)) buf))) \<and>
    hd_length h = of_nat (length (pk_payload p)) \<and>
    c1 = (client_accept h c)\<lparr>c_chunk := (c_chunk c)\<lparr>ck_size := chunk_size h,
      ck_buffer := pk_payload p @ drop (16 + length (pk_payload p)) buf\<rparr>\<rparr> \<and>
    c_ack c1 = sent_seq p + seq_step (of_nat (length (pk_payload p)))"
proof -
  let ?h = "header_decode (pk_header p)"
  let ?rest = "pk_payload p @ drop (16 + length (pk_payload p)) buf"
  have dec: "header_decode_in_place (recv_into buf (packet_bytes pad p)) = Ok (header_image pad ?h @ ?rest)"
    by (rule packet_received [OF assms(6,5)])
  have load: "header_load (header_image pad ?h @ ?rest) = Ok ?h"
    by (rule hdr.load_image [OF assms(6)])
  have rest: "drop sizeof_header (header_image pad ?h @ ?rest) = ?rest"
    by (rule hdr.payload_follows [OF assms(6)])
  let ?c1 = "(client_accept ?h c)\<lparr>c_chunk := (c_chunk c)\<lparr>ck_size := chunk_size ?h, ck_buffer := ?rest\<rparr>\<rparr>"
  have h: "\<not> hd_seq ?h < c_ack c" "\<not> flag_isset (hd_flags ?h) FLAG_RST" "hd_length ?h = of_nat (length (pk_payload p))"
    using assms(2-4) by (simp_all add: sent_seq_def sent_flags_def packet_ok_def)
  have "sas_client_session_state_machine snk c (header_image pad ?h @ ?rest) =
      client_chunk snk ?h (client_accept ?h c) (header_image pad ?h @ ?rest)"
    unfolding sas_client_session_state_machine_def load using h(1,2) assms(1) by simp
  also have "\<dots> = and_then (client_push snk ?c1) (\<lambda>c2.
      and_then (sas_client_session_ack (c2\<lparr>c_receive_window := 0\<rparr>)) (\<lambda>(e, c3).
      Ok (0, c3, header_image pad ?h @ ?rest)))"
    unfolding client_chunk_def rest Let_def by (simp add: client_accept_def)
  finally show ?thesis
    using dec h(3) by (intro exI [of _ ?c1] exI [of _ ?h]) (simp add: client_received_def client_accept_def sent_seq_def)
qed

lemma push_stopped:
  assumes "c_sink_logic c" "\<not> in_parent c" "play (c_chunk c) c = Ok (False, c')"
  shows "client_push snk c = Fault Null_Deref"
  using assms session_partD(3) [OF play_session [OF assms(3)]]
  by (simp add: client_push_def client_sink_logic_def pipeline_sink_logic_def pushes Let_def
      rxc_inlet_cancel_def pipeline_inlet_create_def pipeline_inlet_cancel_def)

lemma push_fault: "c_sink_logic c \<Longrightarrow> play (c_chunk c) c = Fault e \<Longrightarrow> client_push snk c = Fault e"
  by (simp add: client_push_def client_sink_logic_def pipeline_sink_logic_def pushes Let_def)

lemma receive_stops:
  assumes c: "established c" and p: "packet_ok p" "sent_seq p = c_ack c" "\<not> flag_isset (sent_flags p) FLAG_RST"
    and len: "sizeof_cfg_ack \<le> length (pk_payload p)" "16 + length (pk_payload p) \<le> length buf" "length pad = 2"
    and play: "play (chunk_with (c_chunk c) (trim (pk_payload p))) c = Ok (False, d)"
  shows "\<exists>c' buf'. client_received snk (packet_bytes pad p) (c, buf) = Ok (0, c', buf') \<and> length buf' = length buf \<and>
    c_sink_logic c' \<and> \<not> in_parent c' \<and> c_state c' = STATE_ESTABLSH \<and> device c' = device d \<and>
    c_ack c' = sent_seq p + seq_step (of_nat (length (pk_payload p)))"
proof -
  have est: "c_state c = STATE_ESTABLSH" "c_sink_logic c" "listening c"
    using c by (simp_all add: established_def)
  let ?rest = "drop (16 + length (pk_payload p)) buf"
  obtain c1 h where r: "client_received snk (packet_bytes pad p) (c, buf) = and_then (client_push snk c1) (\<lambda>c2.
      and_then (sas_client_session_ack (c2\<lparr>c_receive_window := 0\<rparr>)) (\<lambda>(e, c3).
      Ok (0, c3, header_image pad h @ pk_payload p @ ?rest)))"
    "hd_length h = of_nat (length (pk_payload p))"
    "c1 = (client_accept h c)\<lparr>c_chunk := (c_chunk c)\<lparr>ck_size := chunk_size h, ck_buffer := pk_payload p @ ?rest\<rparr>\<rparr>"
    "c_ack c1 = sent_seq p + seq_step (of_nat (length (pk_payload p)))"
    using chunk_pushed [OF est(1) p len(2,3)] by blast
  have one: "c_sink_logic c1" "listening c1" "device c1 = device c" "c_state c1 = STATE_ESTABLSH"
    using est by (simp_all add: r(3) client_accept_def listening_def device_def)
  have "length (pk_payload p) < 2 ^ 16"
    using p(1) by (simp add: packet_ok_def)
  then have e: "ck_size (c_chunk c1) = length (pk_payload p) - sizeof_cfg_ack" "ck_buffer (c_chunk c1) = pk_payload p @ ?rest"
    using chunk_size_length [OF r(2) len(1)] by (simp_all add: r(3))
  have w: "chunk_with (c_chunk c1) x = chunk_with (c_chunk c) x" for x
    by (simp add: r(3) chunk_with_def)
  have "play (c_chunk c1) c = Ok (False, d)"
    using play_trimmed [OF e, of c] play unfolding w by simp
  then obtain f where f: "play (c_chunk c1) c1 = Ok (False, f)" "device f = device d"
    using play_device [of "c_chunk c1" c False d c1] one(3) by blast
  note s = session_partD [OF play_session [OF f(1)]]
  let ?c2 = "f\<lparr>in_parent := False, requested := LONG_MIN\<rparr>\<lparr>c_receive_window := 0\<rparr>"
  have "os_send_error (c_os f) = (\<lambda>_. None)"
    using s(11) one(2) by (simp add: listening_def)
  then have ack: "sas_client_session_ack ?c2 = Ok (0, client_sent FLAG_ACK [] ?c2)"
    by (intro client_ack) simp
  have "length (header_image pad h @ pk_payload p @ ?rest) = length buf"
    using len(2,3) by (simp add: image_simps)
  then show ?thesis
    using r(1,4) push_plays [OF one(1) _ f(1)] one(2) [unfolded listening_tuned] ack s(4,6,8) one(1,4) f(2)
    by (intro exI [of _ "client_sent FLAG_ACK [] ?c2"] exI [of _ "header_image pad h @ pk_payload p @ ?rest"])
      (simp add: device_def)
qed

lemma receive_stopped:
  assumes c: "c_state c = STATE_ESTABLSH" "c_sink_logic c" "\<not> in_parent c"
    and p: "packet_ok p" "sent_seq p = c_ack c" "\<not> flag_isset (sent_flags p) FLAG_RST"
    and len: "sizeof_cfg_ack \<le> length (pk_payload p)" "16 + length (pk_payload p) \<le> length buf" "length pad = 2"
    and play: "\<And>f. play (chunk_with f (trim (pk_payload p))) c = Ok (False, d)"
  shows "client_received snk (packet_bytes pad p) (c, buf) = Fault Null_Deref"
proof -
  let ?rest = "drop (16 + length (pk_payload p)) buf"
  obtain c1 h where r: "client_received snk (packet_bytes pad p) (c, buf) = and_then (client_push snk c1) (\<lambda>c2.
      and_then (sas_client_session_ack (c2\<lparr>c_receive_window := 0\<rparr>)) (\<lambda>(e, c3).
      Ok (0, c3, header_image pad h @ pk_payload p @ ?rest)))"
    "hd_length h = of_nat (length (pk_payload p))"
    "c1 = (client_accept h c)\<lparr>c_chunk := (c_chunk c)\<lparr>ck_size := chunk_size h, ck_buffer := pk_payload p @ ?rest\<rparr>\<rparr>"
    using chunk_pushed [OF c(1) p len(2,3)] by blast
  have one: "c_sink_logic c1" "\<not> in_parent c1" "device c1 = device c"
    using c by (simp_all add: r(3) client_accept_def device_def)
  have "length (pk_payload p) < 2 ^ 16"
    using p(1) by (simp add: packet_ok_def)
  then have e: "ck_size (c_chunk c1) = length (pk_payload p) - sizeof_cfg_ack" "ck_buffer (c_chunk c1) = pk_payload p @ ?rest"
    using chunk_size_length [OF r(2) len(1)] by (simp_all add: r(3))
  have "play (c_chunk c1) c = Ok (False, d)"
    using play_trimmed [OF e, of c] play by simp
  then obtain f where f: "play (c_chunk c1) c1 = Ok (False, f)"
    using play_device [of "c_chunk c1" c False d c1] one(3) by blast
  show ?thesis
    using r(1) push_stopped [OF one(1,2) f] by simp
qed

end

section \<open>The client's first packet\<close>

lemma sint_short: "sint (x :: u16) < 0 \<longleftrightarrow> 2 ^ 15 \<le> unat x"
proof -
  have "sint x < 0 \<longleftrightarrow> bit (unat x) 15"
    using bit_last_iff [of x] by (simp add: bit_unsigned_iff)
  moreover have "unat x div 2 ^ 15 < 2"
    using unsigned_less [of x] by (simp add: div_less_iff_less_mult)
  ultimately show ?thesis
    by (auto simp: bit_iff_odd less_2_cases_iff div_eq_0_iff not_le)
qed

definition syn_payload :: "bytes \<Rightarrow> bytes" where
  "syn_payload name = cfg_image [] (cfg_encode \<lparr>cfg_codec = 0\<rparr>) @ name"

lemma length_syn_payload [simp]: "length (syn_payload name) = Suc (length name)"
  by (simp add: syn_payload_def cfg_image_def)

lemma client_syns:
  assumes "length name < 2 ^ 15"
  shows "sas_client_session_syn c name =
    (let c1 = c\<lparr>c_state := STATE_SYN_SENT\<rparr>
     in Ok (send_result FLAG_SYN (syn_payload name) c1, client_sent FLAG_SYN (syn_payload name) c1))"
proof -
  have n: "length (syn_payload name) < 2 ^ 16"
    using assms by simp
  have u: "unat (of_nat (length name) :: u16) = length name"
    using assms by (simp add: unat_of_nat)
  have s: "\<not> sint (of_nat (length name) :: u16) < 0"
    using sint_short [of "of_nat (length name) :: u16"] u assms by simp
  have len: "(of_nat sizeof_cfg + of_nat (length name) :: u16) = of_nat (length (syn_payload name))"
    by (simp add: sizeof_cfg_def)
  show ?thesis
    using client_sends [OF n, of "c\<lparr>c_state := STATE_SYN_SENT\<rparr>" FLAG_SYN] s u len
    by (simp add: sas_client_session_syn_def syn_payload_def Let_def)
qed

lemma client_syn:
  assumes "os_send_error (c_os c) = (\<lambda>_. None)" "length name < 2 ^ 15 - 1"
  shows "\<exists>c' p h. sas_client_session_syn c name = Ok (0, c') \<and> c_state c' = STATE_SYN_SENT \<and>
    os_sent (c_os c') = os_sent (c_os c) @ [((), p)] \<and> (\<forall>pad. packet_bytes pad p = syn_datagram pad h name) \<and>
    hd_flags h = FLAG_SYN \<and> hd_seq h = c_seq c \<and> hd_length h = of_nat (Suc (length name)) \<and>
    length (pk_payload p) = Suc (length name) \<and> pk_header p = header_encode h \<and>
    c_seq c' = c_seq c + seq_step (of_nat (Suc (length name))) \<and> c_ack c' = c_ack c \<and>
    os_send_error (c_os c') = (\<lambda>_. None) \<and> device c' = device c"
proof -
  let ?c = "c\<lparr>c_state := STATE_SYN_SENT\<rparr>"
  let ?pay = "syn_payload name"
  have run: "sas_client_session_syn c name = Ok (0, client_sent FLAG_SYN ?pay ?c)"
    using client_syns [of name c] assms by simp
  let ?h = "\<lparr>hd_seq = c_seq c, hd_ack = c_ack c, hd_reserved = 0, hd_flags = FLAG_SYN,
         hd_window = c_receive_window c, hd_length = of_nat (length ?pay)\<rparr>"
  have p: "client_packet ?c FLAG_SYN ?pay = \<lparr>pk_header = header_encode ?h, pk_payload = ?pay\<rparr>"
    by (simp add: client_packet_def)
  have bytes: "packet_bytes pad (client_packet ?c FLAG_SYN ?pay) = syn_datagram pad ?h name" for pad
    unfolding p by (simp add: packet_bytes_def syn_datagram_def syn_payload_def)
  show ?thesis
    using run bytes p assms(1)
    by (intro exI [of _ "client_sent FLAG_SYN ?pay ?c"] exI [of _ "client_packet ?c FLAG_SYN ?pay"] exI [of _ ?h])
      (simp add: client_sent_sent device_def)
qed

text \<open>The whole of \<open>sas_client_receive\<close>, from the request to the end of the stream.\<close>

context audio_sink
begin

lemma receive_stream:
  assumes "os_send_error (c_os c) = (\<lambda>_. None)" "length name < 2 ^ 15 - 1" "length pad = 2" "24 \<le> length buf"
    and "config_packet cfg p" "list_all (audio_packet (length buf)) ps" "fin_packet e" "numbered (c_ack c) (p # ps @ [e])"
    and "play (format_chunk cfg) (create_logic snk c) = Ok (True, d0)" "takes (format_chunk cfg) (map pk_payload ps) d0 d"
  shows "\<exists>c' syn acks. sas_client_receive snk name
      (map (\<lambda>p. Received (packet_bytes pad p)) (p # ps @ [e])) (c, buf) = Ok (Inr (0, c')) \<and>
    os_sent (c_os c') = os_sent (c_os c) @ map (Pair ()) (syn # acks) \<and> sent_flags syn = FLAG_SYN \<and>
    length acks = 3 + 2 * length ps \<and> list_all (\<lambda>a. sent_flags a = FLAG_ACK) acks \<and>
    numbered (c_seq c) (syn # acks) \<and> device c' = device d"
proof -
  obtain c1 syn h where syn: "sas_client_session_syn c name = Ok (0, c1)" "c_state c1 = STATE_SYN_SENT"
    "os_sent (c_os c1) = os_sent (c_os c) @ [((), syn)]" "hd_flags h = FLAG_SYN" "hd_seq h = c_seq c"
    "length (pk_payload syn) = Suc (length name)" "pk_header syn = header_encode h"
    "c_seq c1 = c_seq c + seq_step (of_nat (Suc (length name)))" "c_ack c1 = c_ack c"
    "os_send_error (c_os c1) = (\<lambda>_. None)" "device c1 = device c"
    using client_syn [OF assms(1,2)] by blast
  obtain d1 where d1: "play (format_chunk cfg) (create_logic snk c1) = Ok (True, d1)" "device d1 = device d0"
    using play_device [OF assms(9) create_device [OF syn(11)]] by blast
  have n: "numbered (c_ack c1) (p # ps @ [e])"
    using assms(8) syn(9) by simp
  obtain c' acks where r: "client_loop snk (map (\<lambda>p. Received (packet_bytes pad p)) (p # ps @ [e])) (c1, buf) =
      Ok (Inr (0, c'))" "os_sent (c_os c') = os_sent (c_os c1) @ map (Pair ()) acks" "length acks = 3 + 2 * length ps"
    "numbered (c_seq c1) acks" "list_all (\<lambda>a. sent_flags a = FLAG_ACK) acks" "device c' = device d"
    using loop_stream [OF syn(2,10) assms(3-7) n d1(1) takes_device [OF assms(10) d1(2)]] by blast
  have "sas_client_receive snk name (map (\<lambda>p. Received (packet_bytes pad p)) (p # ps @ [e])) (c, buf) = Ok (Inr (0, c'))"
    using syn(1) r(1) by (simp add: sas_client_receive_def del: client_loop.simps)
  moreover have "sent_flags syn = FLAG_SYN" "numbered (c_seq c) (syn # acks)"
    using syn(4-8) r(4) by (simp_all add: sent_flags_def sent_seq_def)
  ultimately show ?thesis
    using syn(3) r(2,3,5,6) by (intro exI [of _ c'] exI [of _ syn] exI [of _ acks]) simp
qed

end

section \<open>The sound device\<close>

text \<open>A device that takes every setting and, of every write, the whole chunk, and a descriptor that is not 0.\<close>

definition willing :: "'a oss_client_scheme \<Rightarrow> bool" where
  "willing c \<longleftrightarrow> (\<forall>r. oss_accepts c r) \<and> (\<forall>n. 1024 \<le> oss_write_gives c n) \<and>
     (\<exists>f. os_files (c_os c) (case oss_env c of None \<Rightarrow> AUDIODEV | Some name \<Rightarrow> name) = Inr f) \<and>
     fd_open 0 (c_os c) \<noteq> None"

definition oss_ready :: "'a oss_client_scheme \<Rightarrow> bool" where
  "oss_ready c \<longleftrightarrow> 0 < oss_fd c \<and> \<not> oss_finished c \<and> fd_open (oss_fd c) (c_os c) \<noteq> None"

lemma setup_device_accepted:
  "(\<And>r. oss_accepts c r) \<Longrightarrow>
    setup_device fd rs c = (fd, c\<lparr>oss_requests := oss_requests c @ rs\<rparr>)"
proof (induction rs arbitrary: c)
  case (Cons r rs)
  have "setup_device fd rs (c\<lparr>oss_requests := oss_requests c @ [r]\<rparr>) =
      (fd, c\<lparr>oss_requests := oss_requests c @ [r]\<rparr>\<lparr>oss_requests := (oss_requests c @ [r]) @ rs\<rparr>)"
    using Cons.IH [of "c\<lparr>oss_requests := oss_requests c @ [r]\<rparr>"] Cons.prems by simp
  then show ?case
    using Cons.prems by (simp add: Let_def)
qed simp

lemma lowest_free_positive: "fd_open 0 o' \<noteq> None \<Longrightarrow> 0 < lowest_free (os_fds o')"
  by (cases "os_fds o'" rule: lowest_free.cases) (auto simp: fd_open_def)

lemma oss_opens:
  assumes "willing c" "oss_fd c \<le> 0" "\<not> oss_finished c"
  shows "\<exists>d. oss_play e c = Ok (True, d) \<and> oss_ready d \<and> oss_writes d = oss_writes c \<and>
    oss_write_gives d = oss_write_gives c"
proof -
  let ?name = "case oss_env c of None \<Rightarrow> AUDIODEV | Some name \<Rightarrow> name"
  obtain f where f: "os_files (c_os c) ?name = Inr f"
    using assms(1) by (auto simp: willing_def)
  let ?fd = "int (lowest_free (os_fds (c_os c)))"
  let ?o = "(c_os c)\<lparr>os_fds := set_fd (lowest_free (os_fds (c_os c))) (Some f) (os_fds (c_os c))\<rparr>"
  have o': "os_open ?name (c_os c) = (?fd, ?o)"
    using f by (simp add: os_open_def Let_def)
  have fd: "0 < ?fd" "fd_open ?fd ?o = Some f"
    using assms(1) lowest_free_positive [of "c_os c"] fd_open_set_fd [of "c_os c" "Some f"] by (simp_all add: willing_def)
  have "oss_accepts (c\<lparr>c_os := ?o\<rparr>) r" for r
    using assms(1) by (simp add: willing_def)
  note accepted = setup_device_accepted [OF this, of ?fd]
  show ?thesis
    using assms(2,3) fd o' accepted
    by (simp add: oss_play_def open_audio_fd_def oss_ready_def Let_def del: setup_device.simps)
qed

lemma oss_writes_chunk:
  assumes "oss_ready c"
  shows "oss_play (chunk_with f b) c =
    (let r = min (oss_write_gives c (length (oss_writes c))) (int (length b));
         c1 = c\<lparr>oss_writes := oss_writes c @ [take (nat r) b]\<rparr>
     in Ok (if r \<le> 0 then (False, on_os (os_close (oss_fd c)) (c1\<lparr>oss_finished := True\<rparr>)) else (True, c1)))"
  using assms by (auto simp: oss_play_def oss_write_def oss_ready_def chunk_with_def Let_def)

text \<open>Chunks of which something is left without the size of a configuration.\<close>

definition audible :: "bytes \<Rightarrow> bool" where
  "audible b \<longleftrightarrow> sizeof_cfg_ack < length b \<and> length b \<le> 1024"

lemma oss_plays:
  assumes "oss_ready c" "\<And>n. 1024 \<le> oss_write_gives c n" "list_all audible bs"
  shows "oss.plays f (map trim bs) c (c\<lparr>oss_writes := oss_writes c @ map trim bs\<rparr>)"
  using assms
proof (induction bs arbitrary: c)
  case (Cons b bs)
  let ?c = "c\<lparr>oss_writes := oss_writes c @ [trim b]\<rparr>"
  have b: "0 < length (trim b)" "length (trim b) \<le> 1024"
    using Cons.prems(3) by (auto simp: audible_def trim_def)
  then have "min (oss_write_gives c (length (oss_writes c))) (int (length (trim b))) = int (length (trim b))"
    using Cons.prems(2) [of "length (oss_writes c)"] by linarith
  then have "oss_play (chunk_with f (trim b)) c = Ok (True, ?c)"
    using oss_writes_chunk [OF Cons.prems(1), of f "trim b"] b(1) by (simp add: Let_def)
  moreover have "oss.plays f (map trim bs) ?c (?c\<lparr>oss_writes := oss_writes ?c @ map trim bs\<rparr>)"
    using Cons.prems by (intro Cons.IH) (simp_all add: oss_ready_def)
  ultimately show ?case by simp
qed simp

lemma oss_stream:
  assumes "willing c" "list_all audible bs"
  shows "\<exists>d0 d. oss_play e (create_logic sas_drivers_oss c) = Ok (True, d0) \<and> oss.takes e bs d0 d \<and>
    oss_writes d = oss_writes c @ map trim bs"
proof -
  let ?c = "create_logic sas_drivers_oss c"
  have w: "willing ?c" "oss_fd ?c \<le> 0" "\<not> oss_finished ?c" "oss_writes ?c = oss_writes c"
    "oss_write_gives ?c = oss_write_gives c"
    using assms(1) by (simp_all add: sas_drivers_oss_def oss_create_logic_def willing_def)
  obtain d0 where d0: "oss_play e ?c = Ok (True, d0)" "oss_ready d0" "oss_writes d0 = oss_writes c"
    "oss_write_gives d0 = oss_write_gives c"
    using oss_opens [OF w(1-3), of e] w(4,5) by auto
  have "oss.plays e (map trim bs) d0 (d0\<lparr>oss_writes := oss_writes d0 @ map trim bs\<rparr>)"
    using d0(4) assms by (intro oss_plays [OF d0(2)]) (simp_all add: willing_def)
  then have "oss.takes e bs d0 (d0\<lparr>oss_writes := oss_writes d0 @ map trim bs\<rparr>)"
    using assms(2) by (intro oss.plays_takes) (auto simp: audible_def list_all_iff)
  then show ?thesis
    using d0(1,3) by (intro exI [of _ d0] exI [of _ "d0\<lparr>oss_writes := oss_writes d0 @ map trim bs\<rparr>"]) simp
qed

text \<open>A write on the closed device, and a chunk of less than a configuration's size.\<close>

lemma oss_play_closed:
  assumes "oss_finished c" "fd_open (oss_fd c) (c_os c) = None"
  shows "oss_play (chunk_with f b) c = Ok (False, on_os (os_close (oss_fd c))
    ((on_os (\<lambda>o'. o'\<lparr>os_errno := EBADF\<rparr>) c)\<lparr>oss_finished := True\<rparr>))"
  using assms by (simp add: oss_play_def oss_write_def chunk_with_def on_os_def)

lemma chunk_size_wraps:
  assumes "hd_length h = of_nat n" "n < sizeof_cfg_ack"
  shows "chunk_size h = 2 ^ 64 - (sizeof_cfg_ack - n)"
proof -
  have "n \<in> {0, 1, 2, 3, 4, 5, 6, 7}"
    using assms(2) by (auto simp: sizeof_cfg_ack_def)
  then show ?thesis
    using assms(1) by (auto simp: chunk_size_def sizeof_cfg_ack_def unsigned_minus_1_eq_mask mask_eq_exp_minus_1)
qed

section \<open>An example\<close>

text \<open>A client whose standard input is open, and the packets of a short stream.\<close>

definition example_os :: "unit os" where
  "example_os = (fresh_os (\<lambda>_. Inr \<lparr>f_rest = [], f_err = None\<rparr>) (\<lambda>_. 0))
     \<lparr>os_fds := [Some \<lparr>f_rest = [], f_err = None\<rparr>]\<rparr>"

definition example_oss :: oss_client where
  "example_oss = sas_client_init \<lparr>requested = 0, worker = scheduler_create_worker, in_parent = False,
     c_os = example_os, c_fd = 0, c_state = STATE_INITIAL, c_seq = 0, c_ack = 0, c_send_window = 0,
     c_receive_window = 0, c_pipeline = False, c_sink_logic = False,
     c_chunk = \<lparr>ck_size = 0, ck_sample_rate = 0, ck_sample_size = 0, ck_channels = 0, ck_codec = 0, ck_buffer = []\<rparr>,
     oss_env = None, oss_accepts = (\<lambda>_. True), oss_write_gives = (\<lambda>_. 1024), oss_fd = 0, oss_finished = False,
     oss_requests = [], oss_writes = []\<rparr>"

definition example_packet :: "u32 \<Rightarrow> u8 \<Rightarrow> bytes \<Rightarrow> packet" where
  "example_packet seq flags payload =
     \<lparr>pk_header = header_encode \<lparr>hd_seq = seq, hd_ack = 0, hd_reserved = 0, hd_flags = flags, hd_window = 1024,
        hd_length = of_nat (length payload)\<rparr>, pk_payload = payload\<rparr>"

definition example_cfg :: packet_cfg_ack where
  "example_cfg = \<lparr>ca_sample_rate = 44100, ca_sample_size = 16, ca_channels = 2, ca_codec = 0\<rparr>"

definition example_config :: packet where
  "example_config = example_packet 0 (FLAG_SYN OR FLAG_ACK) (cfg_ack_image [0] (cfg_ack_encode example_cfg))"

lemma example_packet_simps [simp]:
  "sent_seq (example_packet seq flags payload) = seq" "sent_flags (example_packet seq flags payload) = flags"
  "pk_payload (example_packet seq flags payload) = payload"
  "length payload \<le> 1024 \<Longrightarrow> packet_ok (example_packet seq flags payload)"
  by (simp_all add: example_packet_def sent_seq_def sent_flags_def packet_ok_def)

lemma example_config_simps [simp]:
  "config_packet example_cfg example_config" "sent_seq example_config = 0" "length (pk_payload example_config) = 8"
  by (auto simp: config_packet_def example_config_def image_simps)

lemma example_oss_simps [simp]:
  "c_state example_oss = STATE_INITIAL" "c_os example_oss = example_os" "c_seq example_oss = 0" "c_ack example_oss = 0"
  "oss_writes example_oss = []" "willing example_oss" "os_sent example_os = []" "os_send_error example_os = (\<lambda>_. None)"
  by (simp_all add: example_oss_def example_os_def sas_client_init_def willing_def fd_open_def fresh_os_def)

text \<open>A client of the ignoring driver in the middle of a stream.\<close>

definition example_established :: client where
  "example_established = \<lparr>requested = 1, worker = scheduler_create_worker, in_parent = True,
     c_os = example_os, c_fd = 3, c_state = STATE_ESTABLSH, c_seq = 5, c_ack = 8, c_send_window = 0,
     c_receive_window = 0, c_pipeline = True, c_sink_logic = True,
     c_chunk = \<lparr>ck_size = 0, ck_sample_rate = 0, ck_sample_size = 0, ck_channels = 0, ck_codec = 0, ck_buffer = []\<rparr>\<rparr>"

lemma example_established_simps [simp]:
  "established example_established" "c_ack example_established = 8" "c_state example_established = STATE_ESTABLSH"
  "c_os example_established = example_os"
  by (auto simp: example_established_def established_def listening_def create_is_idle)

text \<open>A client that plays on the sound device, whose writes give \<open>n\<close>.\<close>

definition example_playing :: "int \<Rightarrow> oss_client" where
  "example_playing n = example_oss\<lparr>requested := 1, in_parent := True, c_state := STATE_ESTABLSH, c_ack := 8,
     c_sink_logic := True, c_os := example_os\<lparr>os_fds := replicate 2 (Some \<lparr>f_rest = [], f_err = None\<rparr>)\<rparr>,
     oss_fd := 1, oss_write_gives := (\<lambda>_. n)\<rparr>"

lemma example_playing_simps [simp]:
  "established (example_playing n)" "oss_ready (example_playing n)" "c_ack (example_playing n) = 8"
  "oss_write_gives (example_playing n) = (\<lambda>_. n)"
  by (auto simp: example_playing_def example_oss_def sas_client_init_def established_def listening_def create_is_idle
      oss_ready_def fd_open_def)

section \<open>Properties\<close>

text \<open>The request of the client is one the server understands: for a name
  of less than \<open>2 ^ 15 - 1\<close> bytes, the datagram is the SYN for it, with the
  length, the flags and the codec that the server reads.\<close>

lemma syn_sent:
  assumes "os_send_error (c_os c) = (\<lambda>_. None)" "length name < 2 ^ 15 - 1"
  shows "\<exists>c' p h. sas_client_session_syn c name = Ok (0, c') \<and> c_state c' = STATE_SYN_SENT \<and>
    os_sent (c_os c') = os_sent (c_os c) @ [((), p)] \<and> (\<forall>pad. packet_bytes pad p = syn_datagram pad h name) \<and>
    hd_flags h = FLAG_SYN \<and> hd_seq h = c_seq c \<and> hd_length h = of_nat (Suc (length name))"
  using client_syn [OF assms] by blast

lemma syn_sent_witness:
  "\<exists>c' p h. sas_client_session_syn example_oss [0x61] = Ok (0, c') \<and> os_sent (c_os c') = [((), p)] \<and>
    packet_bytes [0, 0] p = syn_datagram [0, 0] h [0x61] \<and> hd_length h = 2"
proof -
  have "length [0x61 :: u8] < 2 ^ 15 - 1"
    by simp
  from syn_sent [OF _ this, of example_oss] show ?thesis by auto
qed

text \<open>C17. A stream played on a sound device that can be opened, accepts every setting and takes every chunk whole, with descriptor 0
  in use (\<open>willing\<close>), where each packet has more than eight bytes: the client returns 0,
  and each chunk is written in order, but without its last eight bytes, as the size of
  a configuration is taken off the length of every packet. It has sent the
  SYN, three acknowledgements of the configuration and two of each chunk.\<close>

theorem stream_played:
  assumes "os_send_error (c_os c) = (\<lambda>_. None)" "length name < 2 ^ 15 - 1"
    and "length pad = 2" "length buf = client_buffer_size" "willing c"
    and "config_packet cfg p" "list_all (audio_packet client_buffer_size) ps" "fin_packet e"
    and "numbered (c_ack c) (p # ps @ [e])" "list_all (\<lambda>p. 8 < length (pk_payload p)) ps"
  shows "\<exists>c' syn acks. sas_client_receive sas_drivers_oss name
      (map (\<lambda>p. Received (packet_bytes pad p)) (p # ps @ [e])) (c, buf) = Ok (Inr (0, c')) \<and>
    oss_writes c' = oss_writes c @ map (\<lambda>p. take (length (pk_payload p) - 8) (pk_payload p)) ps \<and>
    os_sent (c_os c') = os_sent (c_os c) @ map (Pair ()) (syn # acks) \<and> sent_flags syn = FLAG_SYN \<and>
    length acks = 3 + 2 * length ps \<and> list_all (\<lambda>a. sent_flags a = FLAG_ACK) acks \<and>
    numbered (c_seq c) (syn # acks)"
proof -
  let ?bs = "map pk_payload ps"
  have ps: "list_all (audio_packet (length buf)) ps" "24 \<le> length buf" "list_all audible ?bs"
    using assms(4,7,10)
    by (auto simp: audible_def audio_packet_def packet_ok_def list_all_iff client_buffer_size_def sizeof_cfg_ack_def)
  obtain d0 d where d: "oss_play (format_chunk cfg) (create_logic sas_drivers_oss c) = Ok (True, d0)"
    "oss.takes (format_chunk cfg) ?bs d0 d" "oss_writes d = oss_writes c @ map trim ?bs"
    using oss_stream [OF assms(5) ps(3)] by blast
  obtain c' syn acks where r: "sas_client_receive sas_drivers_oss name
      (map (\<lambda>p. Received (packet_bytes pad p)) (p # ps @ [e])) (c, buf) = Ok (Inr (0, c'))"
    "os_sent (c_os c') = os_sent (c_os c) @ map (Pair ()) (syn # acks)" "sent_flags syn = FLAG_SYN"
    "length acks = 3 + 2 * length ps" "list_all (\<lambda>a. sent_flags a = FLAG_ACK) acks" "numbered (c_seq c) (syn # acks)"
    "device c' = device d"
    using oss.receive_stream [OF assms(1,2,3) ps(2) assms(6) ps(1) assms(8,9) d(1,2)] by blast
  have "oss_writes c' = oss_writes c @ map (\<lambda>p. take (length (pk_payload p) - 8) (pk_payload p)) ps"
    using r(7) d(3) by (simp add: device_oss trim_def sizeof_cfg_ack_def comp_def)
  with r(1-6) show ?thesis
    by (intro exI [of _ c'] exI [of _ syn] exI [of _ acks]) simp
qed

theorem stream_played_witness:
  "\<exists>c' acks. sas_client_receive sas_drivers_oss [0x61]
      (map (\<lambda>p. Received (packet_bytes [0, 0] p))
        [example_config, example_packet 8 0 [1, 2, 3, 4, 5, 6, 7, 8, 9, 10], example_packet 18 (FLAG_RST OR FLAG_FIN) []])
      (example_oss, replicate client_buffer_size 0) = Ok (Inr (0, c')) \<and>
    oss_writes c' = [[1, 2]] \<and> os_sent (c_os c') = map (Pair ()) acks \<and> length acks = 6"
proof -
  let ?p = "example_packet 8 0 [1, 2, 3, 4, 5, 6, 7, 8, 9, 10]" and ?e = "example_packet 18 (FLAG_RST OR FLAG_FIN) []"
  have "list_all (audio_packet client_buffer_size) [?p]" "fin_packet ?e" "numbered (c_ack example_oss) (example_config # [?p] @ [?e])"
    "list_all (\<lambda>p. 8 < length (pk_payload p)) [?p]"
    by (simp_all add: audio_packet_def fin_packet_def client_buffer_size_def sizeof_cfg_ack_def seq_step_def)
  from stream_played [OF _ _ _ _ example_oss_simps(6) example_config_simps(1) this, of "[0x61]" "[0, 0]" "replicate client_buffer_size 0"]
  obtain c' syn acks where "sas_client_receive sas_drivers_oss [0x61]
      (map (\<lambda>p. Received (packet_bytes [0, 0] p)) (example_config # [?p] @ [?e])) (example_oss, replicate client_buffer_size 0) =
      Ok (Inr (0, c'))" "oss_writes c' = [[1, 2]]" "os_sent (c_os c') = map (Pair ()) (syn # acks)" "length acks = 5"
    by auto
  then show ?thesis
    by (intro exI [of _ c'] exI [of _ "syn # acks"]) simp
qed

text \<open>C29. Every chunk is acknowledged twice: with the ignoring driver, by the sink's
  request for the next chunk, with an open window, and then by the session itself, with
  a window of 0. Each acknowledgement asks the server for another chunk.\<close>

theorem packets_acknowledged_twice:
  assumes "established c" "packet_ok p" "\<not> sent_seq p < c_ack c" "\<not> flag_isset (sent_flags p) FLAG_RST"
    and "sizeof_cfg_ack \<le> length (pk_payload p)" "16 + length (pk_payload p) \<le> length buf" "length pad = 2"
  shows "\<exists>c' buf' a b. client_received sas_drivers_ignore (packet_bytes pad p) (c, buf) = Ok (0, c', buf') \<and>
    established c' \<and> os_sent (c_os c') = os_sent (c_os c) @ [((), a), ((), b)] \<and>
    sent_flags a = FLAG_ACK \<and> sent_seq a = c_seq c \<and> sent_window a = 1024 \<and> sent_ack a = c_ack c' \<and>
    sent_flags b = FLAG_ACK \<and> sent_seq b = c_seq c + 1 \<and> sent_window b = 0 \<and> sent_ack b = c_ack c' \<and>
    c_ack c' = sent_seq p + seq_step (of_nat (length (pk_payload p)))"
proof -
  obtain c' buf' a b where r: "client_received sas_drivers_ignore (packet_bytes pad p) (c, buf) = Ok (0, c', buf')"
    "established c'" "os_sent (c_os c') = os_sent (c_os c) @ [((), a), ((), b)]"
    "ack_of a (c_seq c) (c_ack c') CLIENT_WINDOW_SIZE" "ack_of b (c_seq c + 1) (c_ack c') 0"
    "c_ack c' = sent_seq p + seq_step (of_nat (length (pk_payload p)))"
    using ignoring.receive_chunk_packet [OF assms refl] by blast
  then show ?thesis
    by (intro exI [of _ c'] exI [of _ buf'] exI [of _ a] exI [of _ b]) (simp add: ack_of_def CLIENT_WINDOW_SIZE_def)
qed

theorem packets_acknowledged_twice_witness:
  "\<exists>c' buf' a b. client_received sas_drivers_ignore (packet_bytes [0, 0] (example_packet 8 0 [1, 2, 3, 4, 5, 6, 7, 8, 9]))
      (example_established, replicate client_buffer_size 0) = Ok (0, c', buf') \<and>
    os_sent (c_os c') = [((), a), ((), b)] \<and> sent_window a = 1024 \<and> sent_window b = 0"
proof -
  let ?p = "example_packet 8 0 [1, 2, 3, 4, 5, 6, 7, 8, 9]" and ?buf = "replicate client_buffer_size 0"
  have "packet_ok ?p" "\<not> sent_seq ?p < c_ack example_established" "\<not> flag_isset (sent_flags ?p) FLAG_RST"
    "sizeof_cfg_ack \<le> length (pk_payload ?p)" "16 + length (pk_payload ?p) \<le> length ?buf" "length [0 :: u8, 0] = 2"
    by (simp_all add: sizeof_cfg_ack_def client_buffer_size_def)
  from packets_acknowledged_twice [OF example_established_simps(1) this] show ?thesis
    by auto
qed

text \<open>C28. How a reset ends the loop: with the code of an error packet, with
  0 at the end of the stream, and with \<open>ECONNRESET\<close> otherwise; nothing is sent.\<close>

theorem reset_ends_client:
  assumes "packet_ok p" "\<not> sent_seq p < c_ack c" "16 + length (pk_payload p) \<le> length buf" "length pad = 2"
    and "c_state c \<noteq> STATE_FINISHED"
    and "sent_flags p = FLAG_RST OR FLAG_ERR \<and> pk_payload p = err_image [] (err_encode \<lparr>err_code = code\<rparr>) \<and> code \<noteq> 0 \<or>
      sent_flags p = FLAG_RST OR FLAG_FIN \<and> code = 0 \<or> sent_flags p = FLAG_RST \<and> code = ECONNRESET"
  shows "\<exists>c'. client_loop snk (Received (packet_bytes pad p) # es) (c, buf) = Ok (Inr (code, c')) \<and>
    os_sent (c_os c') = os_sent (c_os c) \<and> (c_state c' = STATE_FINISHED \<longleftrightarrow> code = 0)"
proof -
  let ?h = "header_decode (pk_header p)"
  let ?rest = "drop (16 + length (pk_payload p)) buf"
  have rst: "flag_isset (sent_flags p) FLAG_RST"
    using assms(6) by auto
  note recv = client_received_reset [OF assms(1,2) rst assms(3,4), of snk]
  have "ECONNRESET \<noteq> 0"
    by (simp add: ECONNRESET_def)
  then consider (err) "sent_flags p = FLAG_RST OR FLAG_ERR"
      "pk_payload p = err_image [] (err_encode \<lparr>err_code = code\<rparr>)" "code \<noteq> 0"
    | (fin) "sent_flags p = FLAG_RST OR FLAG_FIN" "code = 0"
    | (rst) "sent_flags p = FLAG_RST" "code = ECONNRESET" "code \<noteq> 0"
    using assms(6) by (elim disjE conjE) auto
  then show ?thesis
  proof cases
    case err
    then show ?thesis
      using assms(5) recv client_reset_error [OF err(1,2) assms(4), of "client_accept ?h c" ?rest] by simp
  next
    case fin
    then have "client_received snk (packet_bytes pad p) (c, buf) =
        Ok (0, (client_accept ?h c)\<lparr>c_state := STATE_FINISHED\<rparr>, header_image pad ?h @ pk_payload p @ ?rest)"
      using recv by (simp add: client_reset_def sent_flags_def)
    then show ?thesis
      using assms(5) fin(2) by (cases es) simp_all
  next
    case rst
    then have "client_received snk (packet_bytes pad p) (c, buf) =
        Ok (ECONNRESET, client_accept ?h c, header_image pad ?h @ pk_payload p @ ?rest)"
      using recv by (simp add: client_reset_def sent_flags_def)
    then show ?thesis
      using assms(5) rst(2,3) by simp
  qed
qed

theorem reset_ends_client_witness:
  "\<exists>c'. client_loop sas_drivers_ignore [Received (packet_bytes [0, 0] (example_packet 8 (FLAG_RST OR FLAG_ERR)
      (err_image [] (err_encode \<lparr>err_code = 2\<rparr>))))] (example_established, replicate client_buffer_size 0) = Ok (Inr (2, c'))"
proof -
  let ?p = "example_packet 8 (FLAG_RST OR FLAG_ERR) (err_image [] (err_encode \<lparr>err_code = 2\<rparr>))"
  have "packet_ok ?p" "\<not> sent_seq ?p < c_ack example_established"
    "16 + length (pk_payload ?p) \<le> length (replicate client_buffer_size (0 :: u8))" "length [0 :: u8, 0] = 2"
    "c_state example_established \<noteq> STATE_FINISHED"
    by (simp_all add: client_buffer_size_def image_simps)
  from reset_ends_client [OF this, of 2 sas_drivers_ignore "[]"] show ?thesis
    by auto
qed

text \<open>An error packet with the code 0, which the server sends for a file
  that is no PCM WAV file when nothing failed before, is no error for the client: it goes on
  waiting, and ends with a timeout if nothing else comes.\<close>

lemma zero_error_ignored:
  assumes "packet_ok p" "\<not> sent_seq p < c_ack c" "16 + length (pk_payload p) \<le> length buf" "length pad = 2"
    and "c_state c \<noteq> STATE_FINISHED"
    and "sent_flags p = FLAG_RST OR FLAG_ERR" "pk_payload p = err_image [] (err_encode \<lparr>err_code = 0\<rparr>)"
  shows "\<exists>c'. client_loop snk [Received (packet_bytes pad p), Wait_Timeout] (c, buf) = Ok (Inr (ETIMEDOUT, c')) \<and>
    c_state c' = c_state c \<and> os_sent (c_os c') = os_sent (c_os c)"
proof -
  have rst: "flag_isset (sent_flags p) FLAG_RST"
    using assms(6) by simp
  let ?h = "header_decode (pk_header p)"
  show ?thesis
    using client_received_reset [OF assms(1,2) rst assms(3,4), of snk] assms(5)
      client_reset_error [OF assms(6,7,4), of "client_accept ?h c" "drop (16 + length (pk_payload p)) buf"]
    by simp
qed

lemma zero_error_ignored_witness:
  "\<exists>c'. client_loop sas_drivers_ignore [Received (packet_bytes [0, 0] (example_packet 8 (FLAG_RST OR FLAG_ERR)
      (err_image [] (err_encode \<lparr>err_code = 0\<rparr>)))), Wait_Timeout] (example_established, replicate client_buffer_size 0) =
    Ok (Inr (ETIMEDOUT, c'))"
proof -
  let ?p = "example_packet 8 (FLAG_RST OR FLAG_ERR) (err_image [] (err_encode \<lparr>err_code = 0\<rparr>))"
  have "packet_ok ?p" "\<not> sent_seq ?p < c_ack example_established"
    "16 + length (pk_payload ?p) \<le> length (replicate client_buffer_size (0 :: u8))" "length [0 :: u8, 0] = 2"
    "c_state example_established \<noteq> STATE_FINISHED" "sent_flags ?p = FLAG_RST OR FLAG_ERR"
    "pk_payload ?p = err_image [] (err_encode \<lparr>err_code = 0\<rparr>)"
    by (simp_all add: client_buffer_size_def image_simps)
  from zero_error_ignored [OF this, of sas_drivers_ignore] show ?thesis by auto
qed

text \<open>C36. A write that the device refuses: the driver closes it and cancels its
  inlet, but the session goes on pushing to it. The next chunk is written to the
  closed descriptor, fails, and cancelling a second time is a call through a null pointer.\<close>

theorem write_error_crashes:
  assumes "established c" "oss_ready c" "oss_write_gives c (length (oss_writes c)) \<le> 0"
    and "chunk_packet (length buf) p" "chunk_packet (length buf) q" "numbered (c_ack c) [p, q]" "length pad = 2"
  shows "client_loop sas_drivers_oss (Received (packet_bytes pad p) # Received (packet_bytes pad q) # es) (c, buf) =
    Fault Null_Deref"
proof -
  have p: "packet_ok p" "sent_seq p = c_ack c" "\<not> flag_isset (sent_flags p) FLAG_RST"
    "sizeof_cfg_ack \<le> length (pk_payload p)" "16 + length (pk_payload p) \<le> length buf"
    using assms(4,6) by (simp_all add: chunk_packet_def)
  have q: "packet_ok q" "sent_seq q = c_ack c + seq_step (of_nat (length (pk_payload p)))"
    "\<not> flag_isset (sent_flags q) FLAG_RST" "sizeof_cfg_ack \<le> length (pk_payload q)"
    "16 + length (pk_payload q) \<le> length buf"
    using assms(5,6) by (simp_all add: chunk_packet_def)
  let ?d = "on_os (os_close (oss_fd c)) (c\<lparr>oss_writes := oss_writes c @ [[]], oss_finished := True\<rparr>)"
  have "oss_play (chunk_with (c_chunk c) (trim (pk_payload p))) c = Ok (False, ?d)"
    using oss_writes_chunk [OF assms(2)] assms(3) by (simp add: Let_def min.coboundedI1)
  from oss.receive_stops [OF assms(1) p assms(7) this]
  obtain c' buf' where one: "client_received sas_drivers_oss (packet_bytes pad p) (c, buf) = Ok (0, c', buf')"
    "length buf' = length buf" "c_sink_logic c'" "\<not> in_parent c'" "c_state c' = STATE_ESTABLSH" "device c' = device ?d"
    "c_ack c' = sent_seq p + seq_step (of_nat (length (pk_payload p)))"
    by blast
  have closed: "oss_finished c'" "fd_open (oss_fd c') (c_os c') = None"
    using one(6) fd_open_closed [of "oss_fd c" "oss_fd c" "c_os c"]
    by (auto simp: device_oss on_os_def fd_open_def split: if_splits)
  have "sent_seq q = c_ack c'" "16 + length (pk_payload q) \<le> length buf'"
    using q(2,5) one(2,7) p(2) by simp_all
  from oss.receive_stopped [OF one(5,3,4) q(1) this(1) q(3,4) this(2) assms(7) oss_play_closed [OF closed]]
  have "client_received sas_drivers_oss (packet_bytes pad q) (c', buf') = Fault Null_Deref" .
  then show ?thesis
    using one(1,5) assms(1) by (simp add: established_def)
qed

theorem write_error_crashes_witness:
  "client_loop sas_drivers_oss [Received (packet_bytes [0, 0] (example_packet 8 0 [1, 2, 3, 4, 5, 6, 7, 8, 9])),
      Received (packet_bytes [0, 0] (example_packet 17 0 [1, 2, 3, 4, 5, 6, 7, 8, 9]))]
      (example_playing 0, replicate client_buffer_size 0) = Fault Null_Deref"
proof -
  have "chunk_packet (length (replicate client_buffer_size (0 :: u8))) (example_packet n 0 [1, 2, 3, 4, 5, 6, 7, 8, 9])" for n
    by (simp add: chunk_packet_def sizeof_cfg_ack_def client_buffer_size_def)
  from write_error_crashes [OF example_playing_simps(1,2) _ this this, of 0 8 17 "[0, 0]" "[]"]
  show ?thesis by (simp add: seq_step_def)
qed

text \<open>A chunk of less than eight bytes, as the server sends it at the end of a
  file whose last chunk is that short: its size wraps around to almost \<open>2 ^ 64\<close>, and the write to the sound
  device runs off the receive buffer.\<close>

lemma short_chunk_overruns:
  assumes "c_state c = STATE_ESTABLSH" "c_sink_logic c" "oss_ready c" "length buf = client_buffer_size"
    and "packet_ok p" "sent_seq p = c_ack c" "\<not> flag_isset (sent_flags p) FLAG_RST"
    and "length (pk_payload p) < 8" "length pad = 2"
  shows "client_received sas_drivers_oss (packet_bytes pad p) (c, buf) = Fault Out_Of_Bounds"
proof -
  have len: "16 + length (pk_payload p) \<le> length buf"
    using assms(4,8) by (simp add: client_buffer_size_def)
  let ?rest = "drop (16 + length (pk_payload p)) buf"
  obtain c1 h where r: "client_received sas_drivers_oss (packet_bytes pad p) (c, buf) =
    and_then (client_push sas_drivers_oss c1) (\<lambda>c2.
      and_then (sas_client_session_ack (c2\<lparr>c_receive_window := 0\<rparr>)) (\<lambda>(e, c3).
      Ok (0, c3, header_image pad h @ pk_payload p @ ?rest)))"
    "hd_length h = of_nat (length (pk_payload p))"
    "c1 = (client_accept h c)\<lparr>c_chunk := (c_chunk c)\<lparr>ck_size := chunk_size h, ck_buffer := pk_payload p @ ?rest\<rparr>\<rparr>"
    using oss.chunk_pushed [OF assms(1,5,6,7) len assms(9)] by blast
  have dev: "device c1 = device c"
    by (simp add: r(3) device_def)
  have "length (ck_buffer (c_chunk c1)) < ck_size (c_chunk c1)"
    using chunk_size_wraps [OF r(2)] assms(4,8)
    by (simp add: r(3) sizeof_cfg_ack_def client_buffer_size_def)
  moreover have "fd_open fd (c_os c1) = fd_open fd (c_os c)" for fd
    using dev by (simp add: device_def fd_open_def)
  ultimately have "oss_play (c_chunk c1) c1 = Fault Out_Of_Bounds"
    using dev assms(3) by (simp add: oss_play_def oss_write_def oss_ready_def device_oss)
  then show ?thesis
    using r(1) oss.push_fault [of c1] assms(2) by (simp add: r(3) client_accept_def)
qed

lemma short_chunk_overruns_witness:
  "client_received sas_drivers_oss (packet_bytes [0, 0] (example_packet 8 0 [1, 2, 3]))
    (example_playing 1, replicate client_buffer_size 0) = Fault Out_Of_Bounds"
  by (rule short_chunk_overruns) (use example_playing_simps in \<open>simp_all add: established_def\<close>)

text \<open>A name of \<open>2 ^ 15\<close> bytes or more: its length is stored in a signed
  16-bit integer, becomes negative, and the copy of the name overruns the packet.\<close>

lemma long_name_overruns:
  assumes "2 ^ 15 \<le> length name" "length name < 2 ^ 16"
  shows "sas_client_receive snk name es (c, buf) = Fault Out_Of_Bounds"
proof -
  have "unat (of_nat (length name) :: u16) = length name"
    using assms(2) by (simp add: unat_of_nat)
  then have "sint (of_nat (length name) :: u16) < 0"
    using sint_short [of "of_nat (length name) :: u16"] assms(1) by simp
  then show ?thesis
    by (simp add: sas_client_receive_def sas_client_session_syn_def Let_def)
qed

lemma long_name_overruns_witness:
  "sas_client_receive sas_drivers_ignore (replicate 40000 0x61) [] (example_established, []) = Fault Out_Of_Bounds"
  by (rule long_name_overruns) simp_all

end
