(* ===== verification/Network.thy ===== *)
theory Network
  imports Server_Run Client_Run
begin

text \<open>
  A client and the server over a network that keeps the order of the packets
  between them and loses none (one that does neither is in \<open>Unreliable\<close>): a state of both programs and how many packets
  have arrived at each, and the steps in which one packet arrives.
\<close>

section \<open>The network\<close>

text \<open>
  The states of the two programs, each of which may have returned, and how many of the
  packets that the other one has sent have arrived.
\<close>

record 'c network =
  net_server :: "server \<times> bytes + i32 \<times> server"
  net_client :: "'c \<times> bytes + i32 \<times> 'c"
  net_up :: nat
  net_down :: nat

datatype move = To_Server | To_Client

definition state_now :: "'s \<times> bytes + i32 \<times> 's \<Rightarrow> 's" where
  "state_now = case_sum fst snd"

lemma state_now_simps [simp]: "state_now (Inl (s, buf)) = s" "state_now (Inr (e, s)) = s"
  by (simp_all add: state_now_def)

text \<open>The packets that the client has sent, and those that the server has sent to it.\<close>

definition up_packets :: "'a client_scheme network \<Rightarrow> packet list" where
  "up_packets n = map snd (os_sent (c_os (state_now (net_client n))))"

definition sent_to :: "sockaddr6 \<Rightarrow> server \<Rightarrow> packet list" where
  "sent_to a srv = map snd (filter (\<lambda>x. fst x = a) (os_sent srv))"

definition down_packets :: "sockaddr6 \<Rightarrow> 'c network \<Rightarrow> packet list" where
  "down_packets a n = sent_to a (state_now (net_server n))"

fun enabled :: "sockaddr6 \<Rightarrow> move \<Rightarrow> 'a client_scheme network \<Rightarrow> bool" where
  "enabled a To_Server n \<longleftrightarrow> isl (net_server n) \<and> net_up n < length (up_packets n)"
| "enabled a To_Client n \<longleftrightarrow> isl (net_client n) \<and> net_down n < length (down_packets a n)"

text \<open>
  The next packet arrives, with some bytes in the padding of its header: the
  program that waits for it handles it.
\<close>

fun deliver :: "(sas_chunk, 'a client_scheme) sink \<Rightarrow> sockaddr6 \<Rightarrow> bytes \<Rightarrow> move \<Rightarrow>
    'a client_scheme network \<Rightarrow> 'a client_scheme network res" where
  "deliver snk a pad To_Server n =
     (case net_server n of
        Inr x \<Rightarrow> Ok n
      | Inl sb \<Rightarrow>
          and_then (server_round (Datagram a (packet_bytes pad (up_packets n ! net_up n))) sb) (\<lambda>r.
          Ok (n\<lparr>net_server := r, net_up := net_up n + 1\<rparr>)))"
| "deliver snk a pad To_Client n =
     (case net_client n of
        Inr x \<Rightarrow> Ok n
      | Inl cb \<Rightarrow>
          and_then (client_loop snk [Received (packet_bytes pad (down_packets a n ! net_down n))] cb) (\<lambda>r.
          Ok (n\<lparr>net_client := r, net_down := net_down n + 1\<rparr>)))"

text \<open>A client that starts, when all that was sent before has arrived.\<close>

definition net_start :: "sockaddr6 \<Rightarrow> bytes \<Rightarrow> 'a client_scheme \<times> bytes \<Rightarrow> server \<times> bytes \<Rightarrow>
    'a client_scheme network res" where
  "net_start a name cb sb =
     and_then (sas_client_session_syn (fst cb) name) (\<lambda>(err, c1).
     Ok \<lparr>net_server = Inl sb, net_client = (if err \<noteq> 0 then Inr (err, c1) else Inl (c1, snd cb)),
         net_up = length (os_sent (c_os (fst cb))), net_down = length (sent_to a (fst sb))\<rparr>)"

inductive net_step :: "(sas_chunk, 'a client_scheme) sink \<Rightarrow> sockaddr6 \<Rightarrow>
    'a client_scheme network \<Rightarrow> 'a client_scheme network \<Rightarrow> bool" for snk a where
  arrives: "enabled a m n \<Longrightarrow> length pad = 2 \<Longrightarrow> deliver snk a pad m n = Ok n' \<Longrightarrow> net_step snk a n n'"

inductive net_run :: "(sas_chunk, 'a client_scheme) sink \<Rightarrow> sockaddr6 \<Rightarrow> 'a client_scheme network \<Rightarrow>
    nat \<Rightarrow> 'a client_scheme network \<Rightarrow> bool" for snk a n0 where
  start: "net_run snk a n0 0 n0"
| step: "net_run snk a n0 k n \<Longrightarrow> net_step snk a n n' \<Longrightarrow> net_run snk a n0 (Suc k) n'"

inductive_cases net_stepE: "net_step snk a n n'"

section \<open>The network runs the two programs\<close>

lemma server_run_append:
  "sas_server_run (is @ js) sb = and_then (sas_server_run is sb) (\<lambda>r.
     case r of Inl sb' \<Rightarrow> sas_server_run js sb' | Inr x \<Rightarrow> Ok (Inr x))"
proof (induction "is" arbitrary: sb)
  case (Cons i "is")
  then show ?case
    by (cases "server_round i sb") (auto split: sum.split)
qed simp

text \<open>Both programs have started, and each goes on by one input at a time.\<close>

lemma net_start_programs:
  assumes "net_start a name cb sb = Ok n0"
  shows "sas_client_receive snk name [] cb = Ok (net_client n0)" "sas_server_run [] sb = Ok (net_server n0)"
proof -
  obtain c buf where cb: "cb = (c, buf)" by fastforce
  obtain err c1 where syn: "sas_client_session_syn c name = Ok (err, c1)"
    "n0 = \<lparr>net_server = Inl sb, net_client = (if err \<noteq> 0 then Inr (err, c1) else Inl (c1, buf)),
         net_up = length (os_sent (c_os c)), net_down = length (sent_to a (fst sb))\<rparr>"
    using assms by (auto simp: net_start_def cb and_then_eq_Ok)
  have state: "c_state c1 = STATE_SYN_SENT"
    using syn(1) by (auto simp: sas_client_session_syn_def sas_client_session_send_def Let_def case_prod_unfold split: if_splits)
  show "sas_client_receive snk name [] cb = Ok (net_client n0)" "sas_server_run [] sb = Ok (net_server n0)"
    using syn state by (simp_all add: sas_client_receive_def cb)
qed

lemma server_goes_on:
  "sas_server_run is sb = Ok (Inl sb1) \<Longrightarrow> server_round i sb1 = Ok r \<Longrightarrow> sas_server_run (is @ [i]) sb = Ok r"
  by (simp add: server_run_append split: sum.split)

lemma client_goes_on:
  "sas_client_receive snk name es cb = Ok (Inl cb1) \<Longrightarrow> client_loop snk [e] cb1 = Ok r \<Longrightarrow>
    sas_client_receive snk name (es @ [e]) cb = Ok r"
  by (cases "sas_client_session_syn (fst cb) name")
    (auto simp: sas_client_receive_def case_prod_unfold client_loop_append split: if_splits)

text \<open>
  A run of the network is a run of the client's \<open>sas_client_receive\<close> and of
  the server's \<open>sas_server_run\<close>, for the packets that arrived.
\<close>

lemma net_run_programs:
  assumes "net_start a name cb sb = Ok n0" "net_run snk a n0 k n"
  shows "(\<exists>es. sas_client_receive snk name es cb = Ok (net_client n)) \<and> (\<exists>is. sas_server_run is sb = Ok (net_server n))"
  using assms(2)
proof induction
  case start
  show ?case
    using net_start_programs [OF assms(1)] by blast
next
  case (step k n n')
  obtain es "is" where run: "sas_client_receive snk name es cb = Ok (net_client n)" "sas_server_run is sb = Ok (net_server n)"
    using step.IH by blast
  obtain m pad where m: "enabled a m n" "deliver snk a pad m n = Ok n'"
    using step.hyps(2) by (auto elim: net_stepE)
  show ?case
  proof (cases m)
    case To_Server
    then obtain sb1 r where r: "net_server n = Inl sb1"
      "server_round (Datagram a (packet_bytes pad (up_packets n ! net_up n))) sb1 = Ok r"
      "n' = n\<lparr>net_server := r, net_up := net_up n + 1\<rparr>"
      using m by (auto simp: and_then_eq_Ok split: sum.splits)
    show ?thesis
      using server_goes_on [OF run(2) [unfolded r(1)] r(2)] run(1) r(3) by auto
  next
    case To_Client
    then obtain cb1 r where r: "net_client n = Inl cb1"
      "client_loop snk [Received (packet_bytes pad (down_packets a n ! net_down n))] cb1 = Ok r"
      "n' = n\<lparr>net_client := r, net_down := net_down n + 1\<rparr>"
      using m by (auto simp: and_then_eq_Ok split: sum.splits)
    show ?thesis
      using client_goes_on [OF run(1) [unfolded r(1)] r(2)] run(2) r(3) by auto
  qed
qed

section \<open>The pieces of a stream\<close>

datatype piece = Config | Chunk bytes | End

fun is_piece :: "packet_cfg_ack \<Rightarrow> piece \<Rightarrow> packet \<Rightarrow> bool" where
  "is_piece cfg Config p \<longleftrightarrow> config_packet cfg p"
| "is_piece cfg (Chunk b) p \<longleftrightarrow> packet_ok p \<and> sent_flags p = 0 \<and> pk_payload p = b"
| "is_piece cfg End p \<longleftrightarrow> fin_packet p"

definition pieces :: "bytes \<Rightarrow> piece list" where
  "pieces data = map Chunk (chunks data) @ [End]"

lemma pieces_simps [simp]:
  "pieces [] = [End]" "data \<noteq> [] \<Longrightarrow> pieces data = Chunk (take 1024 data) # pieces (drop 1024 data)"
  "length (pieces data) = Suc (length (chunks data))" "pieces data \<noteq> []"
  "[] \<noteq> pieces data"
  by (simp_all add: pieces_def)

text \<open>What the server is about to send to the client at \<open>a\<close>, one piece for each packet it receives.\<close>

definition sends :: "server \<Rightarrow> sid \<Rightarrow> sockaddr6 \<Rightarrow> session \<Rightarrow> piece list \<Rightarrow> bool" where
  "sends srv p a s todo \<longleftrightarrow> (\<exists>data. todo = pieces data \<and> serving srv p a s data) \<or> todo = [] \<and> ended srv p a s"

definition is_ack :: "packet \<Rightarrow> bool" where
  "is_ack p \<longleftrightarrow> packet_ok p \<and> sent_flags p = FLAG_ACK \<and> pk_payload p = []"

lemma ack_of_is_ack: "ack_of p seq ack window \<Longrightarrow> is_ack p \<and> sent_seq p = seq"
  by (simp add: ack_of_def is_ack_def)

text \<open>
  Any packet that is not a reset: it makes the server send the next piece, or, where its
  sequence number is an old one or nothing is left to be sent, nothing at all.
\<close>

lemma server_hears:
  assumes "sends srv p a s todo" "addr_ok a" "16 \<le> length buf" "\<not> flag_isset (sent_flags q) FLAG_RST"
    and "\<not> sent_seq q < s_ack s" "length pad = 2"
  shows "\<exists>srv' s' buf' pks. server_round (Datagram a (packet_bytes pad q)) (srv, buf) = Ok (Inl (srv', buf')) \<and>
    length buf' = length buf \<and> os_sent srv' = os_sent srv @ map (Pair a) pks \<and>
    list_all2 (is_piece cfg) (take 1 todo) pks \<and> numbered (s_seq s) pks \<and> s_seq s' = seq_after (s_seq s) pks \<and>
    s_ack s' = sent_seq q + seq_step (hd_length (header_decode (pk_header q))) \<and> sends srv' p a s' (drop 1 todo)"
proof -
  let ?d = "packet_bytes pad q" and ?h = "header_decode (pk_header q)"
  have load: "header_load ?d = Ok (pk_header q)" "16 \<le> length ?d"
    using assms(6) by (simp_all add: packet_load)
  have h: "\<not> hd_seq ?h < s_ack s" "\<not> flag_isset (hd_flags ?h) FLAG_RST"
    using assms(4,5) by (simp_all add: sent_seq_def sent_flags_def)
  then have ok: "datagrams_ok (s_ack s) [?d]"
    using load by (simp add: sizeof_header_def Let_def)
  consider data where "todo = pieces data" "serving srv p a s data" | "todo = []" "ended srv p a s"
    using assms(1) by (auto simp: sends_def)
  then show ?thesis
  proof cases
    case 1
    obtain srv' s' buf' pk where r: "server_round (Datagram a ?d) (srv, buf) = Ok (Inl (srv', buf'))"
      "length buf' = length buf" "os_sent srv' = os_sent srv @ [(a, pk)]" "sent_seq pk = s_seq s"
      "sent_flags pk = next_flags data" "pk_payload pk = next_payload data" "packet_ok pk"
      "s_seq s' = s_seq s + seq_step (of_nat (length (next_payload data)))"
      "data = [] \<longrightarrow> ended srv' p a s'" "data \<noteq> [] \<longrightarrow> serving srv' p a s' (drop 1024 data)"
      "\<forall>w. header_load ?d = Ok w \<longrightarrow> s_ack s' = hd_seq (header_decode w) + seq_step (hd_length (header_decode w))"
      using serve_packet [OF 1(2) assms(2,3) ok] by blast
    have "s_ack s' = sent_seq q + seq_step (hd_length ?h)"
      using r(11) load(1) by (simp add: sent_seq_def)
    moreover have "list_all2 (is_piece cfg) (take 1 todo) [pk]"
      using r(5-7) 1(1) by (cases "data = []") (simp_all add: next_flags_def next_payload_def fin_packet_def)
    moreover have "sends srv' p a s' (drop 1 todo)"
      using r(9,10) 1(1) by (cases "data = []") (auto simp: sends_def)
    ultimately show ?thesis
      using r(1-4,6,8) by (intro exI [of _ srv'] exI [of _ s'] exI [of _ buf'] exI [of _ "[pk]"]) simp
  next
    case 2
    obtain srv' s' buf' where r: "server_round (Datagram a ?d) (srv, buf) = Ok (Inl (srv', buf'))"
      "length buf' = length buf" "os_sent srv' = os_sent srv" "ended srv' p a s'" "s_seq s' = s_seq s"
      "s_ack s' = sent_seq q + seq_step (hd_length ?h)"
      using ignore_packet [OF 2(2) assms(2,3) load h] by (auto simp: sent_seq_def)
    then show ?thesis
      using 2(1) by (intro exI [of _ srv'] exI [of _ s'] exI [of _ buf'] exI [of _ "[]"]) (simp add: sends_def)
  qed
qed

lemma server_ignores:
  assumes "sends srv p a s todo" "addr_ok a" "16 \<le> length buf" "sent_seq q < s_ack s" "length pad = 2"
  shows "\<exists>srv' s' buf'. server_round (Datagram a (packet_bytes pad q)) (srv, buf) = Ok (Inl (srv', buf')) \<and>
    length buf' = length buf \<and> os_sent srv' = os_sent srv \<and> s_seq s' = s_seq s \<and> s_ack s' = s_ack s \<and>
    sends srv' p a s' todo"
proof -
  have load: "header_load (packet_bytes pad q) = Ok (pk_header q)" "16 \<le> length (packet_bytes pad q)"
    "hd_seq (header_decode (pk_header q)) < s_ack s"
    using assms(4,5) by (simp_all add: packet_load sent_seq_def)
  have "(\<exists>data. serving srv p a s data) \<or> ended srv p a s"
    using assms(1) by (auto simp: sends_def)
  then obtain srv' buf' u where r: "server_round (Datagram a (packet_bytes pad q)) (srv, buf) = Ok (Inl (srv', buf'))"
    "length buf' = length buf" "os_sent srv' = os_sent srv"
    "\<forall>data. serving srv p a s data \<longrightarrow> serving srv' p a (s\<lparr>s_timeout := u\<rparr>) data"
    "ended srv p a s \<longrightarrow> ended srv' p a (s\<lparr>s_timeout := u\<rparr>)"
    using old_packet_round [OF _ assms(2,3) load(1,2,3)] by blast
  then show ?thesis
    using assms(1) by (intro exI [of _ srv'] exI [of _ "s\<lparr>s_timeout := u\<rparr>"] exI [of _ buf']) (auto simp: sends_def)
qed

lemma server_sends:
  assumes "sends srv p a s todo" "addr_ok a" "16 \<le> length buf" "is_ack q" "sent_seq q = s_ack s" "length pad = 2"
  shows "\<exists>srv' s' buf' pks. server_round (Datagram a (packet_bytes pad q)) (srv, buf) = Ok (Inl (srv', buf')) \<and>
    length buf' = length buf \<and> os_sent srv' = os_sent srv @ map (Pair a) pks \<and>
    list_all2 (is_piece cfg) (take 1 todo) pks \<and> numbered (s_seq s) pks \<and> s_seq s' = seq_after (s_seq s) pks \<and>
    s_ack s' = seq_after (s_ack s) [q] \<and> sends srv' p a s' (drop 1 todo)"
proof -
  have "\<not> flag_isset (sent_flags q) FLAG_RST" "\<not> sent_seq q < s_ack s"
    "sent_seq q + seq_step (hd_length (header_decode (pk_header q))) = seq_after (s_ack s) [q]"
    using assms(4,5) by (simp_all add: is_ack_def flag_isset_def FLAG_ACK_def FLAG_RST_def packet_ok_def)
  with server_hears [OF assms(1-3) this(1,2) assms(6), of cfg] show ?thesis
    by (simp only:)
qed

section \<open>Packets on their way\<close>

definition up_flight :: "'a client_scheme network \<Rightarrow> packet list" where
  "up_flight n = drop (net_up n) (up_packets n)"

definition down_flight :: "sockaddr6 \<Rightarrow> 'c network \<Rightarrow> packet list" where
  "down_flight a n = drop (net_down n) (down_packets a n)"

lemma sent_to_extend:
  "os_sent srv' = os_sent srv @ map (Pair a) pks \<Longrightarrow> sent_to a srv' = sent_to a srv @ pks"
  by (simp add: sent_to_def comp_def)

lemma enabled_flight:
  "enabled a To_Server n \<longleftrightarrow> isl (net_server n) \<and> up_flight n \<noteq> []"
  "enabled a To_Client n \<longleftrightarrow> isl (net_client n) \<and> down_flight a n \<noteq> []"
  by (auto simp: up_flight_def down_flight_def)

lemma next_flight:
  "up_flight n = q # qs \<Longrightarrow> up_packets n ! net_up n = q"
  "down_flight a n = q # qs \<Longrightarrow> down_packets a n ! net_down n = q"
  by (simp_all add: up_flight_def down_flight_def nth_via_drop)

text \<open>The two moves, in terms of the packets on their way.\<close>

lemma arrives_at_server:
  assumes "net_server n = Inl sb" "up_flight n = q # qs" "server_round (Datagram a (packet_bytes pad q)) sb = Ok (Inl (srv', sbuf'))"
    and "os_sent srv' = os_sent (fst sb) @ map (Pair a) pks" "net_down n \<le> length (down_packets a n)"
  shows "\<exists>n'. deliver snk a pad To_Server n = Ok n' \<and> net_server n' = Inl (srv', sbuf') \<and> net_client n' = net_client n \<and>
    up_flight n' = qs \<and> down_flight a n' = down_flight a n @ pks \<and> net_down n' \<le> length (down_packets a n')"
proof -
  let ?n = "n\<lparr>net_server := Inl (srv', sbuf'), net_up := net_up n + 1\<rparr>"
  have down: "down_packets a ?n = down_packets a n @ pks"
    using sent_to_extend [OF assms(4)] assms(1) by (cases sb) (simp add: down_packets_def)
  have "up_flight ?n = drop 1 (up_flight n)"
    by (simp add: up_flight_def up_packets_def add.commute)
  then show ?thesis
    using assms down next_flight(1) [OF assms(2)] by (intro exI [of _ ?n]) (simp add: down_flight_def)
qed

lemma arrives_at_client:
  assumes "net_client n = Inl cb" "down_flight a n = q # qs" "client_loop snk [Received (packet_bytes pad q)] cb = Ok r"
    and "os_sent (c_os (state_now r)) = os_sent (c_os (fst cb)) @ map (Pair ()) acks" "net_up n \<le> length (up_packets n)"
  shows "\<exists>n'. deliver snk a pad To_Client n = Ok n' \<and> net_client n' = r \<and> net_server n' = net_server n \<and>
    down_flight a n' = qs \<and> up_flight n' = up_flight n @ acks \<and> net_up n' \<le> length (up_packets n')"
proof -
  let ?n = "n\<lparr>net_client := r, net_down := net_down n + 1\<rparr>"
  have up: "up_packets ?n = up_packets n @ acks"
    using assms(1,4) by (cases cb) (simp add: up_packets_def comp_def)
  have "down_flight a ?n = drop 1 (down_flight a n)"
    by (simp add: down_flight_def down_packets_def add.commute)
  then show ?thesis
    using assms up next_flight(2) [OF assms(2)] by (intro exI [of _ ?n]) (simp add: up_flight_def)
qed

lemma deliver_other:
  "deliver snk a pad To_Server n = Ok n' \<Longrightarrow> net_up n < length (up_packets n) \<Longrightarrow> net_up n' \<le> length (up_packets n')"
  "deliver snk a pad To_Client n = Ok n' \<Longrightarrow> net_down n < length (down_packets a n) \<Longrightarrow>
    net_down n' \<le> length (down_packets a n')"
  by (auto simp: up_packets_def down_packets_def and_then_eq_Ok split: sum.splits)

section \<open>A server with a file for a new client\<close>

definition can_serve :: "server \<Rightarrow> sockaddr6 \<Rightarrow> bytes \<Rightarrow> wave_header \<Rightarrow> bytes \<Rightarrow> bool" where
  "can_serve srv a name w data \<longleftrightarrow> table_ok srv \<and> heap_live srv \<and> addr_ok a \<and> session_lookup srv a = None \<and>
     srv_malloc_ok srv (srv_fresh srv) \<and> os_send_error srv = (\<lambda>_. None) \<and>
     (\<forall>k. os_clock srv (Suc k) < os_clock srv k + SESSION_TIMEOUT) \<and>
     (\<forall>q \<in> set (entries srv). \<forall>k. os_clock srv k < timeout_of srv q) \<and>
     (\<exists>wpad. os_files srv name = Inr \<lparr>f_rest = wave_header_image wpad w @ data, f_err = None\<rparr>) \<and> playable w"

abbreviation server_cfg :: "server \<Rightarrow> wave_header \<Rightarrow> packet_cfg_ack" where
  "server_cfg srv \<equiv> stream_cfg (s_codec (srv_junk srv))"

lemma server_opens:
  assumes "can_serve srv a name w data" "length pad = 2" "hd_length h = of_nat (Suc (length name))"
    and "length name < 2 ^ 16 - 1" "0 \<notin> set name" "hd_flags h = FLAG_SYN" "17 + length name \<le> length sbuf"
  shows "\<exists>srv' p s' sbuf' pk. server_round (Datagram a (syn_datagram pad h name)) (srv, sbuf) = Ok (Inl (srv', sbuf')) \<and>
    length sbuf' = length sbuf \<and> os_sent srv' = os_sent srv @ map (Pair a) [pk] \<and> sent_seq pk = 0 \<and>
    config_packet (server_cfg srv w) pk \<and> s_seq s' = seq_after 0 [pk] \<and>
    s_ack s' = hd_seq h + seq_step (hd_length h) \<and> sends srv' p a s' (pieces data)"
proof -
  obtain wpad where srv: "table_ok srv" "heap_live srv" "addr_ok a" "session_lookup srv a = None"
    "srv_malloc_ok srv (srv_fresh srv)" "os_send_error srv = (\<lambda>_. None)"
    "os_files srv name = Inr \<lparr>f_rest = wave_header_image wpad w @ data, f_err = None\<rparr>" "playable w"
    and calm: "calm srv (srv_fresh srv)"
    using assms(1) by (auto simp: can_serve_def calm_def)
  have len: "length (syn_datagram pad h name) \<le> length sbuf"
    using assms(2,7) by (simp add: syn_datagram_def image_simps)
  obtain srv' s' sbuf' pk x where r: "server_round (Datagram a (syn_datagram pad h name)) (srv, sbuf) = Ok (Inl (srv', sbuf'))"
    "length sbuf' = length sbuf" "os_sent srv' = os_sent srv @ [(a, pk)]" "sent_seq pk = 0" "s_seq s' = 8"
    "length (pk_payload pk) = 8" "sent_flags pk = FLAG_SYN OR FLAG_ACK" "s_ack s' = hd_seq h + seq_step (hd_length h)"
    "serving srv' (srv_fresh srv) a s' data" "packet_ok pk"
    "pk_payload pk = cfg_ack_image [x] (cfg_ack_encode (server_cfg srv w))"
    using serve_syn [OF srv(1-5) calm srv(6-8) assms(2-6) len] by (auto simp only: stream_cfg_def)
  have "config_packet (server_cfg srv w) pk"
    using r(7,10,11) unfolding config_packet_def by (auto simp: flag_isset_def FLAG_SYN_def FLAG_ACK_def FLAG_RST_def)
  moreover have "sends srv' (srv_fresh srv) a s' (pieces data)"
    using r(9) by (auto simp: sends_def)
  ultimately show ?thesis
    using r(1-6,8) by (intro exI [of _ srv'] exI [of _ "srv_fresh srv"] exI [of _ s'] exI [of _ sbuf'] exI [of _ pk])
      (simp add: seq_step_def)
qed

section \<open>What the client hears\<close>

context audio_sink
begin

text \<open>A client that waits for the pieces of a stream, after which the sink's device is as in \<open>d\<close>.\<close>

definition hears :: "packet_cfg_ack \<Rightarrow> 'a client_scheme \<Rightarrow> bytes \<Rightarrow> piece list \<Rightarrow> 'a client_scheme \<Rightarrow> bool" where
  "hears cfg c buf todo d \<longleftrightarrow> 16 + 1024 \<le> length buf \<and>
     (c_state c = STATE_SYN_SENT \<and> os_send_error (c_os c) = (\<lambda>_. None) \<and>
      (\<exists>data d0. todo = Config # pieces data \<and> play (format_chunk cfg) (create_logic snk c) = Ok (True, d0) \<and>
         takes (format_chunk cfg) (chunks data) d0 d) \<or>
      established c \<and> (\<exists>data. todo = pieces data \<and> takes (c_chunk c) (chunks data) c d))"

lemma hears_something: "hears cfg c buf todo d \<Longrightarrow> todo \<noteq> []"
  by (auto simp: hears_def)

lemma loop_one:
  assumes "client_received snk b (c, buf) = Ok (0, c', buf')" "c_state c \<noteq> STATE_FINISHED"
  shows "client_loop snk [Received b] (c, buf) =
    Ok (if c_state c' = STATE_FINISHED then Inr (0, c') else Inl (c', buf'))"
  using assms by simp

text \<open>The configuration establishes the session, and the sink has asked for chunks.\<close>

lemma client_takes_config:
  assumes "c_state c = STATE_SYN_SENT" "os_send_error (c_os c) = (\<lambda>_. None)" "24 \<le> length buf" "config_packet cfg q"
    and "sent_seq q = c_ack c" "length pad = 2" "play (format_chunk cfg) (create_logic snk c) = Ok (True, d0)"
  shows "\<exists>c' buf' acks. client_loop snk [Received (packet_bytes pad q)] (c, buf) = Ok (Inl (c', buf')) \<and>
    length buf' = length buf \<and> established c' \<and> chunk_with (c_chunk c') [] = chunk_with (format_chunk cfg) [] \<and>
    device c' = device d0 \<and> os_sent (c_os c') = os_sent (c_os c) @ map (Pair ()) acks \<and>
    numbered (c_seq c) acks \<and> list_all is_ack acks \<and> length acks = 3 \<and> c_seq c' = seq_after (c_seq c) acks \<and>
    c_ack c' = seq_after (c_ack c) [q]"
proof -
  obtain x where q: "packet_ok q" "\<not> flag_isset (sent_flags q) FLAG_RST"
    "pk_payload q = cfg_ack_image [x] (cfg_ack_encode cfg)"
    using assms(4) by (auto simp: config_packet_def)
  obtain c' buf' a1 a2 a3 where r: "client_received snk (packet_bytes pad q) (c, buf) = Ok (0, c', buf')"
    "length buf' = length buf" "established c'"
    "os_sent (c_os c') = os_sent (c_os c) @ [((), a1), ((), a2), ((), a3)]"
    "ack_of a1 (c_seq c) (c_ack c') CLIENT_WINDOW_SIZE" "ack_of a2 (c_seq c + 1) (c_ack c') CLIENT_WINDOW_SIZE"
    "ack_of a3 (c_seq c + 2) (c_ack c') CLIENT_WINDOW_SIZE" "c_seq c' = c_seq c + 3" "c_ack c' = sent_seq q + 8"
    "device c' = device d0" "\<forall>x. chunk_with (c_chunk c') x = chunk_with (format_chunk cfg) x"
    using receive_config_packet [OF assms(1,2) q(1) assms(5) q(2,3) assms(3,6,7)] by blast
  have state: "c_state c' = STATE_ESTABLSH" "c_state c \<noteq> STATE_FINISHED"
    using r(3) assms(1) by (simp_all add: established_def)
  have "client_loop snk [Received (packet_bytes pad q)] (c, buf) = Ok (Inl (c', buf'))"
    unfolding loop_one [OF r(1) state(2)] by (simp add: state(1))
  moreover have "length (pk_payload q) = 8"
    by (simp add: q(3) image_simps)
  ultimately show ?thesis
    using r(2-11) ack_of_is_ack [OF r(5)] ack_of_is_ack [OF r(6)] ack_of_is_ack [OF r(7)] assms(5)
    by (intro exI [of _ c'] exI [of _ buf'] exI [of _ "[a1, a2, a3]"]) (simp add: seq_step_def is_ack_def)
qed

lemma client_hears_config:
  assumes "hears cfg c buf (Config # xs) d" "config_packet cfg q" "sent_seq q = c_ack c" "length pad = 2"
  shows "\<exists>c' buf' acks. client_loop snk [Received (packet_bytes pad q)] (c, buf) = Ok (Inl (c', buf')) \<and>
    hears cfg c' buf' xs d \<and> os_sent (c_os c') = os_sent (c_os c) @ map (Pair ()) acks \<and>
    numbered (c_seq c) acks \<and> list_all is_ack acks \<and> length acks = 3 \<and> c_seq c' = seq_after (c_seq c) acks \<and>
    c_ack c' = seq_after (c_ack c) [q]"
proof -
  have "Config # xs \<noteq> pieces data" for data
    by (cases "data = []") simp_all
  then obtain data d0 where c: "c_state c = STATE_SYN_SENT" "os_send_error (c_os c) = (\<lambda>_. None)" "xs = pieces data"
    "play (format_chunk cfg) (create_logic snk c) = Ok (True, d0)" "takes (format_chunk cfg) (chunks data) d0 d"
    and len: "16 + 1024 \<le> length buf"
    using assms(1) by (auto simp: hears_def)
  have len': "24 \<le> length buf"
    using len by simp
  obtain c' buf' acks where r: "client_loop snk [Received (packet_bytes pad q)] (c, buf) = Ok (Inl (c', buf'))"
    "length buf' = length buf" "established c'" "chunk_with (c_chunk c') [] = chunk_with (format_chunk cfg) []"
    "device c' = device d0" "os_sent (c_os c') = os_sent (c_os c) @ map (Pair ()) acks" "numbered (c_seq c) acks"
    "list_all is_ack acks" "length acks = 3" "c_seq c' = seq_after (c_seq c) acks" "c_ack c' = seq_after (c_ack c) [q]"
    using client_takes_config [OF c(1,2) len' assms(2-4) c(4)] by blast
  have "takes (c_chunk c') (chunks data) c' d"
    using takes_device [OF c(5) r(5)] takes_format [OF r(4)] by simp
  then have "hears cfg c' buf' xs d"
    using len r(2,3) c(3) by (auto simp: hears_def)
  with r(1,6-11) show ?thesis
    by (intro exI [of _ c'] exI [of _ buf'] exI [of _ acks]) (simp only: simp_thms)
qed

text \<open>A packet whose sequence number is an old one changes nothing but the receive buffer.\<close>

lemma client_ignores:
  assumes "c_state c \<noteq> STATE_FINISHED" "16 + 1024 \<le> length buf" "packet_ok q" "sent_seq q < c_ack c" "length pad = 2"
  shows "\<exists>buf'. client_loop snk [Received (packet_bytes pad q)] (c, buf) = Ok (Inl (c, buf')) \<and> length buf' = length buf"
proof -
  let ?h = "header_decode (pk_header q)"
  let ?buf = "header_image pad ?h @ pk_payload q @ drop (16 + length (pk_payload q)) buf"
  have fits: "16 + length (pk_payload q) \<le> length buf"
    using assms(2,3) by (simp add: packet_ok_def)
  have "client_received snk (packet_bytes pad q) (c, buf) = Ok (0, c, ?buf)"
    using packet_received [OF assms(5) fits] hdr.load_image [OF assms(5), of ?h] assms(4)
    by (simp add: client_received_def sas_client_session_state_machine_def sent_seq_def)
  from loop_one [OF this assms(1)] show ?thesis
    using assms(1,5) fits by (simp add: image_simps)
qed

text \<open>
  A chunk whose sequence number is not an old one is given to the sink and acknowledged
  twice, whatever came before it.
\<close>

lemma client_takes_chunk:
  assumes "established c" "16 + 1024 \<le> length buf" "is_piece cfg (Chunk b) q" "\<not> sent_seq q < c_ack c" "length pad = 2"
    and "chunk_with (c_chunk c) [] = chunk_with f []"
    and "\<And>rest. \<exists>x. play (raw_chunk f b rest) c = Ok (True, x) \<and> device x = device e"
  shows "\<exists>c' buf' acks. client_loop snk [Received (packet_bytes pad q)] (c, buf) = Ok (Inl (c', buf')) \<and>
    length buf' = length buf \<and> established c' \<and> chunk_with (c_chunk c') [] = chunk_with f [] \<and> device c' = device e \<and>
    os_sent (c_os c') = os_sent (c_os c) @ map (Pair ()) acks \<and>
    numbered (c_seq c) acks \<and> list_all is_ack acks \<and> length acks = 2 \<and> c_seq c' = seq_after (c_seq c) acks \<and>
    c_ack c' = seq_after (sent_seq q) [q]"
proof -
  have q: "packet_ok q" "\<not> flag_isset (sent_flags q) FLAG_RST" "pk_payload q = b"
    using assms(3) by (simp_all add: flag_isset_def FLAG_RST_def)
  then have fits: "16 + length (pk_payload q) \<le> length buf"
    using assms(2) by (simp add: packet_ok_def)
  obtain x where x: "play (raw_chunk (c_chunk c) (pk_payload q) (drop (16 + length (pk_payload q)) buf)) c = Ok (True, x)"
    "device x = device e"
    using assms(7) q(3) raw_chunk_format [OF assms(6)] by metis
  obtain c' buf' a1 a2 where r: "client_received snk (packet_bytes pad q) (c, buf) = Ok (0, c', buf')"
    "length buf' = length buf" "established c'" "os_sent (c_os c') = os_sent (c_os c) @ [((), a1), ((), a2)]"
    "ack_of a1 (c_seq c) (c_ack c') CLIENT_WINDOW_SIZE" "ack_of a2 (c_seq c + 1) (c_ack c') 0" "c_seq c' = c_seq c + 2"
    "c_ack c' = sent_seq q + seq_step (of_nat (length (pk_payload q)))" "device c' = device x"
    "\<forall>x. chunk_with (c_chunk c') x = chunk_with (c_chunk c) x"
    using receive_raw_packet [OF assms(1) q(1) assms(4) q(2) fits assms(5) x(1)] by blast
  have state: "c_state c' = STATE_ESTABLSH" "c_state c \<noteq> STATE_FINISHED"
    using r(3) assms(1) by (simp_all add: established_def)
  have "client_loop snk [Received (packet_bytes pad q)] (c, buf) = Ok (Inl (c', buf'))"
    unfolding loop_one [OF r(1) state(2)] by (simp add: state(1))
  then show ?thesis
    using r(2-10) x(2) assms(6) ack_of_is_ack [OF r(5)] ack_of_is_ack [OF r(6)]
    by (intro exI [of _ c'] exI [of _ buf'] exI [of _ "[a1, a2]"]) (simp add: seq_step_def is_ack_def)
qed

lemma client_hears_chunk:
  assumes "hears cfg c buf (Chunk b # xs) d" "is_piece cfg (Chunk b) q" "sent_seq q = c_ack c" "length pad = 2"
  shows "\<exists>c' buf' acks. client_loop snk [Received (packet_bytes pad q)] (c, buf) = Ok (Inl (c', buf')) \<and>
    hears cfg c' buf' xs d \<and> os_sent (c_os c') = os_sent (c_os c) @ map (Pair ()) acks \<and>
    numbered (c_seq c) acks \<and> list_all is_ack acks \<and> length acks = 2 \<and> c_seq c' = seq_after (c_seq c) acks \<and>
    c_ack c' = seq_after (c_ack c) [q]"
proof -
  obtain data where c: "established c" "Chunk b # xs = pieces data" "takes (c_chunk c) (chunks data) c d"
    and len: "16 + 1024 \<le> length buf"
    using assms(1) by (auto simp: hears_def)
  have ne: "data \<noteq> []"
    using c(2) by auto
  then have b: "b = take 1024 data" "xs = pieces (drop 1024 data)"
    using c(2) by simp_all
  obtain e where e: "\<forall>rest. \<exists>x. play (raw_chunk (c_chunk c) b rest) c = Ok (True, x) \<and> device x = device e"
    "takes (c_chunk c) (chunks (drop 1024 data)) e d"
    using c(3) ne b(1) by auto
  have new: "\<not> sent_seq q < c_ack c"
    by (simp add: assms(3))
  obtain c' buf' acks where r: "client_loop snk [Received (packet_bytes pad q)] (c, buf) = Ok (Inl (c', buf'))"
    "length buf' = length buf" "established c'" "chunk_with (c_chunk c') [] = chunk_with (c_chunk c) []" "device c' = device e"
    "os_sent (c_os c') = os_sent (c_os c) @ map (Pair ()) acks" "numbered (c_seq c) acks" "list_all is_ack acks"
    "length acks = 2" "c_seq c' = seq_after (c_seq c) acks" "c_ack c' = seq_after (sent_seq q) [q]"
    using client_takes_chunk [OF c(1) len assms(2) new assms(4) refl, of e] e(1) by blast
  have "takes (c_chunk c') (chunks (drop 1024 data)) c' d"
    using takes_device [OF e(2) r(5)] takes_format [OF r(4)] by simp
  then have "hears cfg c' buf' xs d"
    using len r(2,3) b(2) by (auto simp: hears_def)
  with r(1,6-11) assms(3) show ?thesis
    by (intro exI [of _ c'] exI [of _ buf'] exI [of _ acks]) (simp only: simp_thms)
qed

lemma client_hears_end:
  assumes "hears cfg c buf (End # xs) d" "fin_packet q" "sent_seq q = c_ack c" "length pad = 2"
  shows "\<exists>c'. client_loop snk [Received (packet_bytes pad q)] (c, buf) = Ok (Inr (0, c')) \<and>
    c_os c' = c_os c \<and> device c' = device d \<and> c_seq c' = c_seq c \<and> xs = []"
proof -
  obtain data where c: "established c" "End # xs = pieces data" "takes (c_chunk c) (chunks data) c d"
    and len: "16 + 1024 \<le> length buf"
    using assms(1) by (auto simp: hears_def)
  have "data = []"
    using c(2) by (cases "data = []") simp_all
  then have d: "device d = device c" "xs = []"
    using c(2,3) by simp_all
  have "\<not> sent_seq q < c_ack c" "16 \<le> length buf" "c_state c \<noteq> STATE_FINISHED"
    using assms(3) len c(1) by (simp_all add: established_def)
  from client_loop_fin [OF assms(2) this(1,2) assms(4) this(3), of snk "[]"] show ?thesis
    using d by auto
qed

lemma client_hears:
  assumes "hears cfg c buf (x # xs) d" "is_piece cfg x q" "x \<noteq> End" "sent_seq q = c_ack c" "length pad = 2"
  shows "\<exists>c' buf' acks. client_loop snk [Received (packet_bytes pad q)] (c, buf) = Ok (Inl (c', buf')) \<and>
    hears cfg c' buf' xs d \<and> os_sent (c_os c') = os_sent (c_os c) @ map (Pair ()) acks \<and>
    numbered (c_seq c) acks \<and> list_all is_ack acks \<and> acks \<noteq> [] \<and> length acks \<le> 3 \<and>
    c_seq c' = seq_after (c_seq c) acks \<and> c_ack c' = seq_after (c_ack c) [q]"
proof (cases x)
  case Config
  then have "config_packet cfg q"
    using assms(2) by simp
  with client_hears_config [OF assms(1) [unfolded Config] this assms(4,5)] show ?thesis
    by (metis eq_refl list.size(3) numeral_3_eq_3 old.nat.distinct(1))
next
  case (Chunk b)
  obtain c' buf' acks where r: "client_loop snk [Received (packet_bytes pad q)] (c, buf) = Ok (Inl (c', buf'))"
    "hears cfg c' buf' xs d" "os_sent (c_os c') = os_sent (c_os c) @ map (Pair ()) acks" "numbered (c_seq c) acks"
    "list_all is_ack acks" "length acks = 2" "c_seq c' = seq_after (c_seq c) acks" "c_ack c' = seq_after (c_ack c) [q]"
    using client_hears_chunk [OF assms(1,2) [unfolded Chunk] assms(4,5)] by blast
  moreover have "acks \<noteq> []" "length acks \<le> 3"
    using r(6) by auto
  ultimately show ?thesis by blast
qed (use assms(3) in simp)

section \<open>The stream on its way\<close>

text \<open>
  The invariant: what the client waits for is what is on its way to it and
  what the server has not sent yet, in order; the packets on their way are numbered
  as their receivers expect; and as long as the server has something to send,
  a packet is on its way in one of the directions.
\<close>

definition at_client :: "packet_cfg_ack \<Rightarrow> sockaddr6 \<Rightarrow> 'a client_scheme \<Rightarrow> session \<Rightarrow> piece list \<Rightarrow>
    'a client_scheme network \<Rightarrow> bool" where
  "at_client cfg a d s todo n \<longleftrightarrow>
     (\<exists>c buf rest. net_client n = Inl (c, buf) \<and> hears cfg c buf (rest @ todo) d \<and>
        list_all2 (is_piece cfg) rest (down_flight a n) \<and> numbered (c_ack c) (down_flight a n) \<and>
        seq_after (c_ack c) (down_flight a n) = s_seq s \<and> seq_after (s_ack s) (up_flight n) = c_seq c \<and>
        (todo \<noteq> [] \<and> down_flight a n = [] \<longrightarrow> up_flight n \<noteq> [])) \<or>
     (\<exists>c. net_client n = Inr (0, c) \<and> device c = device d \<and> todo = [])"

definition flowing :: "packet_cfg_ack \<Rightarrow> sockaddr6 \<Rightarrow> 'a client_scheme \<Rightarrow> nat \<Rightarrow> 'a client_scheme network \<Rightarrow> bool" where
  "flowing cfg a d k n \<longleftrightarrow> net_up n \<le> length (up_packets n) \<and> net_down n \<le> length (down_packets a n) \<and>
     (\<exists>srv sbuf p s todo. net_server n = Inl (srv, sbuf) \<and> 16 \<le> length sbuf \<and> sends srv p a s todo \<and>
        length todo = k \<and> numbered (s_ack s) (up_flight n) \<and> list_all is_ack (up_flight n) \<and>
        at_client cfg a d s todo n)"

definition weight :: "sockaddr6 \<Rightarrow> nat \<Rightarrow> 'a client_scheme network \<Rightarrow> nat" where
  "weight a k n = length (up_flight n) + 5 * length (down_flight a n) + 6 * k"

lemma flow_up:
  assumes flow: "flowing cfg a d k n" and a: "addr_ok a" and en: "enabled a To_Server n" and pad: "length pad = 2"
  shows "\<exists>n' k'. deliver snk a pad To_Server n = Ok n' \<and> flowing cfg a d k' n' \<and> weight a k' n' < weight a k n"
proof -
  obtain srv sbuf p s todo where f: "net_server n = Inl (srv, sbuf)" "16 \<le> length sbuf" "sends srv p a s todo"
    "length todo = k" "numbered (s_ack s) (up_flight n)" "list_all is_ack (up_flight n)" "at_client cfg a d s todo n"
    and le: "net_up n \<le> length (up_packets n)" "net_down n \<le> length (down_packets a n)"
    using flow by (auto simp: flowing_def)
  obtain q qs where up: "up_flight n = q # qs"
    using en unfolding enabled_flight(1) by (cases "up_flight n") auto
  have q: "is_ack q" "sent_seq q = s_ack s"
    using f(5,6) by (simp_all add: up)
  obtain srv' s' sbuf' pks where r: "server_round (Datagram a (packet_bytes pad q)) (srv, sbuf) = Ok (Inl (srv', sbuf'))"
    "length sbuf' = length sbuf" "os_sent srv' = os_sent srv @ map (Pair a) pks" "list_all2 (is_piece cfg) (take 1 todo) pks"
    "numbered (s_seq s) pks" "s_seq s' = seq_after (s_seq s) pks" "s_ack s' = seq_after (s_ack s) [q]"
    "sends srv' p a s' (drop 1 todo)"
    using server_sends [OF f(3) a f(2) q pad] by blast
  obtain n' where n': "deliver snk a pad To_Server n = Ok n'" "net_server n' = Inl (srv', sbuf')"
    "net_client n' = net_client n" "up_flight n' = qs" "down_flight a n' = down_flight a n @ pks"
    "net_down n' \<le> length (down_packets a n')"
    using arrives_at_server [OF f(1) up r(1) _ le(2)] r(3) by auto
  have len: "length pks = length (take 1 todo)"
    using list_all2_lengthD [OF r(4)] by simp
  have "at_client cfg a d s' (drop 1 todo) n'"
    using f(7) unfolding at_client_def
  proof (elim disjE exE conjE)
    fix c buf rest
    assume c: "net_client n = Inl (c, buf)" "hears cfg c buf (rest @ todo) d" "list_all2 (is_piece cfg) rest (down_flight a n)"
      "numbered (c_ack c) (down_flight a n)" "seq_after (c_ack c) (down_flight a n) = s_seq s"
      "seq_after (s_ack s) (up_flight n) = c_seq c"
    have "drop 1 todo \<noteq> [] \<longrightarrow> pks \<noteq> []"
      using len by (cases todo) auto
    moreover have "hears cfg c buf ((rest @ take 1 todo) @ drop 1 todo) d"
      using c(2) by simp
    moreover have "list_all2 (is_piece cfg) (rest @ take 1 todo) (down_flight a n @ pks)"
      using c(3) r(4) by (rule list_all2_appendI)
    ultimately show "(\<exists>c buf rest. net_client n' = Inl (c, buf) \<and> hears cfg c buf (rest @ drop 1 todo) d \<and>
        list_all2 (is_piece cfg) rest (down_flight a n') \<and> numbered (c_ack c) (down_flight a n') \<and>
        seq_after (c_ack c) (down_flight a n') = s_seq s' \<and> seq_after (s_ack s') (up_flight n') = c_seq c \<and>
        (drop 1 todo \<noteq> [] \<and> down_flight a n' = [] \<longrightarrow> up_flight n' \<noteq> [])) \<or>
      (\<exists>c. net_client n' = Inr (0, c) \<and> device c = device d \<and> drop 1 todo = [])"
      using c(1,4-6) r(5-7) n'(3-5) up
      by (intro disjI1 exI [of _ c] exI [of _ buf] exI [of _ "rest @ take 1 todo"])
        (simp, blast)
  qed (use n'(3) in simp)
  moreover have "net_up n' \<le> length (up_packets n')"
    using deliver_other(1) [OF n'(1)] en by simp
  ultimately have "flowing cfg a d (k - 1) n'"
    using n'(2,4,6) r(2,7,8) f(2,4-6) up unfolding flowing_def
    by (intro conjI exI [of _ srv'] exI [of _ sbuf'] exI [of _ p] exI [of _ s'] exI [of _ "drop 1 todo"]) simp_all
  moreover have "weight a (k - 1) n' < weight a k n"
    using f(4) len up n'(4,5) by (cases todo) (simp_all add: weight_def)
  ultimately show ?thesis
    using n'(1) by blast
qed

lemma flow_down:
  assumes flow: "flowing cfg a d k n" and en: "enabled a To_Client n" and pad: "length pad = 2"
  shows "\<exists>n' k'. deliver snk a pad To_Client n = Ok n' \<and> flowing cfg a d k' n' \<and> weight a k' n' < weight a k n"
proof -
  obtain srv sbuf p s todo where f: "net_server n = Inl (srv, sbuf)" "16 \<le> length sbuf" "sends srv p a s todo"
    "length todo = k" "numbered (s_ack s) (up_flight n)" "list_all is_ack (up_flight n)" "at_client cfg a d s todo n"
    and le: "net_up n \<le> length (up_packets n)" "net_down n \<le> length (down_packets a n)"
    using flow by (auto simp: flowing_def)
  obtain q qs where down: "down_flight a n = q # qs"
    using en unfolding enabled_flight(2) by (cases "down_flight a n") auto
  obtain c buf rest where c: "net_client n = Inl (c, buf)" "hears cfg c buf (rest @ todo) d"
    "list_all2 (is_piece cfg) rest (q # qs)" "numbered (c_ack c) (q # qs)" "seq_after (c_ack c) (q # qs) = s_seq s"
    "seq_after (s_ack s) (up_flight n) = c_seq c"
    using f(7) en down by (auto simp: at_client_def)
  then obtain x xs where x: "rest = x # xs" "is_piece cfg x q" "list_all2 (is_piece cfg) xs qs"
    by (auto simp: list_all2_Cons2)
  have hx: "hears cfg c buf (x # xs @ todo) d" "sent_seq q = c_ack c"
    using c(2,4) x(1) by simp_all
  show ?thesis
  proof (cases "x = End")
    case True
    obtain c' where r: "client_loop snk [Received (packet_bytes pad q)] (c, buf) = Ok (Inr (0, c'))"
      "c_os c' = c_os c" "device c' = device d" "c_seq c' = c_seq c" "xs @ todo = []"
      using client_hears_end [OF hx(1) [unfolded True] _ hx(2) pad] x(2) True by auto
    obtain n' where n': "deliver snk a pad To_Client n = Ok n'" "net_client n' = Inr (0, c')" "net_server n' = net_server n"
      "down_flight a n' = qs" "up_flight n' = up_flight n" "net_up n' \<le> length (up_packets n')"
      using arrives_at_client [OF c(1) down r(1) _ le(1), of "[]"] r(2) by auto
    have "flowing cfg a d k n'"
      using f n' r(3,5) deliver_other(2) [OF n'(1)] en unfolding flowing_def at_client_def
      by (intro conjI exI [of _ srv] exI [of _ sbuf] exI [of _ p] exI [of _ s] exI [of _ todo] disjI2 exI [of _ c']) simp_all
    then show ?thesis
      using n'(1,4,5) down by (intro exI [of _ n'] exI [of _ k]) (simp add: weight_def)
  next
    case False
    obtain c' buf' acks where r: "client_loop snk [Received (packet_bytes pad q)] (c, buf) = Ok (Inl (c', buf'))"
      "hears cfg c' buf' (xs @ todo) d" "os_sent (c_os c') = os_sent (c_os c) @ map (Pair ()) acks" "numbered (c_seq c) acks"
      "list_all is_ack acks" "acks \<noteq> []" "length acks \<le> 3" "c_seq c' = seq_after (c_seq c) acks" "c_ack c' = seq_after (c_ack c) [q]"
      using client_hears [OF hx(1) x(2) False hx(2) pad] by blast
    obtain n' where n': "deliver snk a pad To_Client n = Ok n'" "net_client n' = Inl (c', buf')" "net_server n' = net_server n"
      "down_flight a n' = qs" "up_flight n' = up_flight n @ acks" "net_up n' \<le> length (up_packets n')"
      using arrives_at_client [OF c(1) down r(1) _ le(1)] r(3) by auto
    have "at_client cfg a d s todo n'"
      unfolding at_client_def
      using n' r(2,6,8,9) x(3) c(4-6)
      by (intro disjI1 exI [of _ c'] exI [of _ buf'] exI [of _ xs]) simp
    then have "flowing cfg a d k n'"
      using f(1-6) n' r(4,5) c(6) deliver_other(2) [OF n'(1)] en unfolding flowing_def
      by (intro conjI exI [of _ srv] exI [of _ sbuf] exI [of _ p] exI [of _ s] exI [of _ todo]) simp_all
    then show ?thesis
      using n'(1,4,5) r(7) down by (intro exI [of _ n'] exI [of _ k]) (simp add: weight_def)
  qed
qed

lemma flow_ends:
  assumes "flowing cfg a d k n" "\<And>m. \<not> enabled a m n"
  shows "\<exists>c. net_client n = Inr (0, c) \<and> device c = device d"
proof -
  obtain srv sbuf p s todo where f: "net_server n = Inl (srv, sbuf)" "at_client cfg a d s todo n"
    using assms(1) by (auto simp: flowing_def)
  have up: "up_flight n = []"
    using assms(2) [of To_Server] f(1) unfolding enabled_flight(1) by simp
  have "isl (net_client n) \<Longrightarrow> down_flight a n = []"
    using assms(2) [of To_Client] unfolding enabled_flight(2) by simp
  with f(2) up show ?thesis
    using hears_something by (auto simp: at_client_def)
qed

text \<open>The first step, in which the client's request arrives.\<close>

lemma flow_starts:
  assumes srv: "can_serve srv a name w data" "length name < 2 ^ 15 - 1" "0 \<notin> set name" "17 + length name \<le> length sbuf"
    and c: "os_send_error (c_os c) = (\<lambda>_. None)" "c_ack c = 0" "16 + 1024 \<le> length buf"
    and play: "play (format_chunk (server_cfg srv w)) (create_logic snk c) = Ok (True, d0)"
      "takes (format_chunk (server_cfg srv w)) (chunks data) d0 d"
  shows "\<exists>n0. net_start a name (c, buf) (srv, sbuf) = Ok n0 \<and> enabled a To_Server n0 \<and> \<not> enabled a To_Client n0 \<and>
    (\<forall>pad. length pad = 2 \<longrightarrow> (\<exists>n1. deliver snk a pad To_Server n0 = Ok n1 \<and>
      flowing (server_cfg srv w) a d (length (chunks data) + 1) n1 \<and>
      weight a (length (chunks data) + 1) n1 = 6 * length (chunks data) + 11))"
proof -
  let ?cfg = "server_cfg srv w"
  obtain c1 q h where syn: "sas_client_session_syn c name = Ok (0, c1)" "c_state c1 = STATE_SYN_SENT"
    "os_sent (c_os c1) = os_sent (c_os c) @ [((), q)]" "\<forall>pad. packet_bytes pad q = syn_datagram pad h name"
    "hd_flags h = FLAG_SYN" "hd_seq h = c_seq c" "hd_length h = of_nat (Suc (length name))"
    "c_seq c1 = c_seq c + seq_step (of_nat (Suc (length name)))" "c_ack c1 = c_ack c"
    "os_send_error (c_os c1) = (\<lambda>_. None)" "device c1 = device c"
    using client_syn [OF c(1) srv(2)] by blast
  let ?n0 = "\<lparr>net_server = Inl (srv, sbuf), net_client = Inl (c1, buf), net_up = length (os_sent (c_os c)),
    net_down = length (sent_to a srv)\<rparr>"
  have start: "net_start a name (c, buf) (srv, sbuf) = Ok ?n0"
    using syn(1) by (simp add: net_start_def)
  have up: "up_flight ?n0 = [q]" "down_flight a ?n0 = []" "net_up ?n0 \<le> length (up_packets ?n0)"
    "net_down ?n0 \<le> length (down_packets a ?n0)"
    using syn(3) by (simp_all add: up_flight_def up_packets_def down_flight_def down_packets_def)
  obtain e where e: "play (format_chunk ?cfg) (create_logic snk c1) = Ok (True, e)" "device e = device d0"
    using play_device [OF play(1) create_device [OF syn(11)]] by blast
  have hears: "hears ?cfg c1 buf ([Config] @ pieces data) d"
    unfolding hears_def using syn(2,10) c(3) e(1) takes_device [OF play(2) e(2)] by auto
  have arrives: "\<exists>n1. deliver snk a pad To_Server ?n0 = Ok n1 \<and> flowing ?cfg a d (length (chunks data) + 1) n1 \<and>
      weight a (length (chunks data) + 1) n1 = 6 * length (chunks data) + 11" if pad: "length pad = 2" for pad
  proof -
    have "length name < 2 ^ 16 - 1"
      using srv(2) by simp
    then obtain srv' p s' sbuf' pk where r: "server_round (Datagram a (syn_datagram pad h name)) (srv, sbuf) = Ok (Inl (srv', sbuf'))"
      "length sbuf' = length sbuf" "os_sent srv' = os_sent srv @ map (Pair a) [pk]" "sent_seq pk = 0"
      "config_packet ?cfg pk" "s_seq s' = seq_after 0 [pk]" "s_ack s' = hd_seq h + seq_step (hd_length h)"
      "sends srv' p a s' (pieces data)"
      using server_opens [OF srv(1) pad syn(7) _ srv(3) syn(5) srv(4)] by blast
    have "server_round (Datagram a (packet_bytes pad q)) (srv, sbuf) = Ok (Inl (srv', sbuf'))"
      using r(1) syn(4) by simp
    then obtain n1 where n1: "deliver snk a pad To_Server ?n0 = Ok n1" "net_server n1 = Inl (srv', sbuf')"
      "net_client n1 = Inl (c1, buf)" "up_flight n1 = []" "down_flight a n1 = [pk]"
      "net_down n1 \<le> length (down_packets a n1)"
      using arrives_at_server [OF _ up(1) _ _ up(4), of "(srv, sbuf)" pad srv' sbuf' "[pk]"] r(3) up(2) by auto
    have "at_client ?cfg a d s' (pieces data) n1"
      unfolding at_client_def using n1(3-5) hears r(4-7) c(2) syn(6-9)
      by (intro disjI1 exI [of _ c1] exI [of _ buf] exI [of _ "[Config]"]) simp
    moreover have "net_up n1 \<le> length (up_packets n1)"
      using deliver_other(1) [OF n1(1)] syn(3) by (simp add: up_packets_def)
    ultimately have "flowing ?cfg a d (length (chunks data) + 1) n1"
      using n1(2,4,6) r(2,8) srv(4) unfolding flowing_def
      by (intro conjI exI [of _ srv'] exI [of _ sbuf'] exI [of _ p] exI [of _ s'] exI [of _ "pieces data"]) simp_all
    then show ?thesis
      using n1 by (intro exI [of _ n1]) (simp add: weight_def)
  qed
  show ?thesis
    using start up(1,2) arrives unfolding enabled_flight by (intro exI [of _ ?n0]) simp
qed

lemma flow_step:
  assumes "flowing cfg a d k n" "addr_ok a" "enabled a m n" "length pad = 2"
  shows "\<exists>n' k'. deliver snk a pad m n = Ok n' \<and> flowing cfg a d k' n' \<and> weight a k' n' < weight a k n"
proof (cases m)
  case To_Server
  then show ?thesis
    using flow_up [OF assms(1,2) _ assms(4)] assms(3) by blast
next
  case To_Client
  then show ?thesis
    using flow_down [OF assms(1) _ assms(4)] assms(3) by blast
qed

lemma flow_runs:
  assumes starts: "\<And>pad. length pad = 2 \<Longrightarrow> \<exists>n1. deliver snk a pad To_Server n0 = Ok n1 \<and> flowing cfg a d i n1 \<and> weight a i n1 = b"
    and only: "\<not> enabled a To_Client n0" and a: "addr_ok a" and run: "net_run snk a n0 k n"
  shows "k = 0 \<and> n = n0 \<or> (\<exists>j. flowing cfg a d j n \<and> weight a j n + k \<le> b + 1)"
  using run
proof induction
  case (step k n n')
  obtain m pad where m: "enabled a m n" "length pad = 2" "deliver snk a pad m n = Ok n'"
    using step.hyps(2) by (auto elim: net_stepE)
  from step.IH show ?case
  proof (elim disjE conjE exE)
    assume n: "k = 0" "n = n0"
    then have "m = To_Server"
      using m(1) only by (cases m) simp_all
    with starts [OF m(2)] m(3) n show ?thesis by auto
  next
    fix j
    assume j: "flowing cfg a d j n" "weight a j n + k \<le> b + 1"
    obtain j' where "flowing cfg a d j' n'" "weight a j' n' < weight a j n"
      using flow_step [OF j(1) a m(1,2)] m(3) by auto
    with j(2) show ?thesis
      by (intro disjI2 exI [of _ j']) simp
  qed
qed simp

lemma stream_flows:
  assumes srv: "can_serve srv a name w data" "length name < 2 ^ 15 - 1" "0 \<notin> set name" "17 + length name \<le> length sbuf"
    and c: "os_send_error (c_os c) = (\<lambda>_. None)" "c_ack c = 0" "16 + 1024 \<le> length buf"
    and play: "play (format_chunk (server_cfg srv w)) (create_logic snk c) = Ok (True, d0)"
      "takes (format_chunk (server_cfg srv w)) (chunks data) d0 d"
    and start: "net_start a name (c, buf) (srv, sbuf) = Ok n0" and run: "net_run snk a n0 k n"
  shows "k \<le> 6 * length (chunks data) + 12"
    and "length pad = 2 \<Longrightarrow> enabled a m n \<Longrightarrow> \<exists>n'. deliver snk a pad m n = Ok n'"
    and "(\<And>m. \<not> enabled a m n) \<Longrightarrow> \<exists>c'. net_client n = Inr (0, c') \<and> device c' = device d"
proof -
  let ?k = "length (chunks data) + 1" and ?cfg = "server_cfg srv w"
  have n0: "enabled a To_Server n0" "\<not> enabled a To_Client n0"
    "\<And>pad. length pad = 2 \<Longrightarrow> \<exists>n1. deliver snk a pad To_Server n0 = Ok n1 \<and> flowing ?cfg a d ?k n1 \<and>
      weight a ?k n1 = 6 * length (chunks data) + 11"
    using flow_starts [OF srv c play] start by (auto simp del: enabled.simps deliver.simps)
  have a: "addr_ok a"
    using srv(1) by (simp add: can_serve_def)
  have cases: "k = 0 \<and> n = n0 \<or> (\<exists>j. flowing ?cfg a d j n \<and> weight a j n + k \<le> 6 * length (chunks data) + 11 + 1)"
    by (rule flow_runs [OF n0(3,2) a run])
  then show "k \<le> 6 * length (chunks data) + 12"
    by auto
  show "\<exists>n'. deliver snk a pad m n = Ok n'" if "length pad = 2" "enabled a m n"
    using cases
  proof (elim disjE conjE exE)
    assume n: "n = n0"
    then have "m = To_Server"
      using that(2) n0(2) by (cases m) simp_all
    with n0(3) [OF that(1)] n show ?thesis by blast
  next
    fix j
    assume "flowing ?cfg a d j n"
    with flow_step [OF this a that(2,1)] show ?thesis by blast
  qed
  show "\<exists>c'. net_client n = Inr (0, c') \<and> device c' = device d" if "\<And>m. \<not> enabled a m n"
    using cases flow_ends that n0(1) by blast
qed

text \<open>The client's start does not fail, and every run can go on to the end.\<close>

lemma stream_starts:
  assumes "can_serve srv a name w data" "length name < 2 ^ 15 - 1" "0 \<notin> set name" "17 + length name \<le> length sbuf"
    and "os_send_error (c_os c) = (\<lambda>_. None)" "c_ack c = 0" "16 + 1024 \<le> length buf"
    and "play (format_chunk (server_cfg srv w)) (create_logic snk c) = Ok (True, d0)"
      "takes (format_chunk (server_cfg srv w)) (chunks data) d0 d"
  shows "\<exists>n0. net_start a name (c, buf) (srv, sbuf) = Ok n0"
  using flow_starts [OF assms] by blast

end

text \<open>Runs whose length is bounded and that never fail can be continued to an end.\<close>

lemma net_run_ends:
  assumes bound: "\<And>k n. net_run snk a n0 k n \<Longrightarrow> k \<le> b"
    and progress: "\<And>k n m. net_run snk a n0 k n \<Longrightarrow> enabled a m n \<Longrightarrow> \<exists>n'. deliver snk a [0, 0] m n = Ok n'"
  shows "\<exists>k n. net_run snk a n0 k n \<and> (\<forall>m. \<not> enabled a m n)"
proof -
  let ?runs = "\<lambda>k. \<exists>n. net_run snk a n0 k n"
  have max: "?runs (GREATEST k. ?runs k)"
    by (rule GreatestI_nat [where b = b]) (use bound net_run.start [of snk a n0] in blast)+
  then obtain n where n: "net_run snk a n0 (GREATEST k. ?runs k) n"
    by blast
  have "\<not> enabled a m n" for m
  proof
    assume m: "enabled a m n"
    then obtain n' where "deliver snk a [0, 0] m n = Ok n'"
      using progress [OF n] by blast
    then have "net_run snk a n0 (Suc (GREATEST k. ?runs k)) n'"
      using n m by (intro net_run.step [OF n] net_step.arrives [where pad = "[0, 0]" and m = m]) simp_all
    then have "Suc (GREATEST k. ?runs k) \<le> (GREATEST k. ?runs k)"
      by (intro Greatest_le_nat [where b = b]) (use bound in blast)+
    then show False by simp
  qed
  with n show ?thesis by blast
qed

section \<open>Files on the sound device and on the ignoring driver\<close>

text \<open>
  The chunks of a file whose last chunk has more than the eight bytes that the client takes off it.
  One of less than eight makes it run off its buffer, and one of eight is taken for a failed write.
\<close>

definition no_short_chunk :: "bytes \<Rightarrow> bool" where
  "no_short_chunk data \<longleftrightarrow> length data mod 1024 = 0 \<or> 8 < length data mod 1024"

lemma no_short_chunk_chunks:
  "no_short_chunk data \<Longrightarrow> list_all audible (chunks data)"
proof (induction data rule: chunks.induct)
  case (1 data)
  show ?case
  proof (cases "data = []")
    case False
    have "no_short_chunk (drop 1024 data)" if "1024 \<le> length data"
      using 1(2) that by (simp add: no_short_chunk_def le_mod_geq)
    moreover have "drop 1024 data = []" "8 < length data" if "length data < 1024"
      using 1(2) that False by (simp_all add: no_short_chunk_def)
    ultimately show ?thesis
      using 1(1) [OF False] False by (cases "length data < 1024") (auto simp: audible_def sizeof_cfg_ack_def)
  qed simp
qed

lemma oss_takes:
  assumes "willing c" "no_short_chunk data"
  shows "\<exists>d0 d. oss_play f (create_logic sas_drivers_oss c) = Ok (True, d0) \<and> oss.takes f (chunks data) d0 d \<and>
    oss_writes d = oss_writes c @ map trim (chunks data)"
  using oss_stream [OF assms(1) no_short_chunk_chunks [OF assms(2)]] .

text \<open>A server with one file for a client at \<open>example_addr 1\<close>, and such a file of ten bytes.\<close>

definition file_server :: "bytes \<Rightarrow> server" where
  "file_server data = sas_server_alloc
     (fresh_os (\<lambda>_. Inr \<lparr>f_rest = wave_header_image 0x20 example_wav @ data, f_err = None\<rparr>) (\<lambda>_. 0))
     (\<lambda>_. True) blank_session []"

lemma file_server_ready: "can_serve (file_server data) (example_addr 1) name example_wav data"
proof -
  have "os_clock (file_server data) = (\<lambda>_. 0)" "os_send_error (file_server data) = (\<lambda>_. None)"
    "os_files (file_server data) = (\<lambda>_. Inr \<lparr>f_rest = wave_header_image 0x20 example_wav @ data, f_err = None\<rparr>)"
    by (simp_all add: file_server_def sas_server_alloc_def fresh_os_def os.defs server.defs)
  moreover have "table_ok (file_server data)" "session_lookup (file_server data) (example_addr 1) = None"
    "srv_malloc_ok (file_server data) (srv_fresh (file_server data))" "th_count (file_server data) = 0"
    "heap_live (file_server data)"
    by (simp_all add: file_server_def table_ok_alloc session_lookup_alloc)
  ultimately show ?thesis
    by (auto simp: can_serve_def SESSION_TIMEOUT_def entries_def)
qed

abbreviation ten_bytes_server :: server where "ten_bytes_server \<equiv> file_server (replicate 10 7)"

lemma ten_bytes_ready: "can_serve ten_bytes_server (example_addr 1) [0x61] example_wav (replicate 10 7)"
  by (rule file_server_ready)

abbreviation example_client_buffer :: bytes where "example_client_buffer \<equiv> replicate client_buffer_size 0"
abbreviation example_server_buffer :: bytes where "example_server_buffer \<equiv> replicate buffer_size 0"

lemma example_ten: "no_short_chunk (replicate 10 7)" "chunks (replicate 10 7) = [replicate 10 7]" "trim (replicate 10 7) = [7, 7]"
  by (simp_all add: no_short_chunk_def trim_def sizeof_cfg_ack_def numeral_2_eq_2)

section \<open>Properties\<close>

text \<open>C1. A file from the server to the sound device, for a device that can be opened, accepts every setting and takes each chunk
  as a whole, where descriptor 0 is in use (\<open>willing\<close>), and a file whose last chunk is longer than eight bytes (\<open>no_short_chunk\<close>; a chunk of less makes
  the client read beyond its buffer, lemma \<open>short_chunk_overruns\<close>, and one of eight is a write of nothing,
  which the driver takes for an error): whatever the order in which the packets of the two programs arrive, as long as
  none is lost or overtaken and the clock leaves the sessions their time, none causes a fault, at most \<open>6 n + 12\<close> arrive for
  \<open>n\<close> chunks, and when no packet is on its way any more (and there is such a run) the client has returned 0, as
  \<open>sas_client_receive\<close> for the packets that it received,
  and the device has been given the chunks of the file in order, each without its last eight bytes.\<close>

theorem file_played:
  assumes "can_serve srv a name w data" "no_short_chunk data" "willing c" "c_ack c = 0"
    and "os_send_error (c_os c) = (\<lambda>_. None)" "length name < 2 ^ 15 - 1" "0 \<notin> set name"
    and "length sbuf = buffer_size" "17 + length name \<le> buffer_size" "length buf = client_buffer_size"
  shows "\<exists>n0. net_start a name (c, buf) (srv, sbuf) = Ok n0 \<and>
    (\<forall>k n. net_run sas_drivers_oss a n0 k n \<longrightarrow> k \<le> 6 * length (chunks data) + 12 \<and>
      (\<forall>m pad. enabled a m n \<longrightarrow> length pad = 2 \<longrightarrow> (\<exists>n'. deliver sas_drivers_oss a pad m n = Ok n'))) \<and>
    (\<exists>k n. net_run sas_drivers_oss a n0 k n \<and> (\<forall>m. \<not> enabled a m n)) \<and>
    (\<forall>k n. net_run sas_drivers_oss a n0 k n \<longrightarrow> (\<forall>m. \<not> enabled a m n) \<longrightarrow>
      (\<exists>es c'. sas_client_receive sas_drivers_oss name es (c, buf) = Ok (Inr (0, c')) \<and>
        net_client n = Inr (0, c') \<and> oss_writes c' = oss_writes c @ map trim (chunks data)))"
proof -
  obtain d0 d where d: "oss_play (format_chunk (server_cfg srv w)) (create_logic sas_drivers_oss c) = Ok (True, d0)"
    "oss.takes (format_chunk (server_cfg srv w)) (chunks data) d0 d" "oss_writes d = oss_writes c @ map trim (chunks data)"
    using oss_takes [OF assms(3,2)] by blast
  have buf: "17 + length name \<le> length sbuf" "16 + 1024 \<le> length buf"
    using assms(8-10) by (simp_all add: client_buffer_size_def)
  note pre = assms(1,6,7) buf(1) assms(5,4) buf(2) d(1,2)
  obtain n0 where n0: "net_start a name (c, buf) (srv, sbuf) = Ok n0"
    using oss.stream_starts [OF pre] by blast
  note flows = oss.stream_flows [OF pre n0]
  have complete: "\<exists>k n. net_run sas_drivers_oss a n0 k n \<and> (\<forall>m. \<not> enabled a m n)"
    by (rule net_run_ends [where b = "6 * length (chunks data) + 12"]) (use flows(1,2) in \<open>simp_all del: enabled.simps\<close>)
  have played: "\<exists>es c'. sas_client_receive sas_drivers_oss name es (c, buf) = Ok (Inr (0, c')) \<and>
      net_client n = Inr (0, c') \<and> oss_writes c' = oss_writes c @ map trim (chunks data)"
    if n: "net_run sas_drivers_oss a n0 k n" "\<forall>m. \<not> enabled a m n" for k n
  proof -
    obtain c' where "net_client n = Inr (0, c')" "device c' = device d"
      using flows(3) [OF n(1)] n(2) by blast
    then show ?thesis
      using net_run_programs [OF n0 n(1)] d(3) by (auto simp: device_oss)
  qed
  show ?thesis
    by (rule exI [of _ n0]) (use n0 flows(1,2) complete played in blast)
qed

text \<open>C6. The exchange ends: with the ignoring driver, which is the one that the client
  program uses, and for a file of any length, at most \<open>6 n + 12\<close> packets arrive
  for a file of \<open>n\<close> chunks, none of them causes a fault, and at the end the client has returned 0.\<close>

theorem exchange_terminates:
  assumes "can_serve srv a name w data" "c_ack c = 0"
    and "os_send_error (c_os c) = (\<lambda>_. None)" "length name < 2 ^ 15 - 1" "0 \<notin> set name"
    and "length sbuf = buffer_size" "17 + length name \<le> buffer_size" "length buf = client_buffer_size"
  shows "\<exists>n0. net_start a name (c, buf) (srv, sbuf) = Ok n0 \<and>
    (\<forall>k n. net_run sas_drivers_ignore a n0 k n \<longrightarrow> k \<le> 6 * length (chunks data) + 12) \<and>
    (\<exists>k n c'. net_run sas_drivers_ignore a n0 k n \<and> (\<forall>m. \<not> enabled a m n) \<and> net_client n = Inr (0, c')) \<and>
    (\<forall>k n. net_run sas_drivers_ignore a n0 k n \<longrightarrow> (\<forall>m. \<not> enabled a m n) \<longrightarrow> (\<exists>c'. net_client n = Inr (0, c')))"
proof -
  have buf: "17 + length name \<le> length sbuf" "16 + 1024 \<le> length buf"
    using assms(6-8) by (simp_all add: client_buffer_size_def)
  note pre = assms(1,4,5) buf(1) assms(3,2) buf(2) refl
  obtain n0 where n0: "net_start a name (c, buf) (srv, sbuf) = Ok n0"
    using ignoring.stream_starts [OF pre ignoring_takes] by blast
  note flows = ignoring.stream_flows [OF pre ignoring_takes n0]
  have "\<exists>k n. net_run sas_drivers_ignore a n0 k n \<and> (\<forall>m. \<not> enabled a m n)"
    by (rule net_run_ends [where b = "6 * length (chunks data) + 12"]) (use flows(1,2) in \<open>simp_all del: enabled.simps\<close>)
  then obtain k n where n: "net_run sas_drivers_ignore a n0 k n" "\<forall>m. \<not> enabled a m n"
    by blast
  have last: "\<exists>c'. net_client n = Inr (0, c')"
    if "net_run sas_drivers_ignore a n0 k n" "\<forall>m. \<not> enabled a m n" for k n
    using flows(3) [OF that(1)] that(2) by metis
  then obtain c' where "net_client n = Inr (0, c')"
    using n by blast
  with n n0 flows(1) last show ?thesis
    by (intro exI [of _ n0]) metis
qed

text \<open>C10. The window is no back-pressure: in the middle of a file, any packet of the client that is neither old nor a reset
  is answered with the next 1024 bytes (or what is left, or the end of the stream), whatever window it states and
  whatever it acknowledges; so also one with a window of 0.\<close>

theorem window_ignored:
  assumes "serving srv p a s data" "addr_ok a" "16 \<le> length buf" "length pad = 2"
    and "\<not> flag_isset (hd_flags h) FLAG_RST" "\<not> hd_seq h < s_ack s"
  shows "\<exists>srv' buf' q. server_round (Datagram a
      (packet_bytes pad \<lparr>pk_header = header_encode (h\<lparr>hd_window := window, hd_ack := ack\<rparr>), pk_payload = payload\<rparr>)) (srv, buf) =
        Ok (Inl (srv', buf')) \<and> os_sent srv' = os_sent srv @ [(a, q)] \<and> pk_payload q = take 1024 data \<and>
    sent_flags q = (if data = [] then FLAG_RST OR FLAG_FIN else 0) \<and> sent_seq q = s_seq s"
proof -
  let ?h = "h\<lparr>hd_window := window, hd_ack := ack\<rparr>"
  let ?d = "packet_bytes pad \<lparr>pk_header = header_encode ?h, pk_payload = payload\<rparr>"
  have "datagrams_ok (s_ack s) [?d]"
    using assms(4-6) by (simp add: packet_load sizeof_header_def Let_def)
  from serve_packet [OF assms(1-3) this] show ?thesis
    unfolding next_flags_def next_payload_def by blast
qed

text \<open>The example satisfies what the properties ask for.\<close>

lemma example_exchange:
  "\<exists>n0 k n. net_start (example_addr 1) [0x61] (example_oss, example_client_buffer) (ten_bytes_server, example_server_buffer) = Ok n0 \<and>
    enabled (example_addr 1) To_Server n0 \<and>
    net_run sas_drivers_oss (example_addr 1) n0 k n \<and> (\<forall>m. \<not> enabled (example_addr 1) m n)"
proof -
  let ?a = "example_addr 1" and ?f = "format_chunk (server_cfg ten_bytes_server example_wav)"
  obtain d0 d where d: "oss_play ?f (create_logic sas_drivers_oss example_oss) = Ok (True, d0)"
    "oss.takes ?f (chunks (replicate 10 7)) d0 d"
    using oss_takes [of example_oss] example_ten(1) example_oss_simps(6) by blast
  have pre: "length [0x61 :: u8] < 2 ^ 15 - 1" "(0 :: u8) \<notin> set [0x61]" "17 + length [0x61 :: u8] \<le> length example_server_buffer"
    "os_send_error (c_os example_oss) = (\<lambda>_. None)" "c_ack example_oss = 0" "16 + 1024 \<le> length example_client_buffer"
    by (simp_all add: buffer_size_def client_buffer_size_def)
  obtain n0 where n0: "net_start ?a [0x61] (example_oss, example_client_buffer) (ten_bytes_server, example_server_buffer) = Ok n0"
    "enabled ?a To_Server n0"
    using oss.flow_starts [OF ten_bytes_ready pre d] by blast
  note flows = oss.stream_flows [OF ten_bytes_ready pre d n0(1)]
  have "\<exists>k n. net_run sas_drivers_oss ?a n0 k n \<and> (\<forall>m. \<not> enabled ?a m n)"
    by (rule net_run_ends [where b = "6 * length (chunks (replicate 10 (7 :: u8))) + 12"])
      (use flows(1,2) in \<open>simp_all del: enabled.simps\<close>)
  then show ?thesis
    using n0 by blast
qed

lemmas example_premises = ten_bytes_ready example_ten(1) example_oss_simps(6,4)

theorem file_played_witness:
  "\<exists>n0 k n es c'. net_start (example_addr 1) [0x61] (example_oss, example_client_buffer)
      (ten_bytes_server, example_server_buffer) = Ok n0 \<and> net_run sas_drivers_oss (example_addr 1) n0 k n \<and>
    sas_client_receive sas_drivers_oss [0x61] es (example_oss, example_client_buffer) = Ok (Inr (0, c')) \<and>
    net_client n = Inr (0, c') \<and> oss_writes c' = [[7, 7]]"
proof -
  obtain n0 where n0: "net_start (example_addr 1) [0x61] (example_oss, example_client_buffer)
      (ten_bytes_server, example_server_buffer) = Ok n0"
    "\<exists>k n. net_run sas_drivers_oss (example_addr 1) n0 k n \<and> (\<forall>m. \<not> enabled (example_addr 1) m n)"
    "\<forall>k n. net_run sas_drivers_oss (example_addr 1) n0 k n \<longrightarrow> (\<forall>m. \<not> enabled (example_addr 1) m n) \<longrightarrow>
      (\<exists>es c'. sas_client_receive sas_drivers_oss [0x61] es (example_oss, example_client_buffer) = Ok (Inr (0, c')) \<and>
        net_client n = Inr (0, c') \<and> oss_writes c' = oss_writes example_oss @ map trim (chunks (replicate 10 7)))"
    using file_played [OF example_premises, where sbuf = example_server_buffer and buf = example_client_buffer]
    by (simp add: buffer_size_def) blast
  then show ?thesis
    unfolding example_ten(2) list.map example_ten(3) by simp blast
qed

theorem exchange_terminates_witness:
  "\<exists>n0 k n c'. net_start (example_addr 1) [0x61] (example_established\<lparr>c_ack := 0\<rparr>, example_client_buffer)
      (ten_bytes_server, example_server_buffer) = Ok n0 \<and> net_run sas_drivers_ignore (example_addr 1) n0 k n \<and>
    k \<le> 18 \<and> net_client n = Inr (0, c')"
proof -
  have "\<exists>n0. net_start (example_addr 1) [0x61] (example_established\<lparr>c_ack := 0\<rparr>, example_client_buffer)
      (ten_bytes_server, example_server_buffer) = Ok n0 \<and>
    (\<forall>k n. net_run sas_drivers_ignore (example_addr 1) n0 k n \<longrightarrow> k \<le> 6 * length (chunks (replicate 10 7 :: bytes)) + 12) \<and>
    (\<exists>k n c'. net_run sas_drivers_ignore (example_addr 1) n0 k n \<and> (\<forall>m. \<not> enabled (example_addr 1) m n) \<and>
      net_client n = Inr (0, c')) \<and>
    (\<forall>k n. net_run sas_drivers_ignore (example_addr 1) n0 k n \<longrightarrow> (\<forall>m. \<not> enabled (example_addr 1) m n) \<longrightarrow>
      (\<exists>c'. net_client n = Inr (0, c')))"
    by (rule exchange_terminates [OF ten_bytes_ready]) (simp_all add: buffer_size_def)
  moreover have "6 * length (chunks (replicate 10 7 :: bytes)) + 12 = 18"
    by (simp only: example_ten(2)) simp
  ultimately show ?thesis
    by metis
qed

theorem window_ignored_witness:
  "\<exists>srv srv' buf buf' q. server_round (Datagram (example_addr 1) (packet_bytes [0, 0]
      \<lparr>pk_header = header_encode ((packet_header FLAG_ACK 0)\<lparr>hd_seq := 2, hd_window := 0, hd_ack := 8\<rparr>), pk_payload = []\<rparr>)) (srv, buf) =
    Ok (Inl (srv', buf')) \<and> os_sent srv' = os_sent srv @ [(example_addr 1, q)] \<and> pk_payload q = replicate 10 7"
proof -
  let ?h = "packet_header FLAG_SYN 2" and ?a = "packet_header FLAG_ACK 0"
  have ready: "can_serve ten_bytes_server (example_addr 1) [0x61] example_wav (replicate 10 7)"
    by (rule ten_bytes_ready)
  then obtain wpad where srv: "table_ok ten_bytes_server" "heap_live ten_bytes_server" "addr_ok (example_addr 1)"
    "session_lookup ten_bytes_server (example_addr 1) = None" "srv_malloc_ok ten_bytes_server (srv_fresh ten_bytes_server)"
    "os_send_error ten_bytes_server = (\<lambda>_. None)"
    "os_files ten_bytes_server [0x61] = Inr \<lparr>f_rest = wave_header_image wpad example_wav @ replicate 10 7, f_err = None\<rparr>"
    "playable example_wav" and calm: "calm ten_bytes_server (srv_fresh ten_bytes_server)"
    by (auto simp: can_serve_def calm_def)
  have h: "length [0 :: u8, 0] = 2" "hd_length ?h = of_nat (Suc (length [0x61 :: u8]))" "length [0x61 :: u8] < 2 ^ 16 - 1"
    "(0 :: u8) \<notin> set [0x61]" "hd_flags ?h = FLAG_SYN" "length (syn_datagram [0, 0] ?h [0x61]) \<le> length example_server_buffer"
    by (simp_all add: packet_header_def syn_datagram_def image_simps buffer_size_def)
  obtain srv1 s1 and buf1 :: bytes where one: "length buf1 = length example_server_buffer" "s_ack s1 = hd_seq ?h + seq_step (hd_length ?h)"
    "serving srv1 (srv_fresh ten_bytes_server) (example_addr 1) s1 (replicate 10 7)"
    using serve_syn [OF srv(1-5) calm srv(6-8) h] by blast
  have "\<exists>srv' buf' q. server_round (Datagram (example_addr 1)
      (packet_bytes [0, 0] \<lparr>pk_header = header_encode (?a\<lparr>hd_seq := 2\<rparr>\<lparr>hd_window := 0, hd_ack := 8\<rparr>), pk_payload = []\<rparr>)) (srv1, buf1) =
        Ok (Inl (srv', buf')) \<and> os_sent srv' = os_sent srv1 @ [(example_addr 1, q)] \<and> pk_payload q = take 1024 (replicate 10 7) \<and>
    sent_flags q = (if replicate 10 (7 :: u8) = [] then FLAG_RST OR FLAG_FIN else 0) \<and> sent_seq q = s_seq s1"
    by (rule window_ignored [OF one(3) srv(3)])
      (use one(1,2) in \<open>simp_all add: buffer_size_def packet_header_def flag_isset_def FLAG_ACK_def FLAG_RST_def seq_step_def\<close>)
  then show ?thesis
    by auto
qed

end
