(* ===== verification/Programs.thy ===== *)
theory Programs
  imports Server_Run Client_Run
begin

text \<open>
  The two programs as they are started (\<open>sas-server/src/main.c\<close> and
  \<open>sas-client/src/main.c\<close>), from their arguments to their exit status, and
  what is left of the descriptors that they opened.
\<close>

section \<open>The server\<close>

definition EXIT_SUCCESS :: i32 where "EXIT_SUCCESS = 0"
definition EXIT_FAILURE :: i32 where "EXIT_FAILURE = 1"
definition PORT :: int where "PORT = 3456"

text \<open>\<open>in6addr_any\<close> and the port in network byte order.\<close>

definition server_address :: sockaddr6 where
  "server_address = \<lparr>sa_addr = replicate 16 0, sa_port = htons (of_int PORT)\<rparr>"

text \<open>
  The answers of the system are inputs, and the memory that \<open>malloc\<close> gives. A
  program still runs (\<open>Inl\<close>), or has ended with a status and left the system as it is (\<open>Inr\<close>).
\<close>

definition server_exit :: "i32 \<Rightarrow> server \<Rightarrow> (server + i32 \<times> sockaddr6 os) res" where
  "server_exit status srv = Ok (Inr (status, os.truncate (sas_server_dealloc srv)))"

definition server_main :: "nat \<Rightarrow> i32 option \<Rightarrow> i32 option \<Rightarrow> (sockaddr6 \<Rightarrow> i32 option) \<Rightarrow> input list \<Rightarrow>
    sockaddr6 os \<Rightarrow> (nat \<Rightarrow> bool) \<Rightarrow> session \<Rightarrow> bytes \<Rightarrow> bytes \<Rightarrow> (server + i32 \<times> sockaddr6 os) res" where
  "server_main argc socket_error option_error bind_error inputs env malloc_ok junk stack buffer =
     (if argc \<noteq> 1 then Ok (Inr (EXIT_FAILURE, env))
      else
        let server = sas_server_alloc env malloc_ok junk stack;
            (err, srv1) = sas_server_init socket_error option_error server
        in if err \<noteq> 0 then server_exit EXIT_FAILURE srv1
           else
             let (err, srv2) = sas_server_bind bind_error srv1 server_address
             in if err \<noteq> 0 then server_exit EXIT_FAILURE srv2
                else
                  and_then (sas_server_run inputs (srv2, buffer)) (\<lambda>r.
                  case r of
                    Inl (srv3, buf) \<Rightarrow> Ok (Inl srv3)
                  | Inr (err, srv3) \<Rightarrow> server_exit (if err \<noteq> 0 then EXIT_FAILURE else EXIT_SUCCESS) srv3))"

section \<open>The client\<close>

text \<open>
  \<open>getopt_long\<close> with the short option \<open>h\<close> and the long one \<open>help\<close>, which may be
  cut short: the first option there is before an argument \<open>--\<close>, and the order in which
  it leaves the arguments of a command line without options.
\<close>

definition DASH :: u8 where "DASH = 0x2d"

datatype option_code = Help | Unknown_Option

definition option_code_of :: "bytes \<Rightarrow> option_code" where
  "option_code_of arg =
     (if arg ! 1 = DASH then
        if take (length arg - 2) [0x68, 0x65, 0x6c, 0x70] = drop 2 arg then Help else Unknown_Option
      else if arg ! 1 = 0x68 then Help
      else Unknown_Option)"

fun first_option :: "bytes list \<Rightarrow> option_code option" where
  "first_option [] = None"
| "first_option (arg # args) =
     (if arg = [DASH, DASH] then None
      else if 2 \<le> length arg \<and> hd arg = DASH then Some (option_code_of arg)
      else first_option args)"

definition permuted :: "bytes list \<Rightarrow> bytes list" where
  "permuted args = (if [DASH, DASH] \<in> set args then [DASH, DASH] # remove1 [DASH, DASH] args else args)"

text \<open>\<open>program\<close> is the memory that \<open>malloc\<close> gives for the client, in its environment.\<close>

definition client_exit :: "i32 \<Rightarrow> client \<Rightarrow> (client + i32 \<times> unit os) res" where
  "client_exit status c = Ok (Inr (status, c_os (sas_client_dealloc c)))"

definition client_main :: "bytes list \<Rightarrow> (bytes \<Rightarrow> int \<Rightarrow> i32 + attempt list) \<Rightarrow> event list \<Rightarrow> client \<Rightarrow> bytes \<Rightarrow>
    (client + i32 \<times> unit os) res" where
  "client_main argv getaddrinfo es junk buffer =
     (case first_option (tl argv) of
        Some Help \<Rightarrow> Ok (Inr (EXIT_SUCCESS, c_os junk))
      | Some Unknown_Option \<Rightarrow> Ok (Inr (EXIT_FAILURE, c_os junk))
      | None \<Rightarrow>
          if length argv \<le> 2 then Ok (Inr (EXIT_FAILURE, c_os junk))
          else
            let args = permuted (tl argv);
                client = sas_client_init (sas_client_alloc junk)
            in and_then (sas_client_connect_hostname getaddrinfo client (args ! 0) PORT) (\<lambda>(err, c1).
               if err \<noteq> 0 then client_exit EXIT_FAILURE c1
               else
                 and_then (sas_client_receive sas_drivers_ignore (args ! 1) es (c1, buffer)) (\<lambda>r.
                 case r of
                   Inl (c2, buf) \<Rightarrow> Ok (Inl c2)
                 | Inr (err, c2) \<Rightarrow> client_exit (if err \<noteq> 0 then EXIT_FAILURE else EXIT_SUCCESS) c2)))"

section \<open>Descriptors that are given back\<close>

lemma fd_open_other [simp]:
  "fd_open fd (o'\<lparr>os_errno := e\<rparr>) = fd_open fd o'" "fd_open fd (os.truncate o') = fd_open fd o'"
  "fd_open fd (srv\<lparr>srv_fd := x\<rparr>) = fd_open fd srv"
  by (simp_all add: fd_open_def os.defs)

lemma fd_open_alloc [simp]: "fd_open fd (sas_server_alloc env m j st) = fd_open fd env"
  "os_sent (sas_server_alloc env m j st) = os_sent env"
  by (simp_all add: fd_open_def sas_server_alloc_def os.defs)

lemma os_sent_truncate [simp]: "os_sent (os.truncate o') = os_sent o'"
  by (simp add: os.defs)

lemma lowest_free_not_open: "fd_open (int (lowest_free (os_fds o'))) o' = None"
  using lowest_free_unused [of _ "os_fds o'"] by (auto simp: fd_open_def)

lemma fd_open_socket:
  assumes "os_socket o' = (fd, o1)"
  shows "0 \<le> fd" "fd_open fd o' = None" "fd' \<noteq> fd \<Longrightarrow> fd_open fd' o1 = fd_open fd' o'"
proof -
  have fd: "fd = int (lowest_free (os_fds o'))" "o1 = o'\<lparr>os_fds := set_fd (lowest_free (os_fds o')) (Some \<lparr>f_rest = [], f_err = None\<rparr>) (os_fds o')\<rparr>"
    using assms by (simp_all add: os_socket_def Let_def)
  show "0 \<le> fd" "fd_open fd o' = None"
    using lowest_free_not_open [of o'] by (simp_all add: fd(1))
  show "fd_open fd' o1 = fd_open fd' o'" if "fd' \<noteq> fd"
    using that lowest_free_le [of "os_fds o'"]
    by (auto simp: fd fd_open_def set_fd_def nth_append nth_list_update)
qed

lemma os_socket_same:
  "os_socket o' = (fd, o1) \<Longrightarrow> os_sent o1 = os_sent o' \<and> os_send_error o1 = os_send_error o'"
  by (auto simp: os_socket_def Let_def)

text \<open>A socket that is opened and closed leaves the descriptors as they were.\<close>

lemma socket_closed:
  assumes "os_socket o' = (fd, o1)" "os_fds o2 = os_fds o1"
  shows "fd_open fd' (os_close fd o2) = fd_open fd' o'"
proof -
  have "fd_open fd' o2 = fd_open fd' o1"
    using assms(2) by (simp add: fd_open_def)
  then show ?thesis
    using fd_open_socket [OF assms(1)] by (auto simp: fd_open_closed)
qed

text \<open>
  Trying the addresses of a host: it ends with a connected socket and nothing
  else opened, if one of them can be connected, and otherwise with nothing opened.
\<close>

lemma connect_any_spec:
  "case connect_any as o' of
     (None, o1) \<Rightarrow> Connected \<notin> set as \<and> (\<forall>x. fd_open x o1 = fd_open x o') \<and> os_sent o1 = os_sent o'
   | (Some fd, o1) \<Rightarrow> Connected \<in> set as \<and> 0 \<le> fd \<and> fd_open fd o' = None \<and>
       (\<forall>x. x \<noteq> fd \<longrightarrow> fd_open x o1 = fd_open x o') \<and> os_sent o1 = os_sent o' \<and> os_send_error o1 = os_send_error o'"
proof (induction "as" o' rule: connect_any.induct)
  case (2 e "as" o')
  then show ?case
    by (simp split: prod.splits option.splits)
next
  case (3 e "as" o')
  obtain fd o1 where o1: "os_socket o' = (fd, o1)" by fastforce
  let ?o = "os_close fd (o1\<lparr>os_errno := e\<rparr>)"
  have same: "fd_open x ?o = fd_open x o'" for x
    using socket_closed [OF o1, of "o1\<lparr>os_errno := e\<rparr>"] by simp
  show ?case
    using 3 [OF o1 [symmetric] refl] os_socket_same [OF o1] by (simp add: o1 same split: prod.splits option.splits)
next
  case (4 "as" o')
  obtain fd o1 where o1: "os_socket o' = (fd, o1)" by fastforce
  then show ?case
    using fd_open_socket [OF o1] os_socket_same [OF o1] by simp
qed simp

lemma client_init_simps [simp]:
  "c_fd (sas_client_init c) = - 1" "c_os (sas_client_init c) = c_os c" "c_ack (sas_client_init c) = 0"
  "c_seq (sas_client_init c) = 0" "c_os (sas_client_alloc c) = c_os c"
  by (simp_all add: sas_client_init_def sas_client_alloc_def)

lemma connect_fresh:
  assumes "c_fd c = - 1"
  shows "sas_client_connect_hostname getaddrinfo c host PORT =
    (case getaddrinfo host PORT of
       Inl err \<Rightarrow> Ok (err, c)
     | Inr as \<Rightarrow>
         (case connect_any as (c_os c) of
            (None, o') \<Rightarrow> Ok (EAI_NONAME, c\<lparr>c_os := o'\<rparr>)
          | (Some fd, o') \<Rightarrow> Ok (0, c\<lparr>c_os := o', c_fd := fd\<rparr>)))"
  using assms by (auto simp: sas_client_connect_hostname_def PORT_def Let_def split: sum.split option.split prod.split)

section \<open>Properties\<close>

text \<open>A server that cannot be started, as it is given an argument or as one of
  \<open>socket\<close>, \<open>setsockopt\<close> and \<open>bind\<close> fails, exits with a failure, has sent nothing, and has closed
  the descriptor that it may have opened.\<close>

lemma server_start_fails:
  assumes "argc \<noteq> 1 \<or> socket_error \<noteq> None \<or> option_error \<noteq> None \<or> bind_error server_address \<noteq> None"
    and "socket_error \<noteq> Some 0" "option_error \<noteq> Some 0" "bind_error server_address \<noteq> Some 0"
  shows "\<exists>o'. server_main argc socket_error option_error bind_error inputs env malloc_ok junk stack buffer =
      Ok (Inr (EXIT_FAILURE, o')) \<and> (\<forall>fd. fd_open fd o' = fd_open fd env) \<and> os_sent o' = os_sent env"
proof (cases "argc = 1 \<and> socket_error = None")
  case False
  then show ?thesis
    using assms(2)
    by (cases socket_error)
      (auto simp: server_main_def sas_server_init_def server_exit_def sas_server_dealloc_def Let_def)
next
  case True
  let ?srv = "(sas_server_alloc env malloc_ok junk stack)\<lparr>srv_fd := - 1\<rparr>"
  obtain fd srv1 where o1: "os_socket ?srv = (fd, srv1)" by fastforce
  note sock = fd_open_socket [OF o1] and closed = socket_closed [OF o1]
  have sent: "os_sent srv1 = os_sent env" "fd_open fd srv1 \<noteq> None" "srv_fd srv1 = - 1"
    using o1 fd_open_set_fd [of ?srv "Some \<lparr>f_rest = [], f_err = None\<rparr>"] by (auto simp: os_socket_def Let_def)
  show ?thesis
  proof (cases option_error)
    case (Some e)
    let ?srv2 = "os_close fd (srv1\<lparr>os_errno := e\<rparr>)"
    have "os_errno ?srv2 = e" "srv_fd ?srv2 = - 1" "os_sent ?srv2 = os_sent env"
      using sent by (auto simp: os_close_def split: option.split)
    then show ?thesis
      using True assms(3) Some o1 closed [of "srv1\<lparr>os_errno := e\<rparr>"]
      by (simp add: server_main_def sas_server_init_def server_exit_def sas_server_dealloc_def Let_def)
  next
    case None
    then obtain e where e: "bind_error server_address = Some e"
      using assms(1) True by auto
    let ?srv2 = "srv1\<lparr>srv_fd := fd\<rparr>\<lparr>os_errno := e\<rparr>"
    have "os_sent (os_close fd ?srv2) = os_sent env"
      using sent(1) by (simp add: os_close_def split: option.split)
    then show ?thesis
      using True assms(4) None e o1 sock(1) closed [of ?srv2]
      by (simp add: server_main_def sas_server_init_def sas_server_bind_def server_exit_def sas_server_dealloc_def Let_def)
  qed
qed

lemma server_start_fails_witness:
  "\<exists>o'. server_main 1 None None (\<lambda>_. Some 98) [] (fresh_os media (\<lambda>_. 0)) (\<lambda>_. True) blank_session [] [] =
      Ok (Inr (EXIT_FAILURE, o')) \<and> fd_open 0 o' = None \<and> os_sent o' = []"
proof -
  have "\<exists>o'. server_main 1 None None (\<lambda>_. Some 98) [] (fresh_os media (\<lambda>_. 0)) (\<lambda>_. True) blank_session [] [] =
      Ok (Inr (EXIT_FAILURE, o')) \<and> (\<forall>fd. fd_open fd o' = fd_open fd (fresh_os media (\<lambda>_. 0) :: sockaddr6 os)) \<and>
      os_sent o' = os_sent (fresh_os media (\<lambda>_. 0) :: sockaddr6 os)"
    by (rule server_start_fails) simp_all
  moreover have "fd_open 0 (fresh_os media (\<lambda>_. 0) :: sockaddr6 os) = None" "os_sent (fresh_os media (\<lambda>_. 0) :: sockaddr6 os) = []"
    by (simp_all add: fresh_os_def fd_open_def)
  ultimately show ?thesis
    by metis
qed

text \<open>C37. The client program plays a stream from its arguments to its exit: if one
  address of the host can be connected, it asks for the file, acknowledges what it receives,
  whatever the size of the chunks, exits with success, and has closed its socket.\<close>

theorem client_program_succeeds:
  assumes "first_option [host, name] = None" "[DASH, DASH] \<notin> {host, name}"
    and "getaddrinfo host PORT = Inr addrs" "Connected \<in> set addrs" "os_send_error (c_os junk) = (\<lambda>_. None)"
    and "length name < 2 ^ 15 - 1" "length pad = 2" "length buffer = client_buffer_size"
    and "config_packet cfg p" "list_all (audio_packet client_buffer_size) ps" "fin_packet e" "numbered 0 (p # ps @ [e])"
  shows "\<exists>o' syn acks. client_main [prog, host, name] getaddrinfo (map (\<lambda>p. Received (packet_bytes pad p)) (p # ps @ [e]))
      junk buffer = Ok (Inr (EXIT_SUCCESS, o')) \<and>
    os_sent o' = os_sent (c_os junk) @ map (Pair ()) (syn # acks) \<and> sent_flags syn = FLAG_SYN \<and>
    length acks = 3 + 2 * length ps \<and> list_all (\<lambda>a. sent_flags a = FLAG_ACK) acks \<and>
    (\<forall>fd. fd_open fd o' = fd_open fd (c_os junk))"
proof -
  let ?c = "sas_client_init (sas_client_alloc junk)"
  obtain r o1 where any: "connect_any addrs (c_os junk) = (r, o1)" by fastforce
  then obtain fd where fd: "r = Some fd" "0 \<le> fd" "fd_open fd (c_os junk) = None"
    "\<forall>x. x \<noteq> fd \<longrightarrow> fd_open x o1 = fd_open x (c_os junk)" "os_sent o1 = os_sent (c_os junk)"
    "os_send_error o1 = (\<lambda>_. None)"
    using connect_any_spec [of addrs "c_os junk"] assms(4,5) by (auto split: option.splits)
  let ?c1 = "?c\<lparr>c_os := o1, c_fd := fd\<rparr>"
  have conn: "sas_client_connect_hostname getaddrinfo ?c host PORT = Ok (0, ?c1)"
    using assms(3) any fd(1) by (simp add: connect_fresh)
  have pre: "os_send_error (c_os ?c1) = (\<lambda>_. None)" "24 \<le> length buffer" "list_all (audio_packet (length buffer)) ps"
    "numbered (c_ack ?c1) (p # ps @ [e])"
    using fd(6) assms(8,10,12) by (simp_all add: client_buffer_size_def)
  obtain c' syn acks where r: "sas_client_receive sas_drivers_ignore name
      (map (\<lambda>p. Received (packet_bytes pad p)) (p # ps @ [e])) (?c1, buffer) = Ok (Inr (0, c'))"
    "os_sent (c_os c') = os_sent (c_os ?c1) @ map (Pair ()) (syn # acks)" "sent_flags syn = FLAG_SYN"
    "length acks = 3 + 2 * length ps" "list_all (\<lambda>a. sent_flags a = FLAG_ACK) acks"
    "device c' = device (create_logic sas_drivers_ignore ?c1)"
    using ignoring.receive_stream [OF pre(1) assms(6,7) pre(2) assms(9) pre(3) assms(11) pre(4) refl ignoring_takes]
    by blast
  have dev: "c_fd c' = fd" "os_fds (c_os c') = os_fds o1"
    using r(6) by (simp_all add: device_def sas_drivers_ignore_def)
  have closed: "fd_open x (os_close fd (c_os c')) = fd_open x (c_os junk)" for x
  proof -
    have "fd_open x (c_os c') = fd_open x o1"
      using dev(2) by (simp add: fd_open_def)
    then show ?thesis
      using fd(3,4) by (simp add: fd_open_closed)
  qed
  have args: "permuted [host, name] = [host, name]"
    using assms(2) by (auto simp: permuted_def)
  have "client_main [prog, host, name] getaddrinfo (map (\<lambda>p. Received (packet_bytes pad p)) (p # ps @ [e])) junk buffer =
      client_exit EXIT_SUCCESS c'"
    using assms(1) conn r(1) args by (simp add: client_main_def del: first_option.simps)
  moreover have "os_sent (os_close fd (c_os c')) = os_sent (c_os c')"
    by (simp add: os_close_def split: option.split)
  ultimately show ?thesis
    using r(2-5) dev(1) fd(2,5) closed
    by (intro exI [of _ "os_close fd (c_os c')"] exI [of _ syn] exI [of _ acks])
      (simp add: client_exit_def sas_client_dealloc_def on_os_def)
qed

theorem client_program_succeeds_witness:
  "\<exists>o'. client_main [[0x63], [0x68], [0x61]] (\<lambda>_ _. Inr [No_Connect 111, Connected])
      (map (\<lambda>p. Received (packet_bytes [0, 0] p)) [example_config, example_packet 8 0 [1], example_packet 9 (FLAG_RST OR FLAG_FIN) []])
      example_established (replicate client_buffer_size 0) = Ok (Inr (EXIT_SUCCESS, o')) \<and> length (os_sent o') = 6"
proof -
  have "\<exists>o' syn acks. client_main [[0x63], [0x68], [0x61]] (\<lambda>_ _. Inr [No_Connect 111, Connected])
      (map (\<lambda>p. Received (packet_bytes [0, 0] p)) (example_config # [example_packet 8 0 [1]] @
        [example_packet 9 (FLAG_RST OR FLAG_FIN) []])) example_established (replicate client_buffer_size 0) =
      Ok (Inr (EXIT_SUCCESS, o')) \<and>
    os_sent o' = os_sent (c_os example_established) @ map (Pair ()) (syn # acks) \<and> sent_flags syn = FLAG_SYN \<and>
    length acks = 3 + 2 * length [example_packet 8 0 [1]] \<and> list_all (\<lambda>a. sent_flags a = FLAG_ACK) acks \<and>
    (\<forall>fd. fd_open fd o' = fd_open fd (c_os example_established))"
    by (rule client_program_succeeds [where addrs = "[No_Connect 111, Connected]" and cfg = example_cfg])
      (simp_all add: DASH_def client_buffer_size_def audio_packet_def fin_packet_def flag_isset_def FLAG_RST_def
        seq_step_def)
  then show ?thesis
    by auto
qed

text \<open>A client that can connect to no address of the host, or whose host has none,
  exits with a failure, has sent nothing, and has closed every socket that it tried.\<close>

lemma client_program_fails:
  assumes "first_option [host, name] = None" "[DASH, DASH] \<notin> {host, name}"
    and "case getaddrinfo host PORT of Inl err \<Rightarrow> err \<noteq> 0 | Inr as \<Rightarrow> Connected \<notin> set as"
  shows "\<exists>o'. client_main [prog, host, name] getaddrinfo es junk buffer = Ok (Inr (EXIT_FAILURE, o')) \<and>
    os_sent o' = os_sent (c_os junk) \<and> (\<forall>fd. fd_open fd o' = fd_open fd (c_os junk))"
proof -
  let ?c = "sas_client_init (sas_client_alloc junk)"
  have args: "permuted [host, name] = [host, name]"
    using assms(2) by (auto simp: permuted_def)
  have "\<exists>err o1. sas_client_connect_hostname getaddrinfo ?c host PORT = Ok (err, ?c\<lparr>c_os := o1\<rparr>) \<and> err \<noteq> 0 \<and>
      os_sent o1 = os_sent (c_os junk) \<and> (\<forall>fd. fd_open fd o1 = fd_open fd (c_os junk))"
  proof (cases "getaddrinfo host PORT")
    case (Inl err)
    then show ?thesis
      using assms(3) by (intro exI [of _ err] exI [of _ "c_os junk"]) (simp add: connect_fresh sas_client_init_def sas_client_alloc_def)
  next
    case (Inr "as")
    obtain r o1 where any: "connect_any as (c_os junk) = (r, o1)" by fastforce
    then show ?thesis
      using Inr assms(3) connect_any_spec [of "as" "c_os junk"]
      by (auto simp: connect_fresh EAI_NONAME_def split: option.splits)
  qed
  then obtain err o1 where c: "sas_client_connect_hostname getaddrinfo ?c host PORT = Ok (err, ?c\<lparr>c_os := o1\<rparr>)" "err \<noteq> 0"
    "os_sent o1 = os_sent (c_os junk)" "\<forall>fd. fd_open fd o1 = fd_open fd (c_os junk)"
    by blast
  then show ?thesis
    using assms(1) args
    by (intro exI [of _ o1]) (simp add: client_main_def client_exit_def sas_client_dealloc_def del: first_option.simps)
qed

lemma client_program_fails_witness:
  "\<exists>o'. client_main [[0x63], [0x68], [0x61]] (\<lambda>_ _. Inr [No_Connect 111, No_Socket 97]) [] example_established [] =
      Ok (Inr (EXIT_FAILURE, o')) \<and> os_sent o' = []"
proof -
  have "\<exists>o'. client_main [[0x63], [0x68], [0x61]] (\<lambda>_ _. Inr [No_Connect 111, No_Socket 97]) [] example_established [] =
      Ok (Inr (EXIT_FAILURE, o')) \<and> os_sent o' = os_sent (c_os example_established) \<and>
      (\<forall>fd. fd_open fd o' = fd_open fd (c_os example_established))"
    by (rule client_program_fails) (simp_all add: DASH_def)
  then show ?thesis by auto
qed

text \<open>
  The arguments behind \<open>--\<close>: \<open>getopt_long\<close> leaves it in front of the others, and
  the program, which does not ask where the options end, takes it for the host.
\<close>

lemma options_end_is_host:
  assumes "first_option (a # bs) = None" "[DASH, DASH] \<in> set (a # bs)" "getaddrinfo [DASH, DASH] PORT = Inl err" "err \<noteq> 0"
    and "2 \<le> length (a # bs)"
  shows "client_main (prog # a # bs) getaddrinfo es junk buffer = Ok (Inr (EXIT_FAILURE, c_os junk))"
proof -
  have args: "permuted (a # bs) ! 0 = [DASH, DASH]"
    using assms(2) by (simp only: permuted_def if_True nth_Cons_0)
  have "sas_client_connect_hostname getaddrinfo (sas_client_init (sas_client_alloc junk)) [DASH, DASH] PORT =
      Ok (err, sas_client_init (sas_client_alloc junk))"
    using assms(3) by (simp add: connect_fresh)
  then show ?thesis
    using assms(1,4,5) args
    by (simp add: client_main_def client_exit_def sas_client_dealloc_def Let_def del: first_option.simps)
qed

end
