(* ===== verification/Session_Safety.thy ===== *)
theory Session_Safety
  imports Session_Stream
begin

text \<open>
  The states a session can be in, as a type that packets of any content
  keep it in: what a packet can do to its own session and to
  the others, and the one access that can go wrong while it is handled.
\<close>

section \<open>Well-formed sessions and servers\<close>

text \<open>
  A session has neither a pipeline nor a sink until its stream has started;
  from then on it has both, and the pipeline is between two requests or
  behind the end of the stream.
\<close>

definition session_wf :: "session \<Rightarrow> bool" where
  "session_wf s \<longleftrightarrow>
     (case s_pipeline s of
        None \<Rightarrow> s_state s = STATE_INITIAL \<and> \<not> s_sink_logic s
      | Some pl \<Rightarrow> streaming s \<and> s_sink_logic s \<and> (ready_pipe pl \<or> done_pipe pl))"

text \<open>
  A server but for one session, which is being handled: the table is in order,
  the other sessions are well-formed, and the struct that a WAV header is
  read into has its size.
\<close>

definition wf_but :: "sid option \<Rightarrow> server \<Rightarrow> bool" where
  "wf_but p srv \<longleftrightarrow> table_ok srv \<and> sizeof_WaveHeader \<le> length (srv_stack srv) \<and>
     (\<forall>q s. Some q \<noteq> p \<longrightarrow> contents srv q = Some s \<longrightarrow> session_wf s)"

abbreviation server_wf :: "server \<Rightarrow> bool" where "server_wf \<equiv> wf_but None"

lemma session_wf_simps [simp]:
  "session_wf (s\<lparr>s_next := n\<rparr>) = session_wf s" "session_wf (accept h s) = session_wf s"
  "session_wf (s\<lparr>s_timeout := t\<rparr>) = session_wf s" "session_wf (s\<lparr>s_seq := i\<rparr>) = session_wf s"
  "session_wf (new_session junk a)"
  by (simp_all add: session_wf_def streaming_def new_session_def split: option.split)

lemma server_wf_session:
  "server_wf srv \<Longrightarrow> srv_mem srv p = Some s \<Longrightarrow> session_wf s"
proof -
  assume wf: "server_wf srv" and s: "srv_mem srv p = Some s"
  then have "contents srv p = Some (s\<lparr>s_next := None\<rparr>)"
    by (simp add: contents_def)
  then have "session_wf (s\<lparr>s_next := None\<rparr>)"
    using wf unfolding wf_but_def by blast
  then show "session_wf s" by simp
qed

text \<open>A step of one session: the others, the heap and the clock are as they were.\<close>

definition heap_part :: "server \<Rightarrow> sid option list \<times> nat \<times> nat" where
  "heap_part srv = (th_heap srv, th_count srv, th_capacity srv)"

text \<open>What a lookup in the session table depends on.\<close>

definition indexed :: "server \<Rightarrow> (sid option list \<times> nat \<times> int) \<times> (sid \<Rightarrow> (sockaddr6 \<times> sid option) option)" where
  "indexed srv = ((ss_table srv, ss_capacity srv, ss_count srv), linked srv)"

definition only :: "sid \<Rightarrow> server \<Rightarrow> server \<Rightarrow> bool" where
  "only p srv srv' \<longleftrightarrow> heap_part srv' = heap_part srv \<and> srv_malloc_ok srv' = srv_malloc_ok srv \<and>
     srv_fresh srv' = srv_fresh srv \<and> os_clock srv' = os_clock srv \<and> os_ticks srv' = os_ticks srv \<and>
     (\<forall>q. q \<noteq> p \<longrightarrow> contents srv' q = contents srv q) \<and> (srv_mem srv' p = None \<or> indexed srv' = indexed srv)"

lemma only_refl [simp]: "only p srv srv"
  by (simp add: only_def)

lemma linked_None: "linked srv p = None \<longleftrightarrow> srv_mem srv p = None"
  by (simp add: linked_def)

lemma only_trans: "only p a b \<Longrightarrow> only p b c \<Longrightarrow> only p a c"
  unfolding only_def indexed_def by (auto simp: linked_None [symmetric])

text \<open>Changing a session but for its address and link.\<close>

lemma step_memory:
  assumes wf: "wf_but P srv" "P = None \<or> P = Some p" and mem: "srv_mem srv' = (srv_mem srv)(p \<mapsto> t)"
    and frame: "frame_of srv' = frame_of srv" and s: "srv_mem srv p = Some s" "s_addr t = s_addr s" "s_next t = s_next s"
  shows "wf_but (Some p) srv'" "session_wf t \<Longrightarrow> server_wf srv'" "only p srv srv'"
proof -
  have "linked srv' = linked srv"
    using s by (auto simp: linked_def mem fun_eq_iff)
  then have ok: "table_ok srv'" "length (srv_stack srv') = length (srv_stack srv)"
    using table_ok_frame [OF _ _ frame] wf(1) frame_ofD(11) [OF frame] by (simp_all add: wf_but_def)
  have c: "contents srv' = (contents srv)(p \<mapsto> t\<lparr>s_next := None\<rparr>)"
    by (auto simp: contents_def mem fun_eq_iff)
  show "wf_but (Some p) srv'"
    using ok c wf by (auto simp: wf_but_def)
  show "server_wf srv'" if "session_wf t"
    using ok c wf that by (auto simp: wf_but_def)
  show "only p srv srv'"
    using c frame_ofD(1-10) [OF frame] \<open>linked srv' = linked srv\<close> by (simp add: only_def heap_part_def indexed_def)
qed

lemma step_delete:
  assumes wf: "wf_but P srv" "P = None \<or> P = Some p" and s: "srv_mem srv p = Some s"
  shows "within {} (\<lambda>srv'. server_wf srv' \<and> only p srv srv' \<and> srv_mem srv' p = None)
    (sas_server_session_delete srv p)"
proof -
  have ok: "table_ok srv"
    using wf(1) by (simp add: wf_but_def)
  then obtain cs where rep: "table_rep srv cs"
    by (auto simp: table_ok_def)
  obtain srv' where srv': "sas_server_session_delete srv p = Ok srv'" "table_ok srv'"
    "contents srv' = (contents srv)(p := None)"
    using sessions.del_live [OF ok, of p] s by (auto simp: contents_def)
  have "heap_part srv' = heap_part srv" "srv_malloc_ok srv' = srv_malloc_ok srv" "srv_stack srv' = srv_stack srv"
    "srv_fresh srv' = srv_fresh srv" "os_clock srv' = os_clock srv" "os_ticks srv' = os_ticks srv"
    using session_delete_live [OF rep s] srv'(1) by (auto simp: heap_part_def drop_session_def Let_def unlink_session_def)
  moreover have "srv_mem srv' p = None"
    using srv'(3) by (metis contents_def fun_upd_same map_option_is_None)
  ultimately show ?thesis
    using srv' wf by (auto simp: wf_but_def only_def)
qed

section \<open>What each branch of the state machine keeps\<close>

definition keeps :: "fault set \<Rightarrow> sid \<Rightarrow> server \<Rightarrow> server res \<Rightarrow> bool" where
  "keeps F p srv r \<longleftrightarrow> within F (\<lambda>srv'. server_wf srv' \<and> only p srv srv') r"

lemma keeps_only: "only p srv srv1 \<Longrightarrow> keeps F p srv1 r \<Longrightarrow> keeps F p srv r"
  unfolding keeps_def by (rule within_mono, assumption) (auto intro: only_trans)

lemma keeps_mono: "keeps F p srv r \<Longrightarrow> F \<subseteq> G \<Longrightarrow> keeps G p srv r"
  unfolding keeps_def by (rule within_mono)

lemma keeps_delete:
  assumes "wf_but (Some p) srv" "srv_mem srv p = Some s"
  shows "keeps {} p srv (sas_server_session_delete srv p)"
  unfolding keeps_def using step_delete [OF assms(1) _ assms(2)] by (rule within_mono) simp_all

lemma keeps_abort:
  assumes "wf_but (Some p) srv" "srv_mem srv p = Some s"
  shows "keeps {} p srv (session_abort p err srv)"
proof -
  let ?s = "s\<lparr>s_seq := s_seq s + seq_step (of_nat (length (err_image [] (err_encode \<lparr>err_code = err\<rparr>))))\<rparr>"
  let ?srv = "snd (send_next p s (FLAG_RST OR FLAG_ERR) (err_image [] (err_encode \<lparr>err_code = err\<rparr>)) srv)"
  have mem: "srv_mem ?srv = (srv_mem srv)(p \<mapsto> ?s)"
    by simp
  note step = step_memory [OF assms(1) _ mem _ assms(2)]
  have "keeps {} p srv (sas_server_session_delete ?srv p)"
    by (rule keeps_only [OF step(3) keeps_delete [OF step(1)]]) simp_all
  then show ?thesis
    by (simp add: session_abort_def session_error_next [OF assms(2)] case_prod_unfold)
qed

lemma keeps_reset:
  assumes "server_wf srv" "srv_mem srv p = Some s" "session_wf s"
  shows "keeps {} p srv (unit_of (sas_server_session_reset srv p fin))"
proof -
  let ?srv = "snd (send_next p s (if fin then FLAG_RST OR FLAG_FIN else FLAG_RST) [] srv)"
  have mem: "srv_mem ?srv = (srv_mem srv)(p \<mapsto> s\<lparr>s_seq := s_seq s + seq_step (of_nat (length ([] :: bytes)))\<rparr>)"
    by (rule send_next_simps)
  note step = step_memory [OF assms(1) _ mem _ assms(2)]
  have "server_wf ?srv" "only p srv ?srv"
    by (rule step(2,3); use assms(3) in simp)+
  then show ?thesis
    by (simp add: keeps_def unit_of_def session_reset_next [OF assms(2)] case_prod_unfold)
qed

lemma keeps_stream:
  assumes wf: "wf_but (Some p) srv" and s: "srv_mem srv p = Some s" and w: "\<not> wi_finished w"
  shows "keeps {} p srv (session_stream p w srv)"
proof -
  let ?srv = "set_session p (stream_started w s) (snd (send_next p (stream_begun w s) (FLAG_SYN OR FLAG_ACK)
    (stream_config w s srv) (set_session p (stream_begun w s) srv)))"
  have mem: "srv_mem ?srv = (srv_mem srv)(p \<mapsto> stream_started w s)"
    by simp
  have "session_wf (stream_started w s)" "s_addr (stream_started w s) = s_addr s" "s_next (stream_started w s) = s_next s"
    using w by (auto simp: session_wf_def stream_started_def stream_begun_def streaming_def ready_pipe_def
        new_pipe_def create_is_idle)
  with step_memory [OF wf _ mem _ s] show ?thesis
    by (simp add: session_stream_run [OF s] keeps_def)
qed

text \<open>Reading a struct from memory that is long enough for it.\<close>

lemma wave_header_load_total:
  assumes "sizeof_WaveHeader \<le> length m"
  shows "\<exists>w. wave_header_load m = Ok w"
proof -
  have l: "44 \<le> length m"
    using assms by (simp add: sizeof_WaveHeader_def)
  note u16 = load_total(2) [of _ m] and u32 = load_total(3) [of _ m]
  show ?thesis
    using u32 [of 4] u32 [of 16] u16 [of 20] u16 [of 22] u32 [of 24] u32 [of 28] u16 [of 32] u16 [of 34]
      u32 [of 36] u32 [of 40] l
    by (auto simp: wave_header_load_def)
qed

lemma os_read_frame:
  "srv_mem (snd (os_read fd n srv)) = srv_mem (srv :: server)"
  "frame_of (snd (os_read fd n srv)) = frame_of srv"
  by (simp_all add: os_read_def split: option.split)

lemma formats_wav_total:
  assumes "sizeof_WaveHeader \<le> length junk"
  shows "within {} (\<lambda>(source, srv'). srv_mem srv' = srv_mem srv \<and> frame_of srv' = frame_of srv \<and>
    (case source of None \<Rightarrow> True | Some w \<Rightarrow> \<not> wi_finished w)) (sas_formats_wav junk fd (srv :: server))"
proof -
  obtain r srv1 where read: "os_read fd sizeof_WaveHeader srv = (r, srv1)"
    by fastforce
  then have same: "srv_mem srv1 = srv_mem srv" "frame_of srv1 = frame_of srv"
    using os_read_frame [of fd sizeof_WaveHeader srv] by simp_all
  let ?bs = "case r of None \<Rightarrow> [] | Some bs \<Rightarrow> bs"
  obtain w where "wave_header_load (?bs @ drop (length ?bs) junk) = Ok w"
    using wave_header_load_total [of "?bs @ drop (length ?bs) junk"] assms by force
  then show ?thesis
    using same by (simp add: sas_formats_wav_def read)
qed

lemma keeps_env:
  assumes wf: "wf_but P srv" "P = None \<or> P = Some p" and s: "srv_mem srv p = Some s"
    and same: "srv_mem srv' = srv_mem srv" "frame_of srv' = frame_of srv"
  shows "wf_but (Some p) srv'" "only p srv srv'"
proof -
  have "srv_mem srv' = (srv_mem srv)(p \<mapsto> s)"
    using same(1) s by (simp add: fun_upd_idem)
  from step_memory [OF wf this same(2) s refl refl] show "wf_but (Some p) srv'" "only p srv srv'"
    by simp_all
qed

lemma os_open_frame:
  "srv_mem (snd (os_open name srv)) = srv_mem (srv :: server)"
  "frame_of (snd (os_open name srv)) = frame_of srv"
  by (simp_all add: os_open_def Let_def split: sum.split)

lemma keeps_open:
  assumes wf: "wf_but (Some p) srv" and s: "srv_mem srv p = Some s"
  shows "keeps {} p srv (session_open p name srv)"
proof -
  obtain fd srv1 where o1: "os_open name srv = (fd, srv1)"
    by fastforce
  then have same: "srv_mem srv1 = srv_mem srv" "frame_of srv1 = frame_of srv"
    using os_open_frame [of name srv] by simp_all
  let ?srv2 = "set_session p (s\<lparr>s_fd := fd\<rparr>) srv1"
  have mem2: "srv_mem ?srv2 = (srv_mem srv)(p \<mapsto> s\<lparr>s_fd := fd\<rparr>)" "frame_of ?srv2 = frame_of srv"
    using same by simp_all
  have two: "wf_but (Some p) ?srv2" "only p srv ?srv2" "srv_mem ?srv2 p = Some (s\<lparr>s_fd := fd\<rparr>)"
    using step_memory [OF wf disjI2 [OF refl] mem2 s] by simp_all
  have "sizeof_WaveHeader \<le> length (srv_stack ?srv2)"
    using two(1) by (simp add: wf_but_def)
  then obtain source srv3 where wav: "sas_formats_wav (srv_stack ?srv2) fd ?srv2 = Ok (source, srv3)"
    "srv_mem srv3 = srv_mem ?srv2" "frame_of srv3 = frame_of ?srv2"
    "case source of None \<Rightarrow> True | Some w \<Rightarrow> \<not> wi_finished w"
    using within_emptyD [OF formats_wav_total [of "srv_stack ?srv2" ?srv2 fd]] by auto
  note three = keeps_env [OF two(1) _ two(3) wav(2,3)]
  have mem3: "srv_mem srv3 p = Some (s\<lparr>s_fd := fd\<rparr>)"
    using wav(2) two(3) by simp
  have abort: "keeps {} p srv (session_abort p e ?srv2)" "keeps {} p srv (session_abort p e srv3)" for e
    using keeps_only [OF two(2) keeps_abort [OF two(1,3)]]
      keeps_only [OF only_trans [OF two(2) three(2)] keeps_abort [OF three(1) mem3]] by simp_all
  have "keeps {} p srv (session_stream p w srv3)" if "source = Some w" for w
    using keeps_only [OF only_trans [OF two(2) three(2)] keeps_stream [OF three(1) mem3]] wav(4) that by simp
  then show ?thesis
    using abort s same(1) wav(1)
    by (simp add: session_open_def o1 update_session_def session_at_def split: option.split)
qed

text \<open>
  The file name of a SYN packet: it is read up to a limit that the packet
  gives, or to the first zero byte, and neither need be in the buffer.
\<close>

definition name_overruns :: "header \<Rightarrow> bytes \<Rightarrow> bool" where
  "name_overruns h buf \<longleftrightarrow>
     length buf - (sizeof_header + sizeof_cfg) < name_limit h \<and> 0 \<notin> set (drop (sizeof_header + sizeof_cfg) buf)"

lemma keeps_syn:
  assumes wf: "wf_but (Some p) srv" and s: "srv_mem srv p = Some s" and len: "sizeof_header + sizeof_cfg \<le> length buf"
  shows "keeps (if name_overruns h buf then {Out_Of_Bounds} else {}) p srv (session_syn p h buf srv)"
proof -
  have "0 + 1 \<le> length (drop sizeof_header buf)"
    using len by (simp add: sizeof_defs)
  then obtain c where "load_u8 (drop sizeof_header buf) 0 = Ok c"
    using load_total(1) by blast
  then have cfg: "cfg_load (drop sizeof_header buf) = Ok \<lparr>cfg_codec = c\<rparr>"
    by (simp add: cfg_load_def)
  show ?thesis
  proof (cases "name_overruns h buf")
    case True
    then have "strndup buf (sizeof_header + sizeof_cfg) (name_limit h) = Fault Out_Of_Bounds"
      by (simp add: strndup_def name_overruns_def Let_def)
    then show ?thesis
      using True cfg by (simp add: session_syn_def keeps_def)
  next
    case False
    then obtain name where "strndup buf (sizeof_header + sizeof_cfg) (name_limit h) = Ok name"
      by (auto simp: strndup_def name_overruns_def Let_def)
    then show ?thesis
      using False cfg keeps_abort [OF wf s] keeps_open [OF wf s] by (simp add: session_syn_def)
  qed
qed

lemma keeps_pull:
  assumes wf: "server_wf srv" and s: "srv_mem srv p = Some s" "session_wf s" "streaming s"
  shows "keeps {} p srv (session_pull p srv)"
proof -
  obtain pl where pl: "s_pipeline s = Some pl" "s_sink_logic s" "ready_pipe pl \<or> done_pipe pl"
    using s(2,3) by (auto simp: session_wf_def streaming_def split: option.splits)
  from pl(3) show ?thesis
  proof
    assume ready: "ready_pipe pl"
    let ?f = "file_at (ws_fd pl) srv"
    let ?srv1 = "stream_step p s (ws_fd pl) ?f srv"
    let ?srv' = "store_pipe p (pulled_pipe ?f pl) ?srv1"
    obtain x where x: "srv_mem ?srv1 = (srv_mem srv)(p \<mapsto> x)" "x = s\<lparr>s_seq := s_seq x\<rparr>"
      using srv_mem_stream_step [of p s "ws_fd pl" ?f srv] by (elim exE conjE)
    have proj: "s_addr x = s_addr s" "s_next x = s_next s" "s_sink_logic x = s_sink_logic s" "s_state x = s_state s"
      by (subst x(2), simp)+
    have mem: "srv_mem ?srv' = (srv_mem srv)(p \<mapsto> x\<lparr>s_pipeline := Some (pulled_pipe ?f pl)\<rparr>)"
      using x(1) by (simp add: store_pipe_def)
    have "session_wf (x\<lparr>s_pipeline := Some (pulled_pipe ?f pl)\<rparr>)"
      using proj s(3) pl(2) pulled_pipe_simps [OF ready, of ?f] by (auto simp: session_wf_def streaming_def)
    with step_memory [OF wf _ mem _ s(1)] proj show ?thesis
      by (simp add: keeps_def session_pull_ready [OF s(1) pl(2,1) ready refl])
  next
    assume over: "done_pipe pl"
    let ?pl = "pl\<lparr>worker := idle_worker (Suc (fresh (worker pl)))\<rparr>"
    have mem: "srv_mem (store_pipe p ?pl srv) = (srv_mem srv)(p \<mapsto> s\<lparr>s_pipeline := Some ?pl\<rparr>)"
      using s(1) by (simp add: store_pipe_def)
    have "session_wf (s\<lparr>s_pipeline := Some ?pl\<rparr>)"
      using s(3) pl(2) over by (auto simp: session_wf_def streaming_def done_pipe_def)
    with step_memory [OF wf _ mem _ s(1)] show ?thesis
      by (simp add: keeps_def session_pull_done [OF s(1) pl(2,1) over])
  qed
qed

section \<open>Any packet\<close>

text \<open>Where the length of a SYN packet takes the name out of the receive buffer.\<close>

definition syn_overruns :: "session \<Rightarrow> bytes \<Rightarrow> bool" where
  "syn_overruns s buf \<longleftrightarrow> s_state s = STATE_INITIAL \<and>
     (\<exists>h. header_load buf = Ok h \<and> flag_isset (hd_flags h) FLAG_SYN \<and> name_overruns h buf)"

lemma keeps_state_machine:
  assumes wf: "server_wf srv" and s: "srv_mem srv p = Some s" and len: "sizeof_header + sizeof_cfg \<le> length buf"
  shows "keeps (if syn_overruns s buf then {Out_Of_Bounds} else {}) p srv
    (sas_server_session_state_machine srv p buf)"
proof -
  obtain h where h: "header_load buf = Ok h"
    using header_load_total [of buf] len by auto
  show ?thesis
  proof (cases "hd_seq h < s_ack s")
    case True
    then show ?thesis
      using wf state_machine_old [OF h s] by (simp add: keeps_def)
  next
    case False
    let ?s1 = "accept h s"
    let ?srv1 = "set_session p ?s1 srv"
    have s_wf: "session_wf s"
      by (rule server_wf_session [OF wf s])
    have one: "wf_but (Some p) ?srv1" "server_wf ?srv1" "only p srv ?srv1" "srv_mem ?srv1 p = Some ?s1"
      using step_memory [OF wf _ srv_mem_set_session _ s, of ?s1] s_wf by simp_all
    note only = keeps_only [OF one(3)]
    show ?thesis
    proof (cases "flag_isset (hd_flags h) FLAG_RST")
      case True
      then show ?thesis
        unfolding state_machine_accepts [OF h s False]
        using only [OF keeps_mono [OF keeps_delete [OF one(1,4)]]] by simp
    next
      case plain: False
      show ?thesis
      proof (cases "streaming s")
        case True
        let ?s2 = "?s1\<lparr>s_state := STATE_ESTABLSH\<rparr>"
        let ?srv2 = "set_session p ?s2 srv"
        have wf2: "session_wf ?s2" "streaming ?s2"
          using s_wf True by (auto simp: session_wf_def streaming_def split: option.splits)
        have two: "server_wf ?srv2" "only p srv ?srv2" "srv_mem ?srv2 p = Some ?s2"
          using step_memory [OF wf _ srv_mem_set_session _ s, of ?s2] wf2(1) by simp_all
        show ?thesis
          unfolding state_machine_pulls [OF h s False plain True]
          by (rule keeps_only [OF two(2) keeps_mono [OF keeps_pull [OF two(1,3) wf2]]]) simp
      next
        case not_streaming: False
        then have init: "s_state s = STATE_INITIAL"
          using s_wf by (simp add: session_wf_def split: option.splits)
        have "session_wf ?s1"
          using s_wf by simp
        then have "keeps {} p srv (unit_of (sas_server_session_reset ?srv1 p False))"
          by (rule only [OF keeps_reset [OF one(2,4)]])
        moreover have "keeps (if name_overruns h buf then {Out_Of_Bounds} else {}) p srv (session_syn p h buf ?srv1)"
          by (rule only [OF keeps_syn [OF one(1,4) len]])
        ultimately show ?thesis
          unfolding state_machine_accepts [OF h s False] using h init plain
          by (cases "flag_isset (hd_flags h) FLAG_SYN") (simp_all add: syn_overruns_def Let_def)
      qed
    qed
  qed
qed

section \<open>A descriptor that is closed twice\<close>

lemma delete_closes:
  assumes ok: "table_ok srv" and s: "srv_mem srv p = Some s" "0 \<le> s_fd s"
  shows "\<exists>srv'. sas_server_session_delete srv p = Ok srv' \<and> table_ok srv' \<and>
    contents srv' = (contents srv)(p := None) \<and> fd_open (s_fd s) srv' = None \<and>
    os_send_error srv' = os_send_error srv \<and> os_sent srv' = os_sent srv"
proof -
  obtain cs where rep: "table_rep srv cs"
    using ok by (auto simp: table_ok_def)
  obtain srv' where srv': "sas_server_session_delete srv p = Ok srv'" "table_ok srv'"
    "contents srv' = (contents srv)(p := None)"
    using sessions.del_live [OF ok, of p] s(1) by (auto simp: contents_def)
  let ?drop = "drop_session (bucket_of srv (s_addr s)) (takeWhile (\<lambda>q. q \<noteq> p) (cs ! bucket_of srv (s_addr s))) p s srv"
  have "srv' = ?drop"
    using session_delete_live [OF rep s(1)] srv'(1) by simp
  moreover have "os_send_error ?drop = os_send_error srv" "os_sent ?drop = os_sent srv"
    by (simp_all add: drop_session_def unlink_session_def Let_def)
  ultimately show ?thesis
    using srv' by (simp add: drop_session_fds closed_with_def)
qed

lemma contents_same_session:
  assumes "contents srv' q = contents srv q" "srv_mem srv q = Some t"
  shows "\<exists>n. srv_mem srv' q = Some (t\<lparr>s_next := n\<rparr>)"
proof -
  have "contents srv' q = Some (t\<lparr>s_next := None\<rparr>)"
    using assms by (simp add: contents_def)
  from contents_SomeD [OF this] obtain u where u: "srv_mem srv' q = Some u" "t\<lparr>s_next := None\<rparr> = u\<lparr>s_next := None\<rparr>"
    by blast
  then have "u = t\<lparr>s_next := s_next u\<rparr>"
    by (metis session.surjective session.update_convs(15))
  with u(1) show ?thesis by metis
qed

section \<open>An example\<close>

text \<open>
  A server with a session whose stream from the descriptor 0 is over, and then
  the first packet of another client.
\<close>

definition example_ended :: session where
  "example_ended = example_new\<lparr>s_state := STATE_ESTABLSH, s_sink_logic := True, s_fd := 0,
     s_pipeline := Some ((new_pipe \<lparr>wi_fd = 0, wi_finished = True, wi_sample_rate = 44100, wi_sample_size = 16,
       wi_channels = 2\<rparr>)\<lparr>requested := LONG_MIN, in_parent := True\<rparr>)\<rparr>"

definition example_idle :: server where
  "example_idle = set_session 0 example_ended (example_media\<lparr>srv_stack := replicate sizeof_WaveHeader 0\<rparr>)"

definition example_two :: server where
  "example_two = (case sas_server_session_get example_idle (example_addr 2) of
     Ok (p, srv) \<Rightarrow> srv | Fault e \<Rightarrow> example_idle)"

lemma example_ended_simps [simp]:
  "s_fd example_ended = 0" "session_wf example_ended" "s_next example_ended = s_next example_new"
  "s_addr example_ended = example_addr 1"
  by (auto simp: example_ended_def session_wf_def streaming_def done_pipe_def new_pipe_def create_is_idle)

lemma example_stack: "table_ok (example_media\<lparr>srv_stack := st\<rparr>)"
  by (rule table_ok_linked [OF example_media_simps(2)]) (simp_all add: linked_def fun_eq_iff)

lemma example_media_only: "srv_mem example_media = [0 \<mapsto> example_new]"
  by (simp add: example_media_def example_new_def link_session_def sas_server_alloc_def os.defs server.defs Let_def)

lemma example_idle_wf: "server_wf example_idle"
proof -
  have "table_ok example_idle"
    unfolding example_idle_def by (rule table_ok_set_session [OF example_stack, where s = example_new]) simp_all
  moreover have "contents example_idle = [0 \<mapsto> example_ended\<lparr>s_next := None\<rparr>]"
    by (auto simp: example_idle_def contents_def fun_eq_iff example_media_only)
  ultimately show ?thesis
    by (simp add: wf_but_def) (simp add: example_idle_def)
qed

text \<open>A session that is found for an address is in its bucket.\<close>

lemma lookup_bucket:
  assumes ok: "table_ok srv" "addr_ok a" and p: "session_lookup srv a = Some p"
  shows "\<exists>s. srv_mem srv p = Some s \<and> bucket_of srv (s_addr s) = bucket_of srv a"
proof -
  obtain cs where rep: "table_rep srv cs"
    using ok(1) by (auto simp: table_ok_def)
  have "bucket_lookup srv a (cs ! bucket_of srv a) = Some p"
    using p session_lookup_bucket [OF rep ok(2)] by simp
  then have "p \<in> set (cs ! bucket_of srv a)"
    by (rule bucket_lookup_in)
  then have "in_bucket srv (bucket_of srv a) p"
    using table_rep_bucket(2) [OF rep, of a] by (simp add: bucket_rep_def)
  then show ?thesis
    by (auto simp: in_bucket_def)
qed

lemma example_idle_simps [simp]:
  "table_ok example_idle" "srv_mem example_idle = [0 \<mapsto> example_ended]" "srv_fresh example_idle = 1"
  "ss_capacity example_idle = 32" "srv_malloc_ok example_idle n" "srv_junk example_idle = blank_session"
proof -
  show "table_ok example_idle"
    using example_idle_wf by (simp add: wf_but_def)
  show "srv_mem example_idle = [0 \<mapsto> example_ended]"
    by (simp add: example_idle_def example_media_only)
qed (simp_all add: example_idle_def set_session_def example_media_def link_session_def Let_def
    sas_server_alloc_def os.defs server.defs SESSION_TABLE_INITIAL_CAPACITY_def)

lemma example_two_simps:
  "table_ok example_two" "os_send_error example_two = (\<lambda>_. None)" "os_files example_two = media"
  "lowest_free (os_fds example_two) = 0" "\<exists>n. srv_mem example_two 0 = Some (example_ended\<lparr>s_next := n\<rparr>)"
  "\<exists>n. srv_mem example_two 1 = Some ((new_session blank_session (example_addr 2))\<lparr>s_next := n\<rparr>)"
proof -
  let ?a = "example_addr 2" and ?n = "new_session blank_session (example_addr 2)"
  obtain cs where rep: "table_rep example_idle cs"
    using example_idle_simps(1) unfolding table_ok_def by blast
  let ?x = "sum_list (map sint (u16_bytes 0x901F))"
  have b: "int (bucket_of example_idle (example_addr 1)) = (5356 + ?x) mod 32"
    "int (bucket_of example_idle ?a) = (5357 + ?x) mod 32"
    unfolding bucket_of_sum [OF example_idle_simps(4)]
    by (simp_all add: addr_bytes_def example_addr_def sum_list_replicate)
  have "(5356 + x) mod 32 \<noteq> (5357 + x) mod 32" for x :: int
    unfolding mod_eq_dvd_iff by simp
  then have "int (bucket_of example_idle (example_addr 1)) \<noteq> int (bucket_of example_idle ?a)"
    unfolding b by blast
  then have none: "session_lookup example_idle ?a = None"
    using lookup_bucket [OF example_idle_simps(1) example_addr_ok(1), of 2]
    by (cases "session_lookup example_idle ?a") (auto split: if_splits)
  let ?i = "bucket_of example_idle ?a"
  have len: "length (sa_addr ?a) = 16"
    using example_addr_ok(1) [of 2] by (simp add: addr_ok_def)
  have no: "bucket_lookup example_idle ?a (cs ! ?i) = None"
    using none session_lookup_bucket [OF rep example_addr_ok(1)] by simp
  have two: "example_two = link_session ?i (cs ! ?i) ?n example_idle"
    using session_get_new [OF rep len no] by (simp add: example_two_def)
  have n: "s_addr ?n = ?a" "s_next ?n = None"
    by (simp_all add: new_session_def)
  show "table_ok example_two"
    unfolding two table_ok_def using table_rep_link [OF rep len refl no n] by blast
  show "os_send_error example_two = (\<lambda>_. None)" "os_files example_two = media" "lowest_free (os_fds example_two) = 0"
    unfolding two by (simp_all add: link_session_def Let_def example_idle_def)
      (simp add: example_media_def link_session_def Let_def sas_server_alloc_def os.defs server.defs fresh_os_def)
  have c: "contents example_two = (contents example_idle)(1 \<mapsto> ?n)"
    unfolding two using contents_link_session [OF rep table_rep_bucket(1) [OF rep] n(2)] by simp
  show "\<exists>n. srv_mem example_two 0 = Some (example_ended\<lparr>s_next := n\<rparr>)"
    by (rule contents_same_session [of _ _ example_idle]) (simp_all add: c)
  have "contents example_two 1 = contents (set_session 1 ?n example_idle) 1"
    using n(2) by (simp add: c contents_def)
  from contents_same_session [OF this]
  show "\<exists>n. srv_mem example_two 1 = Some (?n\<lparr>s_next := n\<rparr>)"
    by simp
qed

section \<open>Properties\<close>

text \<open>C16. Whatever a packet holds, a server whose sessions are well-formed handles
  it, stays well-formed, and leaves all sessions but the packet's own as they were. The
  one exception is a first packet with a length that takes the file name out of
  the receive buffer.\<close>

theorem any_packet_handled:
  assumes "server_wf srv" "srv_mem srv p = Some s" "sizeof_header + sizeof_cfg \<le> length buf"
  shows "case sas_server_session_state_machine srv p buf of
      Ok srv' \<Rightarrow> server_wf srv' \<and> (\<forall>q. q \<noteq> p \<longrightarrow> contents srv' q = contents srv q)
    | Fault e \<Rightarrow> e = Out_Of_Bounds \<and> syn_overruns s buf"
  using keeps_state_machine [OF assms]
  by (cases "sas_server_session_state_machine srv p buf") (auto simp: keeps_def only_def split: if_splits)

theorem any_packet_handled_witness:
  "case sas_server_session_state_machine example_idle 0 (example_ack 2 @ [0]) of
      Ok srv' \<Rightarrow> server_wf srv' | Fault e \<Rightarrow> e = Out_Of_Bounds \<and> syn_overruns example_ended (example_ack 2 @ [0])"
proof -
  have "sizeof_header + sizeof_cfg \<le> length (example_ack 2 @ [0])"
    by (simp add: example_ack_def image_simps sizeof_defs)
  from any_packet_handled [OF example_idle_wf _ this, of 0 example_ended] show ?thesis
    by (simp split: res.splits)
qed

text \<open>C31. A descriptor that is closed twice: the source closes the file at the end of the
  stream, and the session that is over keeps its number. Where another client asks
  for a file meanwhile, that file is given the same number, and deleting the
  first session closes it: the second client, whose file is intact, is sent the
  error of a bad descriptor in place of the data.\<close>

theorem ended_session_closes_other_file:
  assumes ok: "table_ok srv" "os_send_error srv = (\<lambda>_. None)"
    and over: "stream_over srv p s" "s_fd s = int (lowest_free (os_fds srv))"
    and t: "q \<noteq> p" "srv_mem srv q = Some t" "s_state t = STATE_INITIAL"
    and path: "os_files srv name = Inr \<lparr>f_rest = wave_header_image wpad w @ data, f_err = None\<rparr>" "playable w"
    and h: "length pad = 2" "hd_length h = of_nat (Suc (length name))" "length name < 2 ^ 16 - 1" "0 \<notin> set name"
      "hd_flags h = FLAG_SYN" "\<not> hd_seq h < s_ack t"
    and g: "header_load buf = Ok g" "\<not> hd_seq g < hd_seq h + seq_step (hd_length h)"
      "\<not> flag_isset (hd_flags g) FLAG_RST"
  shows "\<exists>srv1 srv2 srv3 d. sas_server_session_state_machine srv q (syn_buffer pad h 0 (name @ rest)) = Ok srv1 \<and>
    sas_server_session_delete srv1 p = Ok srv2 \<and> sas_server_session_state_machine srv2 q buf = Ok srv3 \<and>
    os_sent srv3 = os_sent srv1 @ [(s_addr t, d)] \<and> sent_flags d = FLAG_RST OR FLAG_ERR \<and>
    and_then (err_load (pk_payload d)) (\<lambda>c. Ok (err_code (err_decode c))) = Ok EBADF"
proof -
  let ?srv0 = "set_session q (accept h t) srv"
  have env: "srv_mem ?srv0 q = Some (accept h t)" "os_send_error ?srv0 = (\<lambda>_. None)"
    "os_files ?srv0 name = Inr \<lparr>f_rest = wave_header_image wpad w @ data, f_err = None\<rparr>"
    using ok(2) path(1) by simp_all
  obtain srv1 t1 where one: "session_open q name ?srv0 = Ok srv1" "mid_stream srv1 q t1 data"
    "s_addr t1 = s_addr t" "s_ack t1 = hd_seq h + seq_step (hd_length h)" "s_next t1 = s_next t"
    "frame_of srv1 = frame_of ?srv0" "srv_mem srv1 = (srv_mem ?srv0)(q \<mapsto> t1)"
    "map_option ws_fd (s_pipeline t1) = Some (s_fd s)"
    using session_open_playable [OF env path(2)] over(2) by auto
  have run1: "sas_server_session_state_machine srv q (syn_buffer pad h 0 (name @ rest)) = Ok srv1"
    using state_machine_syn [OF h(1-5) t(2,3) h(6), of 0 rest] one(1) by simp
  have s: "srv_mem srv1 p = Some s" "0 \<le> s_fd s"
    using over t(1) one(7) by (simp_all add: stream_over_def)
  have "linked srv1 = linked srv"
    using t(2) one(3,5,7) by (auto simp: linked_def fun_eq_iff)
  then have ok1: "table_ok srv1"
    using table_ok_frame [OF ok(1)] one(6) by simp
  obtain srv2 where two: "sas_server_session_delete srv1 p = Ok srv2" "contents srv2 = (contents srv1)(p := None)"
    "fd_open (s_fd s) srv2 = None" "os_send_error srv2 = os_send_error srv1" "os_sent srv2 = os_sent srv1"
    using delete_closes [OF ok1 s] by blast
  obtain pl where pl: "s_pipeline t1 = Some pl" "ready_pipe pl" "ws_fd pl = s_fd s"
    and m: "srv_mem srv1 q = Some t1" "streaming t1" "s_sink_logic t1" "os_send_error srv1 = (\<lambda>_. None)"
    using one(2,8) by (auto simp: mid_stream_def split: option.splits)
  have "contents srv2 q = contents srv1 q"
    using two(2) t(1) by simp
  from contents_same_session [OF this m(1)] obtain n where mem2: "srv_mem srv2 q = Some (t1\<lparr>s_next := n\<rparr>)"
    by blast
  have bad: "file_at (ws_fd pl) srv2 = \<lparr>f_rest = [], f_err = Some EBADF\<rparr>"
    using two(3) pl(3) by (simp add: file_at_def)
  let ?d = "next_packet (accept g (t1\<lparr>s_next := n\<rparr>)) (FLAG_RST OR FLAG_ERR)
    (err_image [] (err_encode \<lparr>err_code = EBADF\<rparr>))"
  obtain srv3 where "sas_server_session_state_machine srv2 q buf = Ok srv3" "os_sent srv3 = os_sent srv2 @ [(s_addr t, ?d)]"
    using stream_ends [OF mem2 _ _ _ pl(2) bad _ g(1) _ g(3)] m pl(1) two(4) one(3,4) g(2)
    by (auto simp: streaming_def)
  then show ?thesis
    using run1 two(1,5) err_received [of EBADF]
    by (intro exI [of _ srv1] exI [of _ srv2] exI [of _ srv3] exI [of _ ?d]) simp
qed

theorem ended_session_closes_other_file_witness:
  "\<exists>srv1 srv2 srv3 d. sas_server_session_state_machine example_two 1
      (syn_buffer [0, 0] (example_header 0 FLAG_SYN 2) 0 [0x61]) = Ok srv1 \<and>
    sas_server_session_delete srv1 0 = Ok srv2 \<and> sas_server_session_state_machine srv2 1 (example_ack 2) = Ok srv3 \<and>
    os_sent srv3 = os_sent srv1 @ [(example_addr 2, d)] \<and> sent_flags d = FLAG_RST OR FLAG_ERR \<and>
    and_then (err_load (pk_payload d)) (\<lambda>c. Ok (err_code (err_decode c))) = Ok EBADF"
proof -
  obtain m n where m: "srv_mem example_two 0 = Some (example_ended\<lparr>s_next := m\<rparr>)"
    and n: "srv_mem example_two 1 = Some ((new_session blank_session (example_addr 2))\<lparr>s_next := n\<rparr>)"
    using example_two_simps(5,6) by blast
  have "stream_over example_two 0 (example_ended\<lparr>s_next := m\<rparr>)"
    using m by (auto simp: stream_over_def streaming_def example_ended_def done_pipe_def new_pipe_def create_is_idle)
  from ended_session_closes_other_file [OF example_two_simps(1,2) this _ _ n, of "[0x61]" "0x20" example_wav "[1, 2]"
      "[0, 0]" "example_header 0 FLAG_SYN 2" "example_ack 2" "example_header 2 FLAG_ACK 0" "[]"]
  show ?thesis
    by (simp add: example_two_simps(3,4) media_def new_session_def seq_step_def)
qed

end
