(* ===== verification/Server_Safety.thy ===== *)
theory Server_Safety
  imports Server_Run Session_Safety
begin

text \<open>
  What can go wrong in the server's loop, whatever clients send: the states the
  loop goes through are well-formed, and each of its rounds ends, with no fault
  but an access to a session that it has freed, to a file name outside the buffer, or, when
  there is no memory for the session of a packet, through the null pointer that the loop has in place of it. At the
  end, the history of a client that sends two packets and falls silent.
\<close>

section \<open>The heap with entries that may be freed\<close>

definition shaped :: "server \<Rightarrow> bool" where
  "shaped srv \<longleftrightarrow> th_count srv \<le> th_capacity srv \<and> length (th_heap srv) = th_capacity srv \<and>
     0 < th_capacity srv \<and> (\<forall>i < th_count srv. th_heap srv ! i \<noteq> None)"

text \<open>A step of the heap: everything but its array is left as it was.\<close>

definition heaped :: "server \<Rightarrow> server \<Rightarrow> bool" where
  "heaped srv srv' \<longleftrightarrow> shaped srv' \<and> aside srv' = aside srv"

lemma heaped_trans: "heaped a b \<Longrightarrow> heaped b c \<Longrightarrow> heaped a c"
  by (simp add: heaped_def)

lemma shaped_swap: "shaped srv \<Longrightarrow> i < th_count srv \<Longrightarrow> j < th_count srv \<Longrightarrow> heaped srv (heap_swap i j srv)"
  by (auto simp: heaped_def shaped_def nth_swap_at) (simp_all add: aside_def heap_swap_def)

lemma heap_timeout_shaped:
  "shaped srv \<Longrightarrow> i < th_count srv \<Longrightarrow> within {Use_After_Free} (\<lambda>t. True) (heap_timeout i srv)"
  by (auto simp: shaped_def heap_timeout_def heap_at_def session_at_def deref_def split: option.split)

lemma bubble_up_shaped:
  "shaped srv \<Longrightarrow> index < th_count srv \<Longrightarrow> within {Use_After_Free} (heaped srv) (bubble_up index srv)"
proof (induction index srv rule: bubble_up.induct)
  case (1 index srv)
  show ?case
  proof (cases "index = 0")
    case True
    then show ?thesis
      using 1(2) by (simp add: bubble_up.simps [of 0] heaped_def)
  next
    case False
    let ?q = "(index - 1) div 2"
    have q: "?q < th_count srv"
      using 1(3) by linarith
    note swap = shaped_swap [OF 1(2,3) q]
    let ?rest = "\<lambda>tp ti. if tp < ti then Ok srv else bubble_up ?q (heap_swap index ?q srv)"
    have "within {Use_After_Free} (heaped srv) (and_then (heap_timeout ?q srv) (\<lambda>tp.
        and_then (heap_timeout index srv) (?rest tp)))"
    proof (rule within_and_then [OF heap_timeout_shaped [OF 1(2) q]],
        rule within_and_then [OF heap_timeout_shaped [OF 1(2,3)]])
      fix tp ti
      assume t: "heap_timeout ?q srv = Ok tp" "heap_timeout index srv = Ok ti"
      show "within {Use_After_Free} (heaped srv) (?rest tp ti)"
      proof (cases "tp < ti")
        case less: False
        have "within {Use_After_Free} (heaped (heap_swap index ?q srv)) (bubble_up ?q (heap_swap index ?q srv))"
          by (rule 1(1) [OF False refl t less]) (use swap q in \<open>simp_all add: heaped_def\<close>)
        then have "within {Use_After_Free} (heaped srv) (bubble_up ?q (heap_swap index ?q srv))"
          by (rule within_mono) (auto intro: heaped_trans [OF swap])
        then show ?thesis
          using less by simp
      qed (use 1(2) in \<open>simp add: heaped_def\<close>)
    qed
    then show ?thesis
      using False by (simp add: bubble_up.simps [of index] Let_def del: One_nat_def)
  qed
qed

lemma heapify_lowest_shaped:
  assumes "shaped srv"
  shows "within {Use_After_Free} (\<lambda>lowest. True) (heapify_lowest index srv)"
proof -
  note t = heap_timeout_shaped [OF assms]
  have "within {Use_After_Free} (\<lambda>lowest. lowest = index \<or> lowest < th_count srv)
    (if 2 * index + 1 < th_count srv then
       and_then (heap_timeout (2 * index + 1) srv) (\<lambda>tl. and_then (heap_timeout index srv) (\<lambda>ti.
       Ok (if tl < ti then 2 * index + 1 else index)))
     else Ok index)"
    by (auto intro!: within_and_then t)
  then show ?thesis
    unfolding heapify_lowest_def Let_def by (rule within_and_then) (auto intro!: within_and_then t)
qed

lemma heapify_shaped:
  "shaped srv \<Longrightarrow> within {Use_After_Free} (\<lambda>srv'. heaped srv srv' \<and> th_count srv' = th_count srv)
    (sas_server_timeout_heapify index srv)"
proof (induction index srv rule: sas_server_timeout_heapify.induct)
  case (1 index srv)
  show ?case
    unfolding sas_server_timeout_heapify.simps [of index]
  proof (rule within_and_then [OF heapify_lowest_shaped [OF 1(2)]])
    fix lowest
    assume low: "heapify_lowest index srv = Ok lowest"
    show "within {Use_After_Free} (\<lambda>srv'. heaped srv srv' \<and> th_count srv' = th_count srv)
        (if lowest \<noteq> index then sas_server_timeout_heapify lowest (heap_swap lowest index srv) else Ok srv)"
    proof (cases "lowest = index")
      case False
      then have "lowest < th_count srv" "index < th_count srv"
        using heapify_lowest_range [OF low] by auto
      then have swap: "heaped srv (heap_swap lowest index srv)"
        using shaped_swap [OF 1(2)] by simp
      then have "within {Use_After_Free} (\<lambda>srv'. heaped (heap_swap lowest index srv) srv' \<and>
          th_count srv' = th_count (heap_swap lowest index srv))
          (sas_server_timeout_heapify lowest (heap_swap lowest index srv))"
        using 1(1) [OF low False] by (simp add: heaped_def)
      then show ?thesis
        using False swap by (auto elim!: within_mono intro: heaped_trans)
    qed (use 1(2) in \<open>simp add: heaped_def\<close>)
  qed
qed

lemma timeout_add_shaped:
  assumes "shaped srv"
  shows "within {Use_After_Free} (heaped srv) (sas_server_timeout_add srv p)"
proof -
  have add: "sas_server_timeout_add srv p = bubble_up (th_count srv) (heap_placed p srv)"
    using assms by (auto simp: sas_server_timeout_add_def heap_placed_def heap_grown_def shaped_def Let_def)
  have "shaped (heap_placed p srv)" "th_count srv < th_count (heap_placed p srv)"
    "aside (heap_placed p srv) = aside srv"
    using assms by (auto simp: shaped_def heap_placed_def heap_grown_def nth_append nth_list_update less_Suc_eq aside_def)
  then show ?thesis
    unfolding add using bubble_up_shaped [of "heap_placed p srv" "th_count srv"]
    by (auto elim!: within_mono simp: heaped_def)
qed

lemma timeout_pop_shaped:
  assumes "shaped srv"
  shows "within {Use_After_Free} (\<lambda>(t, srv'). heaped srv srv' \<and>
      (case t of None \<Rightarrow> th_count srv' = 0 | Some p \<Rightarrow> Suc (th_count srv') = th_count srv))
    (sas_server_timeout_pop srv)"
proof (cases "th_count srv = 0")
  case True
  then show ?thesis
    using assms timeout_pop_empty [OF True] by (simp add: heaped_def)
next
  case False
  have "shaped (heap_pulled srv)" "aside (heap_pulled srv) = aside srv" "Suc (th_count (heap_pulled srv)) = th_count srv"
    using assms False by (auto simp: shaped_def heap_pulled_def nth_list_update aside_def)
  moreover obtain p where "th_heap srv ! 0 = Some p"
    using assms False by (auto simp: shaped_def)
  ultimately show ?thesis
    using False heapify_shaped [of "heap_pulled srv" 0]
    by (auto simp: timeout_pop_pulled heaped_def intro: within_and_then)
qed

section \<open>The waits\<close>

text \<open>A server in order, and whether there is memory for the next session.\<close>

definition server_ok :: "bool \<Rightarrow> server \<Rightarrow> bool" where
  "server_ok m srv \<longleftrightarrow> server_wf srv \<and> shaped srv \<and> srv_malloc_ok srv (srv_fresh srv) = m"

lemma server_wf_aside: "aside srv' = aside srv \<Longrightarrow> server_wf srv' = server_wf srv"
proof -
  assume same: "aside srv' = aside srv"
  show "server_wf srv' = server_wf srv"
    unfolding wf_but_def by (simp add: aside_table(1,2) [OF same] asideD(13) [OF same])
qed

lemma server_ok_heaped: "heaped srv srv' \<Longrightarrow> server_ok m srv \<Longrightarrow> server_ok m srv'"
proof -
  assume h: "heaped srv srv'" and ok: "server_ok m srv"
  then have same: "aside srv' = aside srv"
    by (simp add: heaped_def)
  show "server_ok m srv'"
    using ok h unfolding server_ok_def heaped_def by (simp add: server_wf_aside [OF same] asideD(5,11) [OF same])
qed

lemma shaped_os_time: "server_ok m srv \<Longrightarrow> heaped srv (snd (os_time srv))"
  by (simp add: server_ok_def heaped_def shaped_def os_time_def) (simp add: aside_def)

lemma server_ok_only:
  "server_ok m srv \<Longrightarrow> server_wf srv' \<Longrightarrow> only p srv srv' \<Longrightarrow> server_ok m srv' \<and> th_count srv' = th_count srv"
  by (simp add: server_ok_def only_def heap_part_def shaped_def)

lemma session_at_dead: "srv_mem srv p = None \<Longrightarrow> session_at p srv = Fault Use_After_Free"
  by (simp add: session_at_def)

lemma timeout_ok:
  assumes "server_ok m srv"
  shows "within {Use_After_Free} (\<lambda>srv'. server_ok m srv' \<and> th_count srv' = th_count srv) (sas_server_timeout srv p)"
proof -
  let ?srv1 = "snd (os_time srv)"
  have one: "server_ok m ?srv1"
    by (rule server_ok_heaped [OF shaped_os_time [OF assms] assms])
  have count: "th_count ?srv1 = th_count srv"
    by (simp add: os_time_def)
  show ?thesis
  proof (cases "srv_mem srv p")
    case None
    then show ?thesis
      by (simp add: sas_server_timeout_def case_prod_unfold Let_def session_at_dead)
  next
    case (Some s)
    then have "within {} (\<lambda>srv'. server_wf srv' \<and> only p ?srv1 srv' \<and> srv_mem srv' p = None)
        (sas_server_session_delete ?srv1 p)"
      using step_delete [of None ?srv1 p s] one by (simp add: server_ok_def)
    then have "within {Use_After_Free} (\<lambda>srv'. server_ok m srv' \<and> th_count srv' = th_count srv)
        (sas_server_session_delete ?srv1 p)"
      by (rule within_mono) (use server_ok_only [OF one] count in auto)
    then show ?thesis
      using Some one count by (simp add: sas_server_timeout_def case_prod_unfold Let_def session_at_def)
  qed
qed

lemma pop_ok:
  assumes "server_ok m srv"
  shows "within {Use_After_Free} (\<lambda>(t, srv'). server_ok m srv' \<and>
      (case t of None \<Rightarrow> th_count srv' = 0 | Some p \<Rightarrow> Suc (th_count srv') = th_count srv))
    (sas_server_timeout_pop srv)"
proof -
  have "shaped srv"
    using assms by (simp add: server_ok_def)
  from timeout_pop_shaped [OF this] show ?thesis
    by (rule within_mono) (auto intro: server_ok_heaped [OF _ assms])
qed

lemma expire_loop_ok:
  assumes "server_ok m srv" "case t of None \<Rightarrow> 0 < k | Some p \<Rightarrow> Suc (th_count srv) < k"
  shows "within {Use_After_Free} (\<lambda>(t', srv'). server_ok m srv') (expire_loop k now t srv)"
  using assms
proof (induction k arbitrary: t srv)
  case (Suc k)
  show ?case
  proof (cases t)
    case None
    then show ?thesis
      using Suc.prems by simp
  next
    case (Some p)
    show ?thesis
    proof (cases "srv_mem srv p")
      case None
      then show ?thesis
        using Some by (simp add: session_at_dead)
    next
      case (Some s)
      have "within {Use_After_Free} (\<lambda>(t', srv'). server_ok m srv')
          (and_then (sas_server_timeout srv p) (\<lambda>srv1. and_then (sas_server_timeout_pop srv1) (\<lambda>(u, srv2).
            expire_loop k now u srv2)))"
      proof (rule within_and_then [OF timeout_ok [OF Suc.prems(1)]])
        fix srv1
        assume one: "server_ok m srv1 \<and> th_count srv1 = th_count srv"
        show "within {Use_After_Free} (\<lambda>(t', srv'). server_ok m srv')
            (and_then (sas_server_timeout_pop srv1) (\<lambda>(u, srv2). expire_loop k now u srv2))"
        proof (rule within_and_then [OF pop_ok [OF conjunct1 [OF one]]], clarify)
          fix u :: "sid option" and srv2
          assume "server_ok m srv2"
            "case u of None \<Rightarrow> th_count srv2 = 0 | Some q \<Rightarrow> Suc (th_count srv2) = th_count srv1"
          then show "within {Use_After_Free} (\<lambda>(t', srv'). server_ok m srv') (expire_loop k now u srv2)"
            using one Suc.prems(2) \<open>t = Some p\<close> by (intro Suc.IH) (auto split: option.split)
        qed
      qed
      then show ?thesis
        using Some \<open>t = Some p\<close> Suc.prems(1) by (simp add: session_at_def)
    qed
  qed
qed (simp split: option.splits)

lemma next_timeout_ok:
  assumes "server_ok m srv"
  shows "within {Use_After_Free} (\<lambda>(t, srv'). server_ok m srv') (next_timeout srv)"
  unfolding next_timeout_def
proof (rule within_and_then [OF pop_ok [OF assms]], clarify)
  fix t srv1
  assume one: "server_ok m srv1"
  let ?srv2 = "snd (os_time srv1)"
  have "server_ok m ?srv2"
    by (rule server_ok_heaped [OF shaped_os_time [OF one] one])
  then have "within {Use_After_Free} (\<lambda>(t, srv'). server_ok m srv')
      (expire_loop (th_count ?srv2 + 2) (fst (os_time srv1)) t ?srv2)"
    by (rule expire_loop_ok) (simp split: option.split)
  then show "within {Use_After_Free} (\<lambda>(t, srv'). server_ok m srv')
      (let (now, srv2) = os_time srv1 in expire_loop (th_count srv2 + 2) now t srv2)"
    by (simp only: Let_def case_prod_unfold)
qed

section \<open>A datagram\<close>

lemma no_memory_get:
  assumes "table_ok srv" "addr_ok a" "session_lookup srv a = None" "\<not> srv_malloc_ok srv (srv_fresh srv)"
  shows "sas_server_session_get srv a = Ok (None, srv\<lparr>srv_fresh := srv_fresh srv + 1\<rparr>)"
proof -
  obtain cs where rep: "table_rep srv cs"
    using assms(1) by (auto simp: table_ok_def)
  have "bucket_lookup srv a (cs ! bucket_of srv a) = None"
    using assms(3) session_lookup_bucket [OF rep assms(2)] by simp
  from session_get_no_memory [OF rep _ this assms(4)] show ?thesis
    using assms(2) by (simp add: addr_ok_def)
qed

lemma session_get_ok:
  assumes ok: "server_ok m srv" and a: "addr_ok a"
  shows "within {} (\<lambda>(session, srv'). (\<exists>m'. server_ok m' srv') \<and>
      (case session of None \<Rightarrow> \<not> m | Some p \<Rightarrow> \<exists>s. srv_mem srv' p = Some s))
    (sas_server_session_get srv a)"
proof -
  have wf: "server_wf srv" and table: "table_ok srv"
    using ok by (simp_all add: server_ok_def wf_but_def)
  then obtain cs where rep: "table_rep srv cs"
    by (auto simp: table_ok_def)
  have len: "length (sa_addr a) = 16"
    using a by (simp add: addr_ok_def)
  show ?thesis
  proof (cases "session_lookup srv a")
    case (Some p)
    then have "sas_server_session_get srv a = Ok (Some p, srv)"
      by (rule sessions.get_found [OF table a])
    moreover have "contents srv p \<noteq> None"
      by (rule sessions.lookup_live [OF table a Some])
    ultimately show ?thesis
      using ok by (auto simp: contents_def)
  next
    case None
    let ?n = "new_session (srv_junk srv) a"
    let ?srv = "link_session (bucket_of srv a) (cs ! bucket_of srv a) ?n srv"
    have none: "bucket_lookup srv a (cs ! bucket_of srv a) = None"
      using None session_lookup_bucket [OF rep a] by simp
    show ?thesis
    proof (cases m)
      case False
      let ?srv0 = "srv\<lparr>srv_fresh := srv_fresh srv + 1\<rparr>"
      have "sas_server_session_get srv a = Ok (None, ?srv0)"
        by (rule session_get_no_memory [OF rep len none]) (use ok False in \<open>simp add: server_ok_def\<close>)
      moreover have "table_ok ?srv0"
        using table_rep_fresh_up [OF rep] by (auto simp: table_ok_def)
      moreover have "contents ?srv0 = contents srv"
        by (simp add: contents_def fun_eq_iff)
      ultimately show ?thesis
        using ok False by (simp add: server_ok_def wf_but_def shaped_def)
    next
      case True
      have get: "sas_server_session_get srv a = Ok (Some (srv_fresh srv), ?srv)"
        by (rule session_get_new [OF rep len none]) (use ok True in \<open>simp add: server_ok_def\<close>)
      have next_n: "s_addr ?n = a" "s_next ?n = None"
        by (simp_all add: new_session_def)
      have c: "contents ?srv = (contents srv)(srv_fresh srv \<mapsto> ?n)"
        by (rule contents_link_session [OF rep table_rep_bucket(1) [OF rep] next_n(2)])
      have "table_ok ?srv"
        using table_rep_link [OF rep len refl none next_n] by (auto simp: table_ok_def)
      moreover have "srv_stack ?srv = srv_stack srv" "srv_malloc_ok ?srv = srv_malloc_ok srv"
        by (simp_all add: link_session_def Let_def)
      moreover have "shaped ?srv"
        using ok by (simp add: server_ok_def shaped_def)
      ultimately have "\<exists>m'. server_ok m' ?srv"
        using ok c by (auto simp: server_ok_def wf_but_def)
      moreover have "\<exists>s. srv_mem ?srv (srv_fresh srv) = Some s"
        using c contents_None [of ?srv "srv_fresh srv"] by auto
      ultimately show ?thesis
        by (simp add: get)
    qed
  qed
qed

lemma server_ok_update:
  assumes "server_ok m srv"
  shows "within {Use_After_Free} (server_ok m) (update_session p (\<lambda>s. s\<lparr>s_timeout := u\<rparr>) srv)"
proof (cases "srv_mem srv p")
  case None
  then show ?thesis
    by (simp add: update_session_dead)
next
  case (Some s)
  have wf: "server_wf srv"
    using assms by (simp add: server_ok_def)
  let ?s = "s\<lparr>s_timeout := u\<rparr>"
  have "server_wf (set_session p ?s srv)" "only p srv (set_session p ?s srv)"
    using step_memory [OF wf _ srv_mem_set_session _ Some, of ?s] server_wf_session [OF wf Some] by simp_all
  then show ?thesis
    using server_ok_only [OF assms] Some by (simp add: update_session_def session_at_def)
qed

text \<open>The faults of a datagram: without memory for a session, also the null pointer that stands for it.\<close>

definition datagram_faults :: "bool \<Rightarrow> fault set" where
  "datagram_faults m = {Use_After_Free, Out_Of_Bounds} \<union> (if m then {} else {Null_Deref})"

lemma handle_datagram_ok:
  assumes ok: "server_ok m srv" "length buf = buffer_size" and a: "addr_ok a"
  shows "within (datagram_faults m) (\<lambda>(srv', buf'). (\<exists>m'. server_ok m' srv') \<and> length buf' = buffer_size)
    (handle_datagram a d (srv, buf))"
proof -
  let ?F = "datagram_faults m" and ?Q = "\<lambda>(srv', buf'). (\<exists>m'. server_ok m' srv') \<and> length buf' = buffer_size"
  have F: "Use_After_Free \<in> ?F" "{Use_After_Free} \<subseteq> ?F" "Out_Of_Bounds \<in> ?F" "\<not> m \<Longrightarrow> Null_Deref \<in> ?F"
    by (simp_all add: datagram_faults_def)
  obtain t srv1 m1 where get: "sas_server_session_get srv a = Ok (t, srv1)" "server_ok m1 srv1"
    "case t of None \<Rightarrow> \<not> m | Some p \<Rightarrow> \<exists>s. srv_mem srv1 p = Some s"
    using within_emptyD [OF session_get_ok [OF ok(1) a]] by auto
  have "16 \<le> length (recv_into buf d)"
    using ok(2) by (simp add: buffer_size_def)
  then obtain buf2 where buf2: "header_decode_in_place (recv_into buf d) = Ok buf2" "length buf2 = buffer_size"
    using header_decode_in_place_total [of "recv_into buf d"] ok(2) by auto
  show ?thesis
  proof (cases t)
    case None
    then show ?thesis
      using get(1,3) buf2(1) F(4) by (simp add: handle_datagram_def Let_def)
  next
    case (Some p)
    then obtain s where s: "srv_mem srv1 p = Some s"
      using get(3) by auto
    have wf: "server_wf srv1"
      using get(2) by (simp add: server_ok_def)
    have "keeps (if syn_overruns s buf2 then {Out_Of_Bounds} else {}) p srv1 (sas_server_session_state_machine srv1 p buf2)"
      by (rule keeps_state_machine [OF wf s]) (simp add: buf2(2) buffer_size_def sizeof_defs)
    then have machine: "within ?F (server_ok m1) (sas_server_session_state_machine srv1 p buf2)"
      unfolding keeps_def by (rule within_mono) (use F(3) server_ok_only [OF get(2)] in auto)
    have "within ?F ?Q
      (and_then (sas_server_session_state_machine srv1 p buf2) (\<lambda>srv2.
       and_then (update_session p (\<lambda>s. s\<lparr>s_timeout := fst (os_time srv2) + SESSION_TIMEOUT\<rparr>) (snd (os_time srv2)))
         (\<lambda>srv4. and_then (sas_server_timeout_add srv4 p) (\<lambda>srv5. Ok (srv5, buf2)))))"
    proof (rule within_and_then [OF machine], rule within_and_then)
      fix srv2 :: server
      assume two: "server_ok m1 srv2"
      have "server_ok m1 (snd (os_time srv2))"
        by (rule server_ok_heaped [OF shaped_os_time [OF two] two])
      from server_ok_update [OF this] F(2)
      show "within ?F (server_ok m1)
          (update_session p (\<lambda>s. s\<lparr>s_timeout := fst (os_time srv2) + SESSION_TIMEOUT\<rparr>) (snd (os_time srv2)))"
        by (rule within_mono)
    next
      fix srv4 :: server
      assume four: "server_ok m1 srv4"
      then have "within ?F (heaped srv4) (sas_server_timeout_add srv4 p)"
        using F(1) by (intro within_mono [OF timeout_add_shaped]) (auto simp: server_ok_def)
      then show "within ?F ?Q (and_then (sas_server_timeout_add srv4 p) (\<lambda>srv5. Ok (srv5, buf2)))"
        by (rule within_and_then) (use server_ok_heaped [OF _ four] buf2(2) in auto)
    qed
    then show ?thesis
      using Some by (simp add: handle_datagram_def get(1) buf2(1) Let_def case_prod_unfold)
  qed
qed

section \<open>What a datagram adds to the heap\<close>

lemma heap_live_shaped: "heap_live srv \<Longrightarrow> shaped srv"
  by (auto simp: heap_live_def shaped_def)

lemma session_lookup_only:
  assumes "table_ok srv" "addr_ok a" "only p srv srv'" "srv_mem srv' p \<noteq> None"
  shows "session_lookup srv' a = session_lookup srv a"
  using assms by (intro session_lookup_same) (auto simp: only_def indexed_def)

lemma heap_live_only:
  assumes "heap_live srv" "only p srv srv'" "srv_mem srv' p \<noteq> None"
  shows "heap_live srv'" "entries srv' = entries srv"
proof -
  have "srv_mem srv' q \<noteq> None" if "srv_mem srv q \<noteq> None" for q
    using that assms(2,3) contents_None [of srv q] contents_None [of srv' q] by (cases "q = p") (auto simp: only_def)
  then show "heap_live srv'" "entries srv' = entries srv"
    using heap_live_same [OF assms(1), of srv'] assms(2) by (simp_all add: only_def heap_part_def)
qed

text \<open>The session that a datagram is for.\<close>

lemma get_for_datagram:
  assumes "server_wf srv" "heap_live srv" "addr_ok a" "sas_server_session_get srv a = Ok (Some p, srv')"
  shows "server_wf srv' \<and> heap_live srv' \<and> entries srv' = entries srv \<and> session_lookup srv' a = Some p \<and>
    os_clock srv' = os_clock srv \<and> os_ticks srv' = os_ticks srv \<and> (\<exists>s. srv_mem srv' p = Some s) \<and>
    (\<forall>q. session_lookup srv a = Some q \<longrightarrow> p = q \<and> srv' = srv)"
proof -
  have table: "table_ok srv"
    using assms(1) by (simp add: wf_but_def)
  have ok: "server_ok (srv_malloc_ok srv (srv_fresh srv)) srv"
    using assms(1) heap_live_shaped [OF assms(2)] by (simp add: server_ok_def)
  then have wf: "server_wf srv'" and live: "\<exists>s. srv_mem srv' p = Some s"
    using session_get_ok [OF ok assms(3)] assms(4) by (auto simp: server_ok_def)
  show ?thesis
  proof (cases "session_lookup srv a")
    case (Some q)
    then have "p = q \<and> srv' = srv"
      using sessions.get_found [OF table assms(3) Some] assms(4) by simp
    with Some wf live assms(2) show ?thesis by simp
  next
    case None
    have m: "srv_malloc_ok srv (srv_fresh srv)"
      using session_get_ok [OF ok assms(3)] assms(4) None sessions.get_new [OF table assms(3) None] no_memory_get [OF table assms(3) None]
      by (cases "srv_malloc_ok srv (srv_fresh srv)") auto
    obtain s i ps where new: "session_lookup srv' a = Some p" "srv' = link_session i ps s srv"
      using new_client [OF table assms(3) None m] assms(4) by auto
    have "heap_live srv'" "entries srv' = entries srv"
      using heap_live_link_session [OF assms(2)] by (simp_all add: new(2))
    moreover have "os_clock srv' = os_clock srv" "os_ticks srv' = os_ticks srv"
      by (simp_all add: new(2))
    ultimately show ?thesis
      using wf live new(1) None by simp
  qed
qed

lemma server_run_goes_on:
  assumes "sas_server_run (i # is) sb = Ok (Inl t)"
  shows "\<exists>sb'. server_round i sb = Ok (Inl sb') \<and> sas_server_run is sb' = Ok (Inl t)"
proof (cases "server_round i sb")
  case (Ok r)
  then show ?thesis
    using assms by (cases r) simp_all
qed (use assms in simp)

text \<open>
  A datagram, whatever is in it, that the server handles: there is then another entry for its session, which
  has its time from now on.
\<close>

lemma datagram_enters:
  assumes wf: "server_wf srv" "heap_live srv" "addr_ok a" "length buf = buffer_size"
    and quiet: "\<And>q. q \<in> set (entries srv) \<Longrightarrow> os_clock srv (os_ticks srv) < timeout_of srv q"
    and run: "server_round (Datagram a d) (srv, buf) = Ok (Inl (srv', buf'))"
  shows "\<exists>p. session_lookup srv' a = Some p \<and> (\<forall>q. session_lookup srv a = Some q \<longrightarrow> p = q) \<and>
    server_wf srv' \<and> heap_live srv' \<and> length buf' = buffer_size \<and>
    mset (entries srv') = add_mset p (mset (entries srv)) \<and> os_clock srv' = os_clock srv \<and>
    os_ticks srv' = os_ticks srv + 2 \<and> timeout_of srv' p = os_clock srv (os_ticks srv + 1) + SESSION_TIMEOUT"
proof -
  obtain t srv1 srv2 where wait: "next_timeout srv = Ok (t, srv1)" "readd t srv1 = Ok srv2" "heap_live srv2"
    "mset (entries srv2) = mset (entries srv)" "aside srv2 = aside srv" "os_ticks srv2 = os_ticks srv + 1"
    using quiet_wait [OF wf(2) quiet] by blast
  have two: "server_wf srv2" "session_lookup srv2 a = session_lookup srv a" "os_clock srv2 = os_clock srv"
    using wf(1,3) server_wf_aside [OF wait(5)] aside_table [OF wait(5)] asideD(6) [OF wait(5)] by (simp_all add: wf_but_def)
  have handle: "handle_datagram a d (srv2, buf) = Ok (srv', buf')"
    using run wait(1,2) by (simp add: server_round_def and_then_eq_Ok)
  then obtain p srv3 buf2 srv4 where get: "sas_server_session_get srv2 a = Ok (Some p, srv3)"
    and dec: "header_decode_in_place (recv_into buf d) = Ok buf2"
    and sm: "sas_server_session_state_machine srv3 p buf2 = Ok srv4"
    and upd: "update_session p (\<lambda>s. s\<lparr>s_timeout := fst (os_time srv4) + SESSION_TIMEOUT\<rparr>) (snd (os_time srv4)) \<noteq> Fault Use_After_Free"
    by (auto simp: handle_datagram_def deref_def Let_def case_prod_unfold and_then_eq_Ok split: option.splits)
  have three: "server_wf srv3" "heap_live srv3" "entries srv3 = entries srv2" "session_lookup srv3 a = Some p"
    "os_clock srv3 = os_clock srv2" "os_ticks srv3 = os_ticks srv2" "\<forall>q. session_lookup srv2 a = Some q \<longrightarrow> p = q \<and> srv3 = srv2"
    using get_for_datagram [OF two(1) wait(3) wf(3) get] by blast+
  obtain s where s: "srv_mem srv3 p = Some s"
    using get_for_datagram [OF two(1) wait(3) wf(3) get] by blast
  have len: "length buf2 = buffer_size"
    using header_decode_in_place_total [of "recv_into buf d"] dec wf(4) by (auto simp: buffer_size_def)
  have "keeps (if syn_overruns s buf2 then {Out_Of_Bounds} else {}) p srv3 (sas_server_session_state_machine srv3 p buf2)"
    by (rule keeps_state_machine [OF three(1) s]) (simp add: len buffer_size_def sizeof_defs)
  then have four: "server_wf srv4" "only p srv3 srv4"
    by (simp_all add: keeps_def sm)
  have live: "srv_mem srv4 p \<noteq> None"
    using upd update_session_dead [of "snd (os_time srv4)" p] by auto
  then obtain s4 where s4: "srv_mem srv4 p = Some s4"
    by blast
  note heap = heap_live_only [OF three(2) four(2) live]
  let ?s = "s4\<lparr>s_timeout := os_clock srv4 (os_ticks srv4) + SESSION_TIMEOUT\<rparr>"
  let ?srv5 = "set_session p ?s srv4"
  have five: "heap_live srv'" "mset (entries srv') = add_mset p (mset (entries srv4))" "os_ticks srv' = os_ticks srv4 + 1"
    "aside srv' = aside ?srv5" "buf' = buf2"
    using handle_datagram_live [OF get dec sm s4 heap(1)] handle by auto
  have mem5: "server_wf ?srv5" "only p srv4 ?srv5"
    using step_memory [OF four(1) _ srv_mem_set_session _ s4, of ?s] server_wf_session [OF four(1) s4] by simp_all
  have "server_wf srv'"
    using mem5(1) by (simp add: server_wf_aside [OF five(4)])
  moreover have "session_lookup srv' a = Some p"
  proof -
    have "session_lookup srv' a = session_lookup ?srv5 a"
      using aside_table(3) [OF five(4) wf(3)] mem5(1) by (simp add: wf_but_def)
    also have "\<dots> = session_lookup srv4 a"
      by (rule session_lookup_only [OF _ wf(3) mem5(2)]) (use four(1) in \<open>simp_all add: wf_but_def\<close>)
    also have "\<dots> = session_lookup srv3 a"
      by (rule session_lookup_only [OF _ wf(3) four(2) live]) (use three(1) in \<open>simp add: wf_but_def\<close>)
    finally show ?thesis
      by (simp add: three(4))
  qed
  moreover have "timeout_of srv' p = os_clock srv (os_ticks srv + 1) + SESSION_TIMEOUT"
    using asideD(1) [OF five(4)] four(2) three(5,6) two(3) wait(6) by (simp add: timeout_of_def only_def)
  moreover have "os_clock srv' = os_clock srv" "os_ticks srv' = os_ticks srv + 2"
    using asideD(6) [OF five(4)] five(3) four(2) three(5,6) two(3) wait(6) by (simp_all add: only_def set_session_def)
  ultimately show ?thesis
    using five(1,2,5) heap(2) three(3,7) wait(4) len two(2) by (intro exI [of _ p]) simp
qed

section \<open>A round, and every round\<close>

text \<open>
  What the calls of a round may give: addresses have 16 bytes, and \<open>select\<close> gives up
  only where it was given a timeout, that is where there is a session to wait for.
\<close>

fun possible :: "input \<Rightarrow> server \<Rightarrow> bool" where
  "possible (Datagram a d) srv \<longleftrightarrow> addr_ok a"
| "possible Select_Timeout srv \<longleftrightarrow> (case next_timeout srv of Ok (Some p, srv') \<Rightarrow> True | _ \<Rightarrow> False)"
| "possible _ srv \<longleftrightarrow> True"

text \<open>The faults of a round: only a datagram can make it leave the buffer, or follow a null pointer.\<close>

definition round_faults :: "bool \<Rightarrow> input \<Rightarrow> fault set" where
  "round_faults m i = (case i of Datagram a d \<Rightarrow> datagram_faults m | _ \<Rightarrow> {Use_After_Free})"

definition round_gives :: "input \<Rightarrow> server \<times> bytes + i32 \<times> server \<Rightarrow> bool" where
  "round_gives i r = (case r of
     Inl (srv', buf') \<Rightarrow> (\<exists>m. server_ok m srv') \<and> length buf' = buffer_size
   | Inr (e, srv') \<Rightarrow> i = Select_Failed e)"

lemma readd_ok:
  assumes "server_ok m srv"
  shows "within {Use_After_Free} (server_ok m) (readd t srv)"
proof (cases t)
  case (Some p)
  have "shaped srv"
    using assms by (simp add: server_ok_def)
  from timeout_add_shaped [OF this] show ?thesis
    unfolding Some readd_def option.case
    by (rule within_mono) (use server_ok_heaped [OF _ assms] in auto)
qed (use assms in \<open>simp add: readd_def\<close>)

lemma server_round_ok:
  assumes ok: "server_ok m srv" "length buf = buffer_size" and i: "possible i srv"
  shows "within (round_faults m i) (round_gives i) (server_round i (srv, buf))"
proof -
  let ?F = "round_faults m i"
  have UAF: "{Use_After_Free} \<subseteq> ?F"
    by (simp add: round_faults_def datagram_faults_def split: input.split)
  have wait: "within ?F (\<lambda>(t, srv'). server_ok m srv') (next_timeout srv)"
    using next_timeout_ok [OF ok(1)] UAF by (rule within_mono) simp
  have readd: "within ?F (server_ok m) (readd t srv1)" if "server_ok m srv1" for t srv1
    using readd_ok [OF that] UAF by (rule within_mono)
  show ?thesis
  proof (cases i)
    case (Select_Failed e)
    have "within ?F (round_gives i) (and_then (next_timeout srv) (\<lambda>(t, srv1). Ok (Inr (e, srv1\<lparr>os_errno := e\<rparr>))))"
      by (rule within_and_then [OF wait]) (auto simp: round_gives_def Select_Failed)
    then show ?thesis
      by (simp add: server_round_def Select_Failed)
  next
    case Select_Timeout
    have "within ?F (round_gives i) (and_then (next_timeout srv) (\<lambda>(t, srv1).
        and_then (deref Null_Deref t) (\<lambda>p. and_then (sas_server_timeout srv1 p) (\<lambda>srv2. Ok (Inl (srv2, buf))))))"
    proof (rule within_and_then [OF wait], clarify)
      fix t srv1
      assume next_t: "next_timeout srv = Ok (t, srv1)" and one: "server_ok m srv1"
      then obtain p where p: "t = Some p"
        using i by (auto simp: Select_Timeout split: option.splits)
      have "within ?F (server_ok m) (sas_server_timeout srv1 p)"
        using timeout_ok [OF one] UAF by (rule within_mono) simp
      then have "within ?F (round_gives i) (and_then (sas_server_timeout srv1 p) (\<lambda>srv2. Ok (Inl (srv2, buf))))"
        by (rule within_and_then) (use ok(2) in \<open>auto simp: round_gives_def\<close>)
      then show "within ?F (round_gives i)
          (and_then (deref Null_Deref t) (\<lambda>p. and_then (sas_server_timeout srv1 p) (\<lambda>srv2. Ok (Inl (srv2, buf)))))"
        by (simp add: p)
    qed
    then show ?thesis
      by (simp add: server_round_def Select_Timeout)
  next
    case Recv_Failed
    have "within ?F (round_gives i) (and_then (next_timeout srv) (\<lambda>(t, srv1).
        and_then (readd t srv1) (\<lambda>srv2. Ok (Inl (srv2, buf)))))"
    proof (rule within_and_then [OF wait], clarify, rule within_and_then [OF readd])
      fix srv2
      assume "server_ok m srv2"
      then show "within ?F (round_gives i) (Ok (Inl (srv2, buf)))"
        using ok(2) by (auto simp: round_gives_def)
    qed
    then show ?thesis
      by (simp add: server_round_def Recv_Failed)
  next
    case (Datagram a d)
    then have F: "?F = datagram_faults m"
      by (simp add: round_faults_def)
    have "within ?F (round_gives i) (and_then (next_timeout srv) (\<lambda>(t, srv1). and_then (readd t srv1) (\<lambda>srv2.
        and_then (handle_datagram a d (srv2, buf)) (\<lambda>r. Ok (Inl r)))))"
    proof (rule within_and_then [OF wait], clarify, rule within_and_then [OF readd])
      fix srv2
      assume "server_ok m srv2"
      from handle_datagram_ok [OF this ok(2), of a d]
      show "within ?F (round_gives i) (and_then (handle_datagram a d (srv2, buf)) (\<lambda>r. Ok (Inl r)))"
        unfolding F by (rule within_and_then) (use i Datagram in \<open>auto simp: round_gives_def\<close>)
    qed
    then show ?thesis
      by (simp add: server_round_def Datagram)
  qed
qed

text \<open>The states the loop goes through, with any inputs that are possible.\<close>

inductive reaches :: "server \<times> bytes \<Rightarrow> server \<times> bytes \<Rightarrow> bool" where
  reaches_start: "reaches sb sb"
| reaches_round: "reaches sb (srv, buf) \<Longrightarrow> possible i srv \<Longrightarrow> server_round i (srv, buf) = Ok (Inl sb') \<Longrightarrow>
    reaches sb sb'"

lemma reaches_ok:
  "reaches sb sb' \<Longrightarrow> \<exists>m. server_ok m (fst sb) \<Longrightarrow> length (snd sb) = buffer_size \<Longrightarrow>
    (\<exists>m. server_ok m (fst sb')) \<and> length (snd sb') = buffer_size"
proof (induction rule: reaches.induct)
  case (reaches_round sb srv buf i sb')
  then obtain m where "server_ok m srv" "length buf = buffer_size"
    by auto
  from server_round_ok [OF this reaches_round.hyps(2)]
  have "within (round_faults m i) (round_gives i) (server_round i (srv, buf))" .
  then show ?case
    using reaches_round by (cases sb') (simp add: round_gives_def)
qed simp

lemma alloc_ok:
  assumes "sizeof_WaveHeader \<le> length stack"
  shows "server_ok (malloc_ok 0) (sas_server_alloc env malloc_ok junk stack)"
  using assms by (simp add: server_ok_def wf_but_def shaped_def table_ok_alloc contents_def)

text \<open>The server when its socket has been set up.\<close>

definition server_up :: "i32 option \<Rightarrow> i32 option \<Rightarrow> (sockaddr6 \<Rightarrow> i32 option) \<Rightarrow> sockaddr6 \<Rightarrow> server \<Rightarrow> server" where
  "server_up socket_error option_error bind_error addr srv =
     snd (sas_server_bind bind_error (snd (sas_server_init socket_error option_error srv)) addr)"

lemma server_ok_env:
  assumes "server_ok m srv"
    and "srv_mem srv' = srv_mem srv" "frame_of srv' = frame_of srv"
  shows "server_ok m srv'"
proof -
  have "linked srv' = linked srv" "contents srv' = contents srv"
    using assms(2) by (simp_all add: linked_def contents_def fun_eq_iff)
  then show ?thesis
    using assms(1) table_ok_frame [OF _ _ assms(3)] frame_ofD [OF assms(3)]
    by (simp add: server_ok_def wf_but_def shaped_def)
qed

lemma server_up_ok:
  assumes "server_ok m srv"
  shows "server_ok m (server_up socket_error option_error bind_error addr srv)"
proof (rule server_ok_env [OF assms])
  show "srv_mem (server_up socket_error option_error bind_error addr srv) = srv_mem srv"
    by (simp add: server_up_def sas_server_bind_def sas_server_init_def os_socket_def Let_def case_prod_unfold
        split: option.split)
  show "frame_of (server_up socket_error option_error bind_error addr srv) = frame_of srv"
    by (simp add: server_up_def sas_server_bind_def sas_server_init_def os_socket_def Let_def case_prod_unfold
        frame_of_def os_close_def split: option.split)
qed

section \<open>Properties\<close>

text \<open>C11. What the server can be made to do: from its start, whatever datagrams it is
  sent, whatever errors its calls give and whichever of its allocations of sessions fail, each round of its loop ends in
  a state with a table in order and well-formed sessions, or with the error of \<open>select\<close>; or it accesses a session that
  it has freed, or, for a datagram only, leaves the receive buffer, or, for a datagram when there is no memory for the next
  session, follows the null pointer that it then has for the session (lemma \<open>no_memory_null_session\<close>).
  In no other case does it follow a null pointer, and none of its loops goes on forever.\<close>

theorem server_faults:
  assumes "sizeof_WaveHeader \<le> length stack" "length buf0 = buffer_size"
    and "reaches (server_up socket_error option_error bind_error addr
      (sas_server_alloc env malloc_ok junk stack), buf0) (srv, buf)"
    and "possible i srv"
  shows "case server_round i (srv, buf) of
      Ok (Inl (srv', buf')) \<Rightarrow> server_wf srv' \<and> length buf' = buffer_size
    | Ok (Inr (e, srv')) \<Rightarrow> i = Select_Failed e
    | Fault e \<Rightarrow> e = Use_After_Free \<or> (\<exists>a d. i = Datagram a d) \<and>
        (e = Out_Of_Bounds \<or> e = Null_Deref \<and> \<not> srv_malloc_ok srv (srv_fresh srv))"
proof -
  have "\<exists>m. server_ok m (server_up socket_error option_error bind_error addr (sas_server_alloc env malloc_ok junk stack))"
    using server_up_ok [OF alloc_ok [OF assms(1)]] by blast
  then obtain m where m: "server_ok m srv" "length buf = buffer_size"
    using reaches_ok [OF assms(3)] assms(2) by auto
  from server_round_ok [OF m assms(4)] show ?thesis
    using m(1) by (cases "server_round i (srv, buf)")
      (auto simp: round_gives_def round_faults_def datagram_faults_def server_ok_def split: sum.splits input.splits if_splits)
qed

theorem server_faults_witness:
  "case server_round (Datagram (example_addr 1) [1, 2, 3])
      (server_up None None (\<lambda>_. None) (example_addr 9)
        (sas_server_alloc (fresh_os media (\<lambda>_. 0)) (\<lambda>n. n < 3) blank_session (replicate sizeof_WaveHeader 0)),
       replicate buffer_size 0) of
      Ok (Inl (srv', buf')) \<Rightarrow> server_wf srv' \<and> length buf' = buffer_size
    | Ok (Inr (e, srv')) \<Rightarrow> False
    | Fault e \<Rightarrow> e = Use_After_Free \<or> e = Out_Of_Bounds \<or> e = Null_Deref"
  using server_faults [OF _ _ reaches_start, where stack = "replicate sizeof_WaveHeader 0"
      and buf = "replicate buffer_size 0" and socket_error = None and option_error = None
      and bind_error = "\<lambda>_. None" and addr = "example_addr 9" and env = "fresh_os media (\<lambda>_. 0)"
      and malloc_ok = "\<lambda>n. n < 3" and junk = blank_session and i = "Datagram (example_addr 1) [1, 2, 3]"]
  by (auto split: res.splits sum.splits)

text \<open>C33. Two packets and silence: of a client that has sent two datagrams, whatever is in them, the second before the
  time of the session was over, there are two entries in the heap (that of a server that waited for no session before). When nothing
  comes any more and its time is over when \<open>select\<close> has given up, or before, the loop deletes the session at the
  first entry and reads it, freed, at the next, in the same round or the one after it, whatever happens there.\<close>

theorem silent_client_use_after_free:
  assumes "server_wf srv" "heap_live srv" "entries srv = []" "addr_ok a" "length buf = buffer_size"
    and "sas_server_run [Datagram a d, Datagram a e] (srv, buf) = Ok (Inl (srv2, buf2))"
    and "os_clock srv (os_ticks srv + 2) < os_clock srv (os_ticks srv + 1) + SESSION_TIMEOUT"
    and "os_clock srv (os_ticks srv + 3) + SESSION_TIMEOUT \<le> os_clock srv (os_ticks srv + 5)"
  shows "sas_server_run [Datagram a d, Datagram a e, Select_Timeout, i] (srv, buf) = Fault Use_After_Free"
proof -
  obtain srv1 buf1 where run: "server_round (Datagram a d) (srv, buf) = Ok (Inl (srv1, buf1))"
    "server_round (Datagram a e) (srv1, buf1) = Ok (Inl (srv2, buf2))"
    using assms(6) by (auto dest!: server_run_goes_on simp del: sas_server_run.simps(2))
  obtain p where one: "session_lookup srv1 a = Some p" "server_wf srv1" "heap_live srv1" "length buf1 = buffer_size"
    "mset (entries srv1) = {#p#}" "os_clock srv1 = os_clock srv" "os_ticks srv1 = os_ticks srv + 2"
    "timeout_of srv1 p = os_clock srv (os_ticks srv + 1) + SESSION_TIMEOUT"
    using datagram_enters [OF assms(1,2,4,5) _ run(1)] assms(3) by auto
  have "entries srv1 = [p]"
    using one(5) by simp
  then have "os_clock srv1 (os_ticks srv1) < timeout_of srv1 q" if "q \<in> set (entries srv1)" for q
    using that one(6-8) assms(7) by simp
  from datagram_enters [OF one(2,3) assms(4) one(4) this run(2)] one(1,5-7)
  have two: "server_wf srv2" "heap_live srv2" "mset (entries srv2) = {#p, p#}" "os_clock srv2 = os_clock srv"
    "os_ticks srv2 = os_ticks srv + 4" "timeout_of srv2 p = os_clock srv (os_ticks srv + 3) + SESSION_TIMEOUT"
    by (auto simp: numeral_3_eq_3 eval_nat_numeral)
  have "set (entries srv2) = {p}" "1 < length (entries srv2)"
    using arg_cong [OF two(3), of set_mset] arg_cong [OF two(3), of size] by simp_all
  moreover have "timeout_of srv2 p \<le> os_clock srv2 (Suc (os_ticks srv2))"
    using two(4-6) assms(8) by (simp add: eval_nat_numeral)
  ultimately have "sas_server_run [Select_Timeout, i] (srv2, buf2) = Fault Use_After_Free"
    using two(1,2) by (intro silent_freed) (simp_all add: wf_but_def)
  with run show ?thesis
    by simp
qed

definition example_ticking :: server where
  "example_ticking = sas_server_alloc (fresh_os media (\<lambda>k. 15 * int k)) (\<lambda>_. True) blank_session (replicate sizeof_WaveHeader 0)"

lemma example_ticking_simps:
  "server_wf example_ticking" "heap_live example_ticking" "entries example_ticking = []" "table_ok example_ticking"
  "os_clock example_ticking = (\<lambda>k. 15 * int k)" "os_ticks example_ticking = 0" "srv_fresh example_ticking = 0"
  "srv_malloc_ok example_ticking = (\<lambda>_. True)" "os_send_error example_ticking = (\<lambda>_. None)" "os_files example_ticking = media"
  "addr_ok a \<Longrightarrow> session_lookup example_ticking a = None"
proof -
  show "server_wf example_ticking"
    using alloc_ok [of "replicate sizeof_WaveHeader 0" "\<lambda>_. True" "fresh_os media (\<lambda>k. 15 * int k)" blank_session]
    by (simp add: example_ticking_def server_ok_def)
qed (simp_all add: example_ticking_def session_lookup_alloc table_ok_alloc,
    simp_all add: sas_server_alloc_def fresh_os_def os.defs server.defs)

theorem silent_client_use_after_free_witness:
  "sas_server_run [Datagram (example_addr 1) (syn_datagram [0, 0] (example_header 0 FLAG_SYN 2) [0x61]),
      Datagram (example_addr 1) (example_wire_ack 2), Select_Timeout, Recv_Failed]
    (example_ticking, replicate buffer_size 0) = Fault Use_After_Free"
proof -
  let ?h = "example_header 0 FLAG_SYN 2" and ?buf = "replicate buffer_size (0 :: u8)"
  have f: "os_files example_ticking [0x61] = Inr \<lparr>f_rest = wave_header_image 0x20 example_wav @ [1, 2], f_err = None\<rparr>"
    by (simp add: example_ticking_simps media_def)
  have calm: "calm example_ticking (srv_fresh example_ticking)"
    by (simp add: calm_def example_ticking_simps SESSION_TIMEOUT_def)
  have len: "length (syn_datagram [0, 0] ?h [0x61]) = 18"
    by (simp add: syn_datagram_def image_simps)
  have h: "length [0 :: u8, 0] = 2" "hd_length ?h = of_nat (Suc (length [0x61 :: u8]))" "length [0x61 :: u8] < 2 ^ 16 - 1"
    "(0 :: u8) \<notin> set [0x61]" "hd_flags ?h = FLAG_SYN" "length (syn_datagram [0, 0] ?h [0x61]) \<le> length ?buf"
    by (simp_all add: len buffer_size_def)
  have pre: "srv_malloc_ok example_ticking (srv_fresh example_ticking)" "os_send_error example_ticking = (\<lambda>_. None)"
    by (simp_all add: example_ticking_simps)
  obtain srv1 s1 buf1 where one: "server_round (Datagram (example_addr 1) (syn_datagram [0, 0] ?h [0x61])) (example_ticking, ?buf) =
      Ok (Inl (srv1, buf1))" "length buf1 = length ?buf" "s_ack s1 = hd_seq ?h + seq_step (hd_length ?h)"
    "serving srv1 (srv_fresh example_ticking) (example_addr 1) s1 [1, 2]"
    using serve_syn [OF example_ticking_simps(4,2) example_addr_ok(1) example_ticking_simps(11) [OF example_addr_ok(1)]
        pre(1) calm pre(2) f example_playable h] by blast
  have "datagrams_ok (s_ack s1) [example_wire_ack 2, example_wire_ack 3]"
    using example_wire_acks_ok one(3) by (simp add: seq_step_def del: datagrams_ok.simps)
  moreover have "16 \<le> length buf1"
    using one(2) by (simp add: buffer_size_def)
  ultimately obtain srv2 buf2 where "server_round (Datagram (example_addr 1) (example_wire_ack 2)) (srv1, buf1) = Ok (Inl (srv2, buf2))"
    using serve_packet [OF one(4) example_addr_ok(1)] by blast
  with one(1) have "sas_server_run [Datagram (example_addr 1) (syn_datagram [0, 0] ?h [0x61]),
      Datagram (example_addr 1) (example_wire_ack 2)] (example_ticking, ?buf) = Ok (Inl (srv2, buf2))"
    by simp
  from silent_client_use_after_free [OF example_ticking_simps(1-3) example_addr_ok(1) _ this]
  show ?thesis
    by (simp add: example_ticking_simps SESSION_TIMEOUT_def del: sas_server_run.simps)
qed

text \<open>Where the memory runs out: a new client's datagram makes the loop follow the null pointer that it is given for a session.\<close>

lemma no_memory_null_session:
  assumes "table_ok srv" "heap_live srv" "addr_ok a" "session_lookup srv a = None" "\<not> srv_malloc_ok srv (srv_fresh srv)"
    and "\<forall>q \<in> set (entries srv). os_clock srv (os_ticks srv) < timeout_of srv q" "sizeof_header \<le> length buf"
  shows "server_round (Datagram a d) (srv, buf) = Fault Null_Deref"
proof -
  obtain t srv1 srv2 where wait: "next_timeout srv = Ok (t, srv1)" "readd t srv1 = Ok srv2" "aside srv2 = aside srv"
    using quiet_wait [OF assms(2)] assms(6) by blast
  note same = asideD [OF wait(3)] and tab = aside_table [OF wait(3)]
  have ok: "table_ok srv2" "session_lookup srv2 a = None"
    using tab assms(1,3,4) by simp_all
  then have "sas_server_session_get srv2 a = Ok (None, srv2\<lparr>srv_fresh := srv_fresh srv2 + 1\<rparr>)"
    using no_memory_get [OF ok(1) assms(3) ok(2)] assms(5) same by simp
  moreover obtain buf2 where "header_decode_in_place (recv_into buf d) = Ok buf2"
    using header_decode_in_place_total [of "recv_into buf d"] header_load_total [of "recv_into buf d"] assms(7)
    by (auto simp: sizeof_defs)
  ultimately show ?thesis
    using wait(1,2) by (simp add: server_round_def handle_datagram_def Let_def)
qed

lemma no_memory_null_session_witness:
  "server_round (Datagram (example_addr 1) [])
    (sas_server_alloc (fresh_os media (\<lambda>_. 0)) (\<lambda>n. False) blank_session (replicate sizeof_WaveHeader 0),
     replicate buffer_size 0) = Fault Null_Deref"
  by (rule no_memory_null_session)
    (simp_all add: table_ok_alloc session_lookup_alloc heap_live_def entries_def buffer_size_def sizeof_defs)

end
