(* ===== verification/Server_Clients.thy ===== *)
theory Server_Clients
  imports Server_Run
begin

text \<open>
  Several clients at once: what each of them is sent by the server depends on
  its own packets only, however the packets of the others come in between. The
  specification is a machine for a single client (\<open>react\<close>); the server, with
  all its clients in one table, one heap and one set of descriptors, is shown to
  be the product of these machines, as long as no session expires and no two IP
  addresses share a bucket of the table.
\<close>

section \<open>One client\<close>

text \<open>
  What there is to know of a client: nothing has come from it, or its stream runs,
  with the sequence number of the next packet, the acknowledgement and the bytes to
  come, or its stream is over.
\<close>

datatype peer = Unknown | Streaming u32 u32 bytes | Over u32 u32

text \<open>A client's packet: a request for a file, or any other one.\<close>

datatype request = Syn bytes header bytes | Packet bytes

fun datagram :: "request \<Rightarrow> bytes" where
  "datagram (Syn pad h name) = syn_datagram pad h name"
| "datagram (Packet d) = d"

definition reply_packet :: "u32 \<Rightarrow> u32 \<Rightarrow> u8 \<Rightarrow> bytes \<Rightarrow> packet" where
  "reply_packet seq ack flags payload =
     \<lparr>pk_header = header_encode
        \<lparr>hd_seq = seq, hd_ack = ack, hd_reserved = 0, hd_flags = flags,
         hd_window = SESSION_WINDOW_SIZE, hd_length = of_nat (length payload)\<rparr>,
      pk_payload = payload\<rparr>"

text \<open>The files that can be played: their headers and their data.\<close>

type_synonym library = "bytes \<Rightarrow> (wave_header \<times> bytes) option"

definition react_syn :: "library \<Rightarrow> u8 \<Rightarrow> u8 \<Rightarrow> bytes \<Rightarrow> header \<Rightarrow> bytes \<Rightarrow> (packet list \<times> peer) option" where
  "react_syn lib k x pad h name =
     (case lib name of
        None \<Rightarrow> None
      | Some (w, data) \<Rightarrow>
          if length pad = 2 \<and> hd_length h = of_nat (Suc (length name)) \<and> 0 \<notin> set name \<and> hd_flags h = FLAG_SYN \<and>
            length (syn_datagram pad h name) \<le> buffer_size
          then let ack = hd_seq h + seq_step (hd_length h)
            in Some ([reply_packet 0 ack (FLAG_SYN OR FLAG_ACK) (cfg_ack_image [x] (cfg_ack_encode
                 (stream_cfg k w)))],
                 Streaming 8 ack data)
          else None)"

fun react_packet :: "header \<Rightarrow> peer \<Rightarrow> (packet list \<times> peer) option" where
  "react_packet h Unknown = None"
| "react_packet h (Streaming seq ack data) =
     (if hd_seq h < ack then Some ([], Streaming seq ack data)
      else if flag_isset (hd_flags h) FLAG_RST then None
      else
        let ack' = hd_seq h + seq_step (hd_length h);
            seq' = seq + seq_step (of_nat (length (next_payload data)))
        in Some ([reply_packet seq ack' (next_flags data) (next_payload data)],
             if data = [] then Over seq' ack' else Streaming seq' ack' (drop 1024 data)))"
| "react_packet h (Over seq ack) =
     (if hd_seq h < ack then Some ([], Over seq ack)
      else if flag_isset (hd_flags h) FLAG_RST then None
      else Some ([], Over seq (hd_seq h + seq_step (hd_length h))))"

text \<open>
  The answers to a packet, and the client after it; \<open>None\<close> is a packet that is not
  followed here: a reset, a request that is refused, a packet that is too short.
\<close>

definition react :: "library \<Rightarrow> u8 \<Rightarrow> u8 \<Rightarrow> request \<Rightarrow> peer \<Rightarrow> (packet list \<times> peer) option" where
  "react lib k x r c =
     (case (r, c) of
        (Syn pad h name, Unknown) \<Rightarrow> react_syn lib k x pad h name
      | _ \<Rightarrow>
          if length (datagram r) < sizeof_header then None
          else (case header_load (datagram r) of
                  Fault e \<Rightarrow> None
                | Ok w \<Rightarrow> react_packet (header_decode w) c))"

primrec reacts :: "library \<Rightarrow> u8 \<Rightarrow> u8 \<Rightarrow> request list \<Rightarrow> peer \<Rightarrow> (packet list \<times> peer) option" where
  "reacts lib k x [] c = Some ([], c)"
| "reacts lib k x (r # rs) c =
     Option.bind (react lib k x r c) (\<lambda>(ds, c1).
     Option.bind (reacts lib k x rs c1) (\<lambda>(es, c2). Some (ds @ es, c2)))"

section \<open>Many clients, seen as one each\<close>

text \<open>What concerns one of them, in what all of them send or are sent.\<close>

definition of_client :: "'a \<Rightarrow> ('a \<times> 'b) list \<Rightarrow> 'b list" where
  "of_client a es = map snd (filter (\<lambda>e. fst e = a) es)"

lemma of_client_simps [simp]:
  "of_client a [] = []" "of_client a ((b, x) # es) = (if b = a then x # of_client a es else of_client a es)"
  "of_client a (es @ fs) = of_client a es @ of_client a fs"
  "of_client a (map (Pair b) xs) = (if b = a then xs else [])"
  by (auto simp: of_client_def comp_def intro: map_idI)

text \<open>
  A server whose rounds are the steps of its clients' machines: \<open>rel s m es\<close> says that the
  server's state \<open>s\<close> stands for the clients' states \<open>m\<close> and is fit for the events \<open>es\<close>.
\<close>

locale client_product =
  fixes rel :: "'s \<Rightarrow> ('a \<Rightarrow> 'c) \<Rightarrow> ('a \<times> 'i) list \<Rightarrow> bool"
    and run :: "('a \<times> 'i) list \<Rightarrow> 's \<Rightarrow> 's \<Rightarrow> bool" and sent :: "'s \<Rightarrow> ('a \<times> 'o) list"
    and step :: "'i \<Rightarrow> 'c \<Rightarrow> ('o list \<times> 'c) option"
    and steps :: "'i list \<Rightarrow> 'c \<Rightarrow> ('o list \<times> 'c) option"
  assumes run_none: "run [] s s"
    and run_step: "rel s m ((a, i) # es) \<Longrightarrow> step i (m a) = Some (ds, c) \<Longrightarrow>
      \<exists>s'. sent s' = sent s @ map (Pair a) ds \<and> rel s' (m(a := c)) es \<and>
        (\<forall>t. run es s' t \<longrightarrow> run ((a, i) # es) s t)"
    and steps_none: "steps [] c = Some ([], c)"
    and steps_step: "steps (i # is) c = Some (fs, c2) \<Longrightarrow>
      \<exists>ds c1 es. step i c = Some (ds, c1) \<and> steps is c1 = Some (es, c2) \<and> fs = ds @ es"
begin

lemma run_apart:
  assumes "rel s m es" "\<And>a. steps (of_client a es) (m a) = Some (ds a, c a)"
  shows "\<exists>s'. run es s s' \<and> rel s' c [] \<and> (\<forall>a. of_client a (sent s') = of_client a (sent s) @ ds a)"
  using assms
proof (induction es arbitrary: s m ds)
  case Nil
  then have "m = c" "ds a = []" for a
    using steps_none by (auto simp: fun_eq_iff)
  with Nil.prems(1) run_none show ?case by auto
next
  case (Cons e es)
  obtain a i where e: "e = (a, i)" by (cases e)
  obtain xs c1 ys where one: "step i (m a) = Some (xs, c1)" "steps (of_client a es) c1 = Some (ys, c a)" "ds a = xs @ ys"
    using steps_step [of i "of_client a es" "m a" "ds a" "c a"] Cons.prems(2) [of a] e by auto
  obtain s1 where s1: "sent s1 = sent s @ map (Pair a) xs" "rel s1 (m(a := c1)) es"
    "\<forall>t. run es s1 t \<longrightarrow> run ((a, i) # es) s t"
    using run_step one(1) Cons.prems(1) e by blast
  have "steps (of_client b es) ((m(a := c1)) b) = Some ((ds(a := ys)) b, c b)" for b
    using Cons.prems(2) [of b] one(2) e by (cases "b = a") auto
  from Cons.IH [OF s1(2) this] obtain s' where s': "run es s1 s'" "rel s' c []"
    "\<forall>b. of_client b (sent s') = of_client b (sent s1) @ (ds(a := ys)) b"
    by blast
  have "run ((a, i) # es) s s'"
    using s'(1) s1(3) by blast
  then show ?case
    using s' s1(1) one(3) e by (intro exI [of _ s']) auto
qed

end

section \<open>The sessions of the clients\<close>

text \<open>A session that stands for a client's state.\<close>

definition flowing :: "server \<Rightarrow> session \<Rightarrow> peer \<Rightarrow> bool" where
  "flowing srv s c \<longleftrightarrow> s_receive_window s = SESSION_WINDOW_SIZE \<and> streaming s \<and> s_sink_logic s \<and>
     (case s_pipeline s of
        None \<Rightarrow> False
      | Some pl \<Rightarrow>
          (case c of
             Unknown \<Rightarrow> False
           | Streaming seq ack data \<Rightarrow> s_seq s = seq \<and> s_ack s = ack \<and> ready_pipe pl \<and>
               fd_open (ws_fd pl) srv = Some \<lparr>f_rest = data, f_err = None\<rparr>
           | Over seq ack \<Rightarrow> s_seq s = seq \<and> s_ack s = ack \<and> done_pipe pl))"

lemma flowing_cases:
  assumes "flowing srv s c" "srv_mem srv p = Some s" "os_send_error srv = (\<lambda>_. None)"
  obtains data where "c = Streaming (s_seq s) (s_ack s) data" "mid_stream srv p s data"
    "s_receive_window s = SESSION_WINDOW_SIZE"
  | "c = Over (s_seq s) (s_ack s)" "stream_over srv p s" "s_receive_window s = SESSION_WINDOW_SIZE"
  using assms by (cases c) (auto simp: flowing_def mid_stream_def stream_over_def split: option.splits)

lemma mid_stream_flowing:
  "mid_stream srv p s data \<Longrightarrow> s_receive_window s = SESSION_WINDOW_SIZE \<Longrightarrow>
    flowing srv s (Streaming (s_seq s) (s_ack s) data)"
  by (simp add: flowing_def mid_stream_def split: option.splits)

lemma stream_over_flowing:
  "stream_over srv p s \<Longrightarrow> s_receive_window s = SESSION_WINDOW_SIZE \<Longrightarrow> flowing srv s (Over (s_seq s) (s_ack s))"
  by (simp add: flowing_def stream_over_def split: option.splits)

lemma flowing_update [simp]:
  "flowing srv (s\<lparr>s_next := n\<rparr>) c = flowing srv s c" "flowing srv (s\<lparr>s_timeout := u\<rparr>) c = flowing srv s c"
  by (cases c; cases "s_pipeline s"; simp add: flowing_def streaming_def)+

definition runs :: "peer \<Rightarrow> bool" where
  "runs c = (case c of Streaming seq ack data \<Rightarrow> True | _ \<Rightarrow> False)"

lemma flowing_frame:
  assumes "flowing srv s c" "runs c \<longrightarrow> (\<forall>fd. pipe_fd s = Some fd \<longrightarrow> fd_open fd srv' = fd_open fd srv)"
  shows "flowing srv' s c"
  using assms by (cases c) (auto simp: flowing_def runs_def pipe_fd_def split: option.splits)

lemma flowing_open:
  "flowing srv s c \<Longrightarrow> runs c \<Longrightarrow> \<exists>fd f. pipe_fd s = Some fd \<and> fd_open fd srv = Some f"
  by (cases c) (auto simp: flowing_def runs_def pipe_fd_def split: option.splits)

text \<open>
  The addresses \<open>A\<close> are kept apart: two of them share a bucket only if they are
  ports of one host. Otherwise the table takes one for the other.
\<close>

definition kept_apart :: "server \<Rightarrow> sockaddr6 set \<Rightarrow> bool" where
  "kept_apart srv A \<longleftrightarrow> (\<forall>a \<in> A. addr_ok a) \<and>
     (\<forall>a \<in> A. \<forall>b \<in> A. bucket_of srv a = bucket_of srv b \<longrightarrow> sa_addr a = sa_addr b)"

lemma session_lookup_apart:
  assumes ok: "table_ok srv" and A: "\<And>p s. contents srv p = Some s \<Longrightarrow> s_addr s \<in> A" "kept_apart srv A" "a \<in> A"
  shows "session_lookup srv a = Some p \<longleftrightarrow> (\<exists>s. contents srv p = Some s \<and> s_addr s = a)"
proof -
  obtain cs where rep: "table_rep srv cs"
    using ok by (auto simp: table_ok_def)
  let ?ps = "cs ! bucket_of srv a"
  have a: "addr_ok a"
    using A(2,3) by (simp add: kept_apart_def)
  note b = table_rep_bucket(2) [OF rep, of a]
  have mem: "\<exists>s. srv_mem srv q = Some s \<and> sa_addr (s_addr s) = sa_addr a \<and> length (sa_addr (s_addr s)) = 16"
    if q: "q \<in> set ?ps" for q
  proof -
    obtain s where s: "srv_mem srv q = Some s" "bucket_of srv (s_addr s) = bucket_of srv a"
      "length (sa_addr (s_addr s)) = 16"
      using bucket_rep_memberD [OF b q] by blast
    moreover have "s_addr s \<in> A"
      using A(1) [of q] s(1) by (simp add: contents_def)
    ultimately show ?thesis
      using A(2,3) unfolding kept_apart_def by blast
  qed
  have look: "session_lookup srv a = find (\<lambda>q. port_of srv q = Some (sa_port a)) ?ps"
    using session_lookup_bucket [OF rep a] mem
    by (cases ?ps) (auto simp: bucket_lookup_def ip_of_def)
  have this_one: "s_addr s = a \<longleftrightarrow> port_of srv q = Some (sa_port a)" if "q \<in> set ?ps" "srv_mem srv q = Some s" for q s
    using mem [OF that(1)] that(2) by (auto simp: port_of_def intro: sockaddr6.equality)
  show ?thesis
  proof
    assume "session_lookup srv a = Some p"
    then have p: "p \<in> set ?ps" "port_of srv p = Some (sa_port a)"
      unfolding look by (auto simp: find_Some_iff)
    then obtain s where "srv_mem srv p = Some s" "s_addr s = a"
      using mem [OF p(1)] this_one [OF p(1)] by blast
    then show "\<exists>s. contents srv p = Some s \<and> s_addr s = a"
      by (simp add: contents_def)
  next
    assume "\<exists>s. contents srv p = Some s \<and> s_addr s = a"
    then obtain s where s: "srv_mem srv p = Some s" "s_addr s = a"
      using contents_SomeD by metis
    have "p \<in> set (cs ! bucket_of srv (s_addr s))"
      using rep s(1) by (simp add: table_rep_def)
    then have p: "p \<in> set ?ps"
      by (simp only: s(2))
    have "port_of srv p = Some (sa_port a)"
      using this_one [OF p s(1)] s(2) by blast
    with p have "session_lookup srv a \<noteq> None"
      unfolding look find_None_iff by blast
    then obtain q where q: "session_lookup srv a = Some q" by blast
    then have q': "q \<in> set ?ps" "port_of srv q = Some (sa_port a)"
      unfolding look by (auto simp: find_Some_iff)
    obtain t where t: "srv_mem srv q = Some t" "s_addr t = a"
      using mem [OF q'(1)] this_one [OF q'(1)] q'(2) by blast
    have "addr_match (s_addr s) (s_addr t)"
      by (simp add: s(2) t(2) addr_match_iff)
    then have "p = q"
      using bucket_rep_no_match [OF b p q'(1) _ s(1) t(1)] by blast
    with q show "session_lookup srv a = Some p" by simp
  qed
qed

section \<open>A packet and the session that answers it\<close>

text \<open>What no round changes.\<close>

definition setting :: "server \<Rightarrow> ((nat \<Rightarrow> int) \<times> (bytes \<Rightarrow> i32 + open_file) \<times> (nat \<Rightarrow> i32 option)) \<times>
    ((nat \<Rightarrow> bool) \<times> session \<times> bytes \<times> nat)" where
  "setting srv = ((os_clock srv, os_files srv, os_send_error srv),
     (srv_malloc_ok srv, srv_junk srv, srv_stack srv, ss_capacity srv))"

lemma setting_aside: "aside srv' = aside srv \<Longrightarrow> setting srv' = setting srv"
  by (simp add: setting_def asideD [of srv' srv])

lemma setting_frame: "frame_of srv' = frame_of srv \<Longrightarrow> setting srv' = setting srv"
  by (simp add: setting_def frame_of_def)

lemma setting_simps [simp]:
  "setting (link_session i ps n srv) = setting srv" "setting (set_session p s srv) = setting srv"
  by (simp_all add: setting_def link_session_def set_session_def Let_def)

lemma settingD:
  assumes "setting srv' = setting srv"
  shows "os_clock srv' = os_clock srv" "os_files srv' = os_files srv" "os_send_error srv' = os_send_error srv"
    "srv_malloc_ok srv' = srv_malloc_ok srv" "srv_junk srv' = srv_junk srv" "srv_stack srv' = srv_stack srv"
    "ss_capacity srv' = ss_capacity srv"
  using assms by (simp_all add: setting_def)

text \<open>
  A packet from \<open>a\<close> in the buffer is handled by the session \<open>p\<close>, which is \<open>s'\<close> then, and
  answered with the packets \<open>ds\<close>.
\<close>

definition answers :: "server \<Rightarrow> sockaddr6 \<Rightarrow> bytes \<Rightarrow> sid \<Rightarrow> session \<Rightarrow> packet list \<Rightarrow> server \<Rightarrow> bool" where
  "answers srv a buf p s' ds srv' \<longleftrightarrow> (\<exists>srv1 s. sas_server_session_get srv a = Ok (Some p, srv1) \<and>
     table_ok srv1 \<and> heap_live srv1 \<and> entries srv1 = entries srv \<and> os_ticks srv1 = os_ticks srv \<and>
     setting srv1 = setting srv \<and> srv_mem srv1 p = Some s \<and> (\<forall>q. q \<noteq> p \<longrightarrow> contents srv1 q = contents srv q) \<and>
     sas_server_session_state_machine srv1 p buf = Ok srv' \<and> frame_of srv' = frame_of srv1 \<and>
     srv_mem srv' = (srv_mem srv1)(p \<mapsto> s') \<and> s_addr s' = s_addr s \<and> s_next s' = s_next s \<and>
     os_sent srv' = os_sent srv @ map (Pair a) ds)"

text \<open>The round in which that happens.\<close>

lemma answered_round:
  assumes wait: "next_timeout srv = Ok (t, srv1)" "readd t srv1 = Ok srv2" "aside srv2 = aside srv"
      "os_ticks srv2 = os_ticks srv + 1"
    and a: "addr_ok a" and dec: "header_decode_in_place (recv_into buf d) = Ok buf'"
    and ans: "answers srv2 a buf' p s' ds srv3"
  shows "\<exists>srv'. server_round (Datagram a d) (srv, buf) = Ok (Inl (srv', buf')) \<and> table_ok srv' \<and> heap_live srv' \<and>
    contents srv' = (contents srv)(p \<mapsto>
      s'\<lparr>s_timeout := os_clock srv (os_ticks srv + 1) + SESSION_TIMEOUT, s_next := None\<rparr>) \<and>
    os_ticks srv' = os_ticks srv + 2 \<and> os_fds srv' = os_fds srv3 \<and>
    os_sent srv' = os_sent srv @ map (Pair a) ds \<and> setting srv' = setting srv"
proof -
  obtain srv4 s where get: "sas_server_session_get srv2 a = Ok (Some p, srv4)" "table_ok srv4" "heap_live srv4"
    "os_ticks srv4 = os_ticks srv2" "setting srv4 = setting srv2" "srv_mem srv4 p = Some s"
    "\<forall>q. q \<noteq> p \<longrightarrow> contents srv4 q = contents srv2 q"
    and sm: "sas_server_session_state_machine srv4 p buf' = Ok srv3" "frame_of srv3 = frame_of srv4"
    "srv_mem srv3 = (srv_mem srv4)(p \<mapsto> s')" "s_addr s' = s_addr s" "s_next s' = s_next s"
    "os_sent srv3 = os_sent srv2 @ map (Pair a) ds"
    using ans unfolding answers_def by blast
  note frame = frame_ofD [OF sm(2)]
  have live: "heap_live srv3"
    by (rule heap_live_same [OF get(3)]; simp add: frame sm(3))
  let ?u = "os_clock srv3 (os_ticks srv3) + SESSION_TIMEOUT"
  have "srv_mem srv3 p = Some s'"
    by (simp add: sm(3))
  then obtain srv' where srv': "handle_datagram a d (srv2, buf) = Ok (srv', buf')" "heap_live srv'"
    "os_ticks srv' = os_ticks srv3 + 1" "aside srv' = aside (set_session p (s'\<lparr>s_timeout := ?u\<rparr>) srv3)"
    using handle_datagram_live [OF get(1) dec sm(1) _ live] by blast
  note as = asideD [OF srv'(4)] and table = handled_table [OF get(2) a get(6) sm(2-5) srv'(4)]
  have setting: "setting srv' = setting srv"
    using setting_aside [OF srv'(4)] setting_frame [OF sm(2)] get(5) setting_aside [OF wait(3)]
    by simp
  have u: "?u = os_clock srv (os_ticks srv + 1) + SESSION_TIMEOUT" "os_ticks srv' = os_ticks srv + 2"
    using settingD(1) [OF get(5)] asideD(6) [OF wait(3)] frame(8,9) get(4) wait(4) srv'(3) by simp_all
  have c: "contents srv2 = contents srv"
    by (rule aside_table(2) [OF wait(3)])
  have "contents srv' = (contents srv)(p \<mapsto> s'\<lparr>s_timeout := ?u, s_next := None\<rparr>)"
  proof
    fix q
    show "contents srv' q = ((contents srv)(p \<mapsto> s'\<lparr>s_timeout := ?u, s_next := None\<rparr>)) q"
    proof (cases "q = p")
      case False
      then have "contents srv' q = contents srv4 q"
        by (simp add: contents_def table(3))
      also have "\<dots> = contents srv q"
        using get(7) False c by simp
      finally show ?thesis using False by simp
    qed (simp add: contents_def table(3))
  qed
  moreover have "server_round (Datagram a d) (srv, buf) = Ok (Inl (srv', buf'))"
    using wait(1,2) srv'(1) by (simp add: server_round_def)
  moreover have "os_sent srv' = os_sent srv @ map (Pair a) ds"
    using as(7) sm(6) asideD(7) [OF wait(3)] by simp
  ultimately show ?thesis
    using srv'(2) table(1) as(10) setting u by (intro exI [of _ srv']) simp
qed

text \<open>A session that is known, handling any packet but a reset.\<close>

lemma known_session_answers:
  assumes ok: "table_ok srv" "heap_live srv" "addr_ok a" "session_lookup srv a = Some p" "srv_mem srv p = Some s"
      "s_addr s = a" "os_send_error srv = (\<lambda>_. None)" "flowing srv s c"
    and h: "header_load buf = Ok h" "react_packet h c = Some (ds, c')"
  shows "\<exists>s' srv'. answers srv a buf p s' ds srv' \<and> flowing srv' s' c' \<and> s_addr s' = a \<and>
    (runs c' \<longrightarrow> runs c \<and> pipe_fd s' = pipe_fd s) \<and>
    (\<forall>fd. runs c \<longrightarrow> pipe_fd s \<noteq> Some fd \<longrightarrow> fd_open fd srv' = fd_open fd srv) \<and>
    (\<not> runs c \<longrightarrow> os_fds srv' = os_fds srv)"
proof -
  have get: "sas_server_session_get srv a = Ok (Some p, srv)"
    by (rule sessions.get_found [OF ok(1,3,4)])
  have ans: "answers srv a buf p s' ds srv'"
    if "sas_server_session_state_machine srv p buf = Ok srv'" "frame_of srv' = frame_of srv"
      "srv_mem srv' = (srv_mem srv)(p \<mapsto> s')" "s_addr s' = s_addr s" "s_next s' = s_next s"
      "os_sent srv' = os_sent srv @ map (Pair a) ds" for srv' s'
    unfolding answers_def using that get ok(1,2,5) by blast
  have old: ?thesis if "hd_seq h < s_ack s" "ds = []" "c' = c"
  proof -
    have "answers srv a buf p s ds srv"
      by (rule ans) (use state_machine_old [OF h(1) ok(5) that(1)] that(2) ok(5) in auto)
    then show ?thesis
      using ok(6,8) that(3) by blast
  qed
  from ok(8,5,7) show ?thesis
  proof (cases rule: flowing_cases)
    case (1 data)
    show ?thesis
    proof (cases "hd_seq h < s_ack s")
      case True
      then show ?thesis
        using old h(2) 1(1) by auto
    next
      case False
      let ?ack = "hd_seq h + seq_step (hd_length h)" and ?seq = "s_seq s + seq_step (of_nat (length (next_payload data)))"
      let ?d = "next_packet (accept h s) (next_flags data) (next_payload data)"
      have rst: "\<not> flag_isset (hd_flags h) FLAG_RST"
        and c': "c' = (if data = [] then Over ?seq ?ack else Streaming ?seq ?ack (drop 1024 data))"
        and ds: "ds = [reply_packet (s_seq s) ?ack (next_flags data) (next_payload data)]"
        using h(2) False 1(1) by (auto simp: Let_def split: if_splits)
      have d: "ds = [?d]"
        unfolding ds using 1(3) by (simp add: next_packet_def reply_packet_def accept_def)
      obtain srv' s' where sm: "sas_server_session_state_machine srv p buf = Ok srv'"
        "os_sent srv' = os_sent srv @ [(s_addr s, ?d)]" "s_addr s' = s_addr s" "s_seq s' = ?seq" "s_ack s' = ?ack"
        "s_next s' = s_next s" "data = [] \<longrightarrow> stream_over srv' p s'"
        "data \<noteq> [] \<longrightarrow> mid_stream srv' p s' (drop 1024 data)" "frame_of srv' = frame_of srv"
        "srv_mem srv' = (srv_mem srv)(p \<mapsto> s')" "s_receive_window s' = s_receive_window s" "pipe_fd s' = pipe_fd s"
        "\<forall>fd. pipe_fd s \<noteq> Some fd \<longrightarrow> fd_open fd srv' = fd_open fd srv"
        using mid_stream_step [OF 1(2) h(1) False rst] by blast
      have "answers srv a buf p s' ds srv'"
        by (rule ans) (use sm d ok(6) in simp_all)
      moreover have "flowing srv' s' c'"
        using stream_over_flowing [of srv' p s'] mid_stream_flowing [of srv' p s'] sm(4,5,7,8,11) 1(3)
        by (cases "data = []") (simp_all add: c')
      moreover have "runs c"
        by (simp add: 1(1) runs_def)
      ultimately show ?thesis
        using sm(3,12,13) ok(6) by (intro exI [of _ s'] exI [of _ srv']) simp
    qed
  next
    case 2
    show ?thesis
    proof (cases "hd_seq h < s_ack s")
      case True
      then show ?thesis
        using old h(2) 2(1) by auto
    next
      case False
      let ?ack = "hd_seq h + seq_step (hd_length h)"
      have rst: "\<not> flag_isset (hd_flags h) FLAG_RST" and c': "ds = []" "c' = Over (s_seq s) ?ack"
        using h(2) False 2(1) by (auto split: if_splits)
      obtain srv' s' where sm: "sas_server_session_state_machine srv p buf = Ok srv'" "stream_over srv' p s'"
        "s_ack s' = ?ack" "os_sent srv' = os_sent srv" "s_addr s' = s_addr s" "s_seq s' = s_seq s"
        "s_next s' = s_next s" "frame_of srv' = frame_of srv" "srv_mem srv' = (srv_mem srv)(p \<mapsto> s')"
        "s_receive_window s' = s_receive_window s" "os_fds srv' = os_fds srv"
        using stream_over_step [OF 2(2) h(1) False rst] by blast
      have "answers srv a buf p s' ds srv'"
        by (rule ans) (use sm c' in simp_all)
      moreover have "flowing srv' s' c'"
        using stream_over_flowing [OF sm(2)] sm(3,6,10) 2(3) c' by simp
      moreover have "\<not> runs c" "\<not> runs c'"
        by (simp_all add: 2(1) c' runs_def)
      ultimately show ?thesis
        using sm(5,11) ok(6) by (intro exI [of _ s'] exI [of _ srv']) simp
    qed
  qed
qed

text \<open>The server has the files of a library, and memory for sessions, and its sends succeed.\<close>

definition equipped :: "library \<Rightarrow> u8 \<Rightarrow> u8 \<Rightarrow> server \<Rightarrow> bool" where
  "equipped lib k x srv \<longleftrightarrow> os_send_error srv = (\<lambda>_. None) \<and> srv_malloc_ok srv = (\<lambda>_. True) \<and>
     s_codec (srv_junk srv) = k \<and> stack_byte srv = x \<and>
     (\<forall>name w data. lib name = Some (w, data) \<longrightarrow> playable w \<and>
        (\<exists>pad. os_files srv name = Inr \<lparr>f_rest = wave_header_image pad w @ data, f_err = None\<rparr>))"

lemma equipped_setting: "setting srv' = setting srv \<Longrightarrow> equipped lib k x srv' = equipped lib k x srv"
  by (simp add: equipped_def stack_byte_def settingD [of srv' srv])

text \<open>A request for a file of the library, from a client without a session.\<close>

lemma new_session_answers:
  assumes ok: "table_ok srv" "heap_live srv" "addr_ok a" "session_lookup srv a = None" "equipped lib k x srv"
    and r: "react_syn lib k x pad h name = Some (ds, c)"
  shows "\<exists>s' srv'. answers srv a (syn_buffer pad h 0 (name @ rest)) (srv_fresh srv) s' ds srv' \<and>
    flowing srv' s' c \<and> s_addr s' = a \<and> contents srv (srv_fresh srv) = None \<and>
    (\<forall>fd f. fd_open fd srv = Some f \<longrightarrow> pipe_fd s' \<noteq> Some fd \<and> fd_open fd srv' = Some f)"
proof -
  let ?p = "srv_fresh srv" and ?ack = "hd_seq h + seq_step (hd_length h)"
  obtain w data where lib: "lib name = Some (w, data)"
    and syn: "length pad = 2" "hd_length h = of_nat (Suc (length name))" "0 \<notin> set name" "hd_flags h = FLAG_SYN"
      "length (syn_datagram pad h name) \<le> buffer_size"
    and ds: "ds = [reply_packet 0 ?ack (FLAG_SYN OR FLAG_ACK) (cfg_ack_image [x] (cfg_ack_encode
       \<lparr>ca_sample_rate = wh_sample_fq w, ca_sample_size = ucast (wh_bit_p_spl w),
        ca_channels = ucast (wh_chans w), ca_codec = k\<rparr>))]" and c: "c = Streaming 8 ?ack data"
    using r by (auto simp: react_syn_def stream_cfg_def Let_def split: option.splits if_splits)
  have env: "os_send_error srv = (\<lambda>_. None)" "srv_malloc_ok srv ?p" "s_codec (srv_junk srv) = k" "stack_byte srv = x"
    "playable w"
    using ok(5) lib by (auto simp: equipped_def)
  obtain wpad where path: "os_files srv name = Inr \<lparr>f_rest = wave_header_image wpad w @ data, f_err = None\<rparr>"
    using ok(5) lib unfolding equipped_def by blast
  obtain srv1 s i ps where new: "sas_server_session_get srv a = Ok (Some ?p, srv1)" "table_ok srv1"
    "srv_mem srv1 ?p = Some s" "s = new_session (srv_junk srv) a" "srv_mem srv ?p = None" "srv1 = link_session i ps s srv"
    using new_client [OF ok(1,3,4) env(2)] by blast
  have s: "s_state s = STATE_INITIAL" "s_addr s = a" "s_seq s = 0" "\<not> hd_seq h < s_ack s" "s_codec s = k"
    "s_receive_window s = SESSION_WINDOW_SIZE"
    using env(3) by (simp_all add: new(4) new_session_def)
  have others: "contents srv1 q = contents srv q" if "q \<noteq> ?p" for q
    using sessions.get_new [OF ok(1,3,4)] new(1) that by auto
  have heap: "heap_live srv1" "entries srv1 = entries srv" "os_ticks srv1 = os_ticks srv" "setting srv1 = setting srv"
    "os_sent srv1 = os_sent srv" "os_fds srv1 = os_fds srv"
    using heap_live_link_session [OF ok(2)] by (simp_all add: new(6)) (simp add: link_session_def Let_def)
  let ?srv1 = "set_session ?p (accept h s) srv1"
  have len: "length name < 2 ^ 16 - 1"
    using syn(1,5) by (simp add: syn_datagram_def image_simps buffer_size_def)
  have sm0: "sas_server_session_state_machine srv1 ?p (syn_buffer pad h 0 (name @ rest)) = session_open ?p name ?srv1"
    using state_machine_syn [OF syn(1,2) len syn(3,4) new(3) s(1,4)] by simp
  have one: "srv_mem ?srv1 ?p = Some (accept h s)" "os_send_error ?srv1 = (\<lambda>_. None)"
    "os_files ?srv1 name = Inr \<lparr>f_rest = wave_header_image wpad w @ data, f_err = None\<rparr>" "stack_byte ?srv1 = x"
    using env(1,4) path settingD [OF heap(4)] by (simp_all add: stack_byte_def)
  obtain srv' s' where sm: "session_open ?p name ?srv1 = Ok srv'" "mid_stream srv' ?p s' data"
    "s_addr s' = s_addr (accept h s)" "s_seq s' = s_seq (accept h s) + 8" "s_ack s' = s_ack (accept h s)"
    "s_next s' = s_next (accept h s)" "frame_of srv' = frame_of ?srv1" "srv_mem srv' = (srv_mem ?srv1)(?p \<mapsto> s')"
    "os_sent srv' = os_sent ?srv1 @ [(s_addr (accept h s), next_packet (accept h s) (FLAG_SYN OR FLAG_ACK)
      (cfg_ack_image [stack_byte ?srv1] (cfg_ack_encode
        \<lparr>ca_sample_rate = wh_sample_fq w, ca_sample_size = ucast (wh_bit_p_spl w),
         ca_channels = ucast (wh_chans w), ca_codec = s_codec (accept h s)\<rparr>)))]"
    "map_option ws_fd (s_pipeline s') = Some (int (lowest_free (os_fds ?srv1)))"
    "s_receive_window s' = s_receive_window (accept h s)"
    "\<forall>fd f. fd_open fd ?srv1 = Some f \<longrightarrow> fd \<noteq> int (lowest_free (os_fds ?srv1)) \<and> fd_open fd srv' = Some f"
    using session_open_playable [OF one(1-3) env(5)] by blast
  have codec: "s_codec (accept h s) = k" "s_receive_window (accept h s) = SESSION_WINDOW_SIZE"
    using s(5,6) by (simp_all add: accept_def)
  have "next_packet (accept h s) (FLAG_SYN OR FLAG_ACK) payload = reply_packet 0 ?ack (FLAG_SYN OR FLAG_ACK) payload"
    for payload
    using s(3) codec(2) by (simp add: next_packet_def reply_packet_def)
  then have "os_sent srv' = os_sent srv @ map (Pair a) ds"
    using sm(9) heap(5) s(2) codec(1) one(4) by (simp add: ds)
  then have "answers srv a (syn_buffer pad h 0 (name @ rest)) ?p s' ds srv'"
    unfolding answers_def using new(1-3) heap(1-4) others sm0 sm(1,3,6-8)
    by (intro exI [of _ srv1] exI [of _ s]) simp
  moreover have "flowing srv' s' c"
    using mid_stream_flowing [OF sm(2)] sm(4,5,11) codec(2) s(3) by (simp add: c)
  moreover have "contents srv ?p = None"
    using new(5) by (simp add: contents_def)
  moreover have "pipe_fd s' \<noteq> Some fd \<and> fd_open fd srv' = Some f" if "fd_open fd srv = Some f" for fd f
  proof -
    have "fd_open fd ?srv1 = Some f"
      using that heap(6) by (auto simp: fd_open_def split: if_splits)
    with sm(12) have "fd \<noteq> int (lowest_free (os_fds ?srv1))" "fd_open fd srv' = Some f"
      by blast+
    then show ?thesis
      using sm(10) by (auto simp: pipe_fd_def)
  qed
  ultimately show ?thesis
    using sm(3) s(2) by (intro exI [of _ s'] exI [of _ srv']) simp
qed

section \<open>All clients together\<close>

text \<open>
  The sessions are those of the clients that have sent something, each in its client's
  state, and no two streams that run read the same descriptor.
\<close>

definition together :: "sockaddr6 set \<Rightarrow> (sockaddr6 \<Rightarrow> peer) \<Rightarrow> server \<Rightarrow> bool" where
  "together A m srv \<longleftrightarrow> table_ok srv \<and> heap_live srv \<and> kept_apart srv A \<and>
     (\<forall>p s. contents srv p = Some s \<longrightarrow> s_addr s \<in> A \<and> flowing srv s (m (s_addr s))) \<and>
     (\<forall>a \<in> A. m a = Unknown \<or> (\<exists>p s. contents srv p = Some s \<and> s_addr s = a)) \<and>
     (\<forall>p q s t. contents srv p = Some s \<longrightarrow> contents srv q = Some t \<longrightarrow> p \<noteq> q \<longrightarrow>
        runs (m (s_addr s)) \<longrightarrow> runs (m (s_addr t)) \<longrightarrow> pipe_fd s \<noteq> pipe_fd t)"

lemma kept_apart_capacity: "ss_capacity srv' = ss_capacity srv \<Longrightarrow> kept_apart srv' A = kept_apart srv A"
  by (simp add: kept_apart_def bucket_of_def)

text \<open>One client's session changes, or is created, and the streams of the others keep their files.\<close>

lemma together_update:
  assumes tog: "together A m srv" and a: "a \<in> A" "s_addr s' = a"
    and srv': "table_ok srv'" "heap_live srv'" "ss_capacity srv' = ss_capacity srv"
      "contents srv' = (contents srv)(p \<mapsto> s')"
    and own: "\<And>q t. contents srv q = Some t \<Longrightarrow> s_addr t = a \<longleftrightarrow> q = p" and s': "flowing srv' s' c"
    and fds: "\<And>q t. contents srv q = Some t \<Longrightarrow> q \<noteq> p \<Longrightarrow> runs (m (s_addr t)) \<Longrightarrow>
      (\<forall>fd. pipe_fd t = Some fd \<longrightarrow> fd_open fd srv' = fd_open fd srv) \<and> (runs c \<longrightarrow> pipe_fd t \<noteq> pipe_fd s')"
  shows "together A (m(a := c)) srv'"
  unfolding together_def
proof (intro conjI allI impI ballI)
  show "table_ok srv'" "heap_live srv'" by (rule srv')+
  show "kept_apart srv' A"
    using tog kept_apart_capacity [OF srv'(3)] by (simp add: together_def)
  have old: "s_addr t \<in> A \<and> flowing srv t (m (s_addr t)) \<and> s_addr t \<noteq> a" if "contents srv q = Some t" "q \<noteq> p" for q t
    using tog own [OF that(1)] that unfolding together_def by blast
  { fix q t
    assume q: "contents srv' q = Some t"
    show "s_addr t \<in> A" "flowing srv' t ((m(a := c)) (s_addr t))"
      using q srv'(4) a s' old [of q t] fds [of q t] flowing_frame [of srv t "m (s_addr t)" srv']
      by (cases "q = p"; simp)+ }
  { fix b
    assume b: "b \<in> A"
    show "(m(a := c)) b = Unknown \<or> (\<exists>q t. contents srv' q = Some t \<and> s_addr t = b)"
    proof (cases "b = a")
      case True
      then show ?thesis
        using srv'(4) a(2) by (intro disjI2 exI [of _ p] exI [of _ s']) simp
    next
      case False
      then consider "m b = Unknown" | q t where "contents srv q = Some t" "s_addr t = b"
        using tog b unfolding together_def by blast
      then show ?thesis
      proof cases
        case 2
        then have "q \<noteq> p"
          using own [OF 2(1)] False by blast
        with 2 srv'(4) show ?thesis
          by (intro disjI2 exI [of _ q] exI [of _ t]) simp
      qed (use False in simp)
    qed }
  { fix q r t u
    assume q: "contents srv' q = Some t" and r: "contents srv' r = Some u" and ne: "q \<noteq> r"
      and run: "runs ((m(a := c)) (s_addr t))" "runs ((m(a := c)) (s_addr u))"
    show "pipe_fd t \<noteq> pipe_fd u"
    proof (cases "q = p \<or> r = p")
      case True
      then show ?thesis
        using q r ne run srv'(4) a(2) old [of q t] old [of r u] fds [of q t] fds [of r u]
        by (auto split: if_splits)
    next
      case False
      then have "contents srv q = Some t" "contents srv r = Some u" "s_addr t \<noteq> a" "s_addr u \<noteq> a"
        using q r srv'(4) old [of q t] old [of r u] by auto
      then show ?thesis
        using tog ne run unfolding together_def by (metis fun_upd_other)
    qed }
qed

section \<open>In time\<close>

text \<open>
  The times at which the clients' sessions expire. A round reads the clock twice: none
  of the sessions has expired at the first reading, and the client whose packet is
  handled gets its time from the second.
\<close>

definition renewed :: "'a \<Rightarrow> int \<Rightarrow> ('a \<times> int) list \<Rightarrow> ('a \<times> int) list" where
  "renewed a u ts = (a, u) # filter (\<lambda>e. fst e \<noteq> a) ts"

fun on_time :: "(nat \<Rightarrow> int) \<Rightarrow> nat \<Rightarrow> ('a \<times> int) list \<Rightarrow> 'a list \<Rightarrow> bool" where
  "on_time clk n ts [] \<longleftrightarrow> True"
| "on_time clk n ts (a # as) \<longleftrightarrow> list_all (\<lambda>e. clk n < snd e) ts \<and>
     on_time clk (n + 2) (renewed a (clk (n + 1) + SESSION_TIMEOUT) ts) as"

definition timed :: "(sockaddr6 \<times> int) list \<Rightarrow> server \<Rightarrow> bool" where
  "timed ts srv \<longleftrightarrow> (\<forall>p s. contents srv p = Some s \<longrightarrow> (s_addr s, s_timeout s) \<in> set ts)"

lemma timed_quiet:
  assumes "timed ts srv" "list_all (\<lambda>e. now < snd e) ts" "heap_live srv" "q \<in> set (entries srv)"
  shows "now < timeout_of srv q"
proof -
  obtain s where s: "srv_mem srv q = Some s"
    using heap_live_entries [OF assms(3,4)] by blast
  then have "contents srv q = Some (s\<lparr>s_next := None\<rparr>)"
    by (simp add: contents_def)
  then have "(s_addr s, s_timeout s) \<in> set ts"
    using assms(1) unfolding timed_def by fastforce
  then show ?thesis
    using assms(2) s by (auto simp: list_all_iff timeout_of_def)
qed

lemma timed_update:
  assumes "timed ts srv" "contents srv' = (contents srv)(p \<mapsto> s)" "s_addr s = a" "s_timeout s = u"
    and "\<And>q t. contents srv q = Some t \<Longrightarrow> s_addr t = a \<longleftrightarrow> q = p"
  shows "timed (renewed a u ts) srv'"
  unfolding timed_def
proof (intro allI impI)
  fix q t
  assume q: "contents srv' q = Some t"
  show "(s_addr t, s_timeout t) \<in> set (renewed a u ts)"
  proof (cases "q = p")
    case False
    then have "contents srv q = Some t"
      using q assms(2) by simp
    then show ?thesis
      using assms(1) assms(5) [of q t] False by (simp add: timed_def renewed_def)
  qed (use q assms(2-4) in \<open>simp add: renewed_def\<close>)
qed

section \<open>A round, as a step of one client\<close>

text \<open>What the buffer holds when a client's packet is handled, in the two cases of \<open>react\<close>.\<close>

lemma react_cases:
  assumes "react lib k x r c = Some (ds, c')" "length buf = buffer_size"
  obtains pad h name where "r = Syn pad h name" "c = Unknown" "react_syn lib k x pad h name = Some (ds, c')"
    "header_decode_in_place (recv_into buf (datagram r)) =
      Ok (syn_buffer pad h 0 (name @ drop (length (datagram r)) buf))"
  | w buf' where "c \<noteq> Unknown" "react_packet (header_decode w) c = Some (ds, c')"
    "header_decode_in_place (recv_into buf (datagram r)) = Ok buf'" "length buf' = buffer_size"
    "header_load buf' = Ok (header_decode w)"
proof (cases "\<exists>pad h name. r = Syn pad h name \<and> c = Unknown")
  case True
  then obtain pad h name where r: "r = Syn pad h name" "c = Unknown" by blast
  then have syn: "react_syn lib k x pad h name = Some (ds, c')"
    using assms(1) by (simp add: react_def)
  then have "length pad = 2" "length (syn_datagram pad h name) \<le> length buf"
    using assms(2) by (auto simp: react_syn_def Let_def split: option.splits if_splits)
  with r syn show ?thesis
    using that(1) syn_datagram_decoded by simp
next
  case False
  then have "react lib k x r c =
      (if length (datagram r) < sizeof_header then None
       else (case header_load (datagram r) of Fault e \<Rightarrow> None | Ok w \<Rightarrow> react_packet (header_decode w) c))"
    by (auto simp: react_def split: request.split peer.split)
  then obtain w where w: "16 \<le> length (datagram r)" "header_load (datagram r) = Ok w"
    "react_packet (header_decode w) c = Some (ds, c')"
    using assms(1) by (auto simp: sizeof_defs split: if_splits res.splits)
  moreover have "c \<noteq> Unknown"
    using w(3) by auto
  ultimately show ?thesis
    using datagram_decoded [OF w(2,1), of buf] assms(2) that(2) by (auto simp: buffer_size_def)
qed

lemma client_round:
  assumes tog: "together A m srv" and time: "timed ts srv" "list_all (\<lambda>e. os_clock srv (os_ticks srv) < snd e) ts"
    and a: "a \<in> A" and eq: "equipped lib k x srv" and buf: "length buf = buffer_size"
    and r: "react lib k x r (m a) = Some (ds, c)"
  shows "\<exists>srv' buf'. server_round (Datagram a (datagram r)) (srv, buf) = Ok (Inl (srv', buf')) \<and>
    length buf' = buffer_size \<and> together A (m(a := c)) srv' \<and>
    timed (renewed a (os_clock srv (os_ticks srv + 1) + SESSION_TIMEOUT) ts) srv' \<and>
    os_ticks srv' = os_ticks srv + 2 \<and> os_sent srv' = os_sent srv @ map (Pair a) ds \<and> setting srv' = setting srv"
proof -
  let ?u = "os_clock srv (os_ticks srv + 1) + SESSION_TIMEOUT"
  have inv: "table_ok srv" "heap_live srv" "kept_apart srv A" "addr_ok a"
    and sess: "\<And>p s. contents srv p = Some s \<Longrightarrow> s_addr s \<in> A \<and> flowing srv s (m (s_addr s))"
    and known: "m a = Unknown \<or> (\<exists>p s. contents srv p = Some s \<and> s_addr s = a)"
    and fds: "\<And>p q s t. contents srv p = Some s \<Longrightarrow> contents srv q = Some t \<Longrightarrow> p \<noteq> q \<Longrightarrow>
      runs (m (s_addr s)) \<Longrightarrow> runs (m (s_addr t)) \<Longrightarrow> pipe_fd s \<noteq> pipe_fd t"
    using tog a unfolding together_def kept_apart_def by blast+
  have look: "session_lookup srv a = Some p \<longleftrightarrow> (\<exists>s. contents srv p = Some s \<and> s_addr s = a)" for p
    by (rule session_lookup_apart [OF inv(1) _ inv(3) a]) (use sess in blast)
  obtain t srv1 srv2 where wait: "next_timeout srv = Ok (t, srv1)" "readd t srv1 = Ok srv2" "heap_live srv2"
    "aside srv2 = aside srv" "os_ticks srv2 = os_ticks srv + 1"
    using quiet_wait [OF inv(2) timed_quiet [OF time inv(2)]] by blast
  note as = aside_table [OF wait(4)] and same = asideD [OF wait(4)]
  have two: "table_ok srv2" "session_lookup srv2 a = session_lookup srv a" "equipped lib k x srv2"
    "fd_open fd srv2 = fd_open fd srv" for fd
    using inv as same(10) eq equipped_setting [OF setting_aside [OF wait(4)]] by (simp_all add: fd_open_def)
  have round: ?thesis
    if dec: "header_decode_in_place (recv_into buf (datagram r)) = Ok buf'" "length buf' = buffer_size"
      and ans: "answers srv2 a buf' p s' ds srv3" "flowing srv3 s' c" "s_addr s' = a"
      and own: "\<And>q t. contents srv q = Some t \<Longrightarrow> s_addr t = a \<longleftrightarrow> q = p"
      and others: "\<And>q t. contents srv q = Some t \<Longrightarrow> q \<noteq> p \<Longrightarrow> runs (m (s_addr t)) \<Longrightarrow>
        (\<forall>fd. pipe_fd t = Some fd \<longrightarrow> fd_open fd srv3 = fd_open fd srv) \<and> (runs c \<longrightarrow> pipe_fd t \<noteq> pipe_fd s')"
    for buf' p s' srv3
  proof -
    let ?s = "s'\<lparr>s_timeout := ?u, s_next := None\<rparr>"
    obtain srv' where srv': "server_round (Datagram a (datagram r)) (srv, buf) = Ok (Inl (srv', buf'))"
      "table_ok srv'" "heap_live srv'" "contents srv' = (contents srv)(p \<mapsto> ?s)" "os_ticks srv' = os_ticks srv + 2"
      "os_fds srv' = os_fds srv3" "os_sent srv' = os_sent srv @ map (Pair a) ds" "setting srv' = setting srv"
      using answered_round [OF wait(1,2,4,5) inv(4) dec(1) ans(1)] by blast
    have fd: "fd_open fd srv' = fd_open fd srv3" for fd
      by (simp add: fd_open_def srv'(6))
    have "flowing srv' ?s c"
      using flowing_frame [OF ans(2), of srv'] fd by simp
    moreover have "pipe_fd ?s = pipe_fd s'"
      by (simp add: pipe_fd_def)
    ultimately have "together A (m(a := c)) srv'"
      using together_update [OF tog a _ srv'(2,3) settingD(7) [OF srv'(8)] srv'(4) own] ans(3) others fd by simp
    moreover have "timed (renewed a ?u ts) srv'"
      by (rule timed_update [OF time(1) srv'(4) _ _ own]) (use ans(3) in simp_all)
    ultimately show ?thesis
      using srv' dec(2) by blast
  qed
  from r buf show ?thesis
  proof (cases rule: react_cases)
    case (1 pad h name)
    have none: "s_addr s \<noteq> a" if "contents srv p = Some s" for p s
      using sess [OF that] 1(2) by (auto simp: flowing_def split: option.splits)
    then have lookup: "session_lookup srv2 a = None"
      using look two(2) by (metis not_Some_eq)
    let ?rest = "drop (length (datagram r)) buf"
    obtain s' srv3 where new: "answers srv2 a (syn_buffer pad h 0 (name @ ?rest)) (srv_fresh srv2) s' ds srv3"
      "flowing srv3 s' c" "s_addr s' = a" "contents srv2 (srv_fresh srv2) = None"
      "\<forall>fd f. fd_open fd srv2 = Some f \<longrightarrow> pipe_fd s' \<noteq> Some fd \<and> fd_open fd srv3 = Some f"
      using new_session_answers [OF two(1) wait(3) inv(4) lookup two(3) 1(3), of ?rest] by blast
    have "length pad = 2" "length (datagram r) \<le> length buf"
      using 1(1,3) buf by (auto simp: react_syn_def Let_def split: option.splits if_splits)
    then have "length (syn_buffer pad h 0 (name @ ?rest)) = buffer_size"
      using header_decode_in_place_total [of "recv_into buf (datagram r)"] 1(1,4) buf
      by (simp add: syn_datagram_def image_simps)
    moreover have "(\<forall>fd. pipe_fd t = Some fd \<longrightarrow> fd_open fd srv3 = fd_open fd srv) \<and> (runs c \<longrightarrow> pipe_fd t \<noteq> pipe_fd s')"
      if t: "contents srv q = Some t" "runs (m (s_addr t))" for q t
    proof -
      obtain fd f where fd: "pipe_fd t = Some fd" "fd_open fd srv = Some f"
        using flowing_open [OF _ t(2)] sess [OF t(1)] by blast
      then have "pipe_fd s' \<noteq> Some fd" "fd_open fd srv3 = Some f"
        using new(5) two(4) by simp_all
      with fd show ?thesis by simp
    qed
    ultimately show ?thesis
      using round [OF 1(4) _ new(1-3)] none new(4) as(2) by fastforce
  next
    case (2 w buf')
    obtain p s0 where p: "contents srv p = Some s0" "s_addr s0 = a"
      using known 2(1) by blast
    then obtain s where s: "srv_mem srv2 p = Some s" "s0 = s\<lparr>s_next := None\<rparr>" "s_addr s = a"
      using contents_SomeD [OF p(1)] same(1) by auto
    have own: "s_addr t = a \<longleftrightarrow> q = p" if "contents srv q = Some t" for q t
      using look [of p] look [of q] p that by auto
    have flow: "flowing srv2 s (m a)"
    proof (rule flowing_frame)
      show "flowing srv s (m a)"
        using sess [OF p(1)] p(2) s(2) by simp
    qed (simp add: two(4))
    have lookup: "session_lookup srv2 a = Some p"
      using look p two(2) by auto
    have send: "os_send_error srv2 = (\<lambda>_. None)"
      using two(3) by (simp add: equipped_def)
    obtain s' srv3 where ans: "answers srv2 a buf' p s' ds srv3" "flowing srv3 s' c" "s_addr s' = a"
      "runs c \<longrightarrow> runs (m a) \<and> pipe_fd s' = pipe_fd s"
      "\<forall>fd. runs (m a) \<longrightarrow> pipe_fd s \<noteq> Some fd \<longrightarrow> fd_open fd srv3 = fd_open fd srv2"
      "\<not> runs (m a) \<longrightarrow> os_fds srv3 = os_fds srv2"
      using known_session_answers [OF two(1) wait(3) inv(4) lookup s(1,3) send flow 2(5,2)] by blast
    show ?thesis
    proof (rule round [OF 2(3,4) ans(1-3) own])
      fix q t
      assume q: "contents srv q = Some t" "q \<noteq> p" "runs (m (s_addr t))"
      have "runs (m a) \<longrightarrow> pipe_fd t \<noteq> pipe_fd s"
        using fds [OF q(1) p(1) q(2,3)] p(2) s(2) by (simp add: pipe_fd_def)
      moreover have "\<not> runs (m a) \<longrightarrow> fd_open fd srv3 = fd_open fd srv" for fd
        unfolding two(4) [of fd, symmetric] using ans(6) by (simp add: fd_open_def)
      ultimately show "(\<forall>fd. pipe_fd t = Some fd \<longrightarrow> fd_open fd srv3 = fd_open fd srv) \<and>
          (runs c \<longrightarrow> pipe_fd t \<noteq> pipe_fd s')"
        using ans(4,5) two(4) by metis
    qed
  qed
qed

section \<open>The server as a product\<close>

definition datagrams :: "(sockaddr6 \<times> request) list \<Rightarrow> input list" where
  "datagrams = map (\<lambda>(a, r). Datagram a (datagram r))"

lemma datagrams_simps [simp]:
  "datagrams [] = []" "datagrams ((a, r) # es) = Datagram a (datagram r) # datagrams es"
  by (simp_all add: datagrams_def)

definition stands_for ::
    "library \<Rightarrow> u8 \<Rightarrow> u8 \<Rightarrow> sockaddr6 set \<Rightarrow> server \<times> bytes \<Rightarrow> (sockaddr6 \<Rightarrow> peer) \<Rightarrow> (sockaddr6 \<times> request) list \<Rightarrow> bool" where
  "stands_for lib k x A sb m es \<longleftrightarrow> together A m (fst sb) \<and> equipped lib k x (fst sb) \<and> length (snd sb) = buffer_size \<and>
     fst ` set es \<subseteq> A \<and>
     (\<exists>ts. timed ts (fst sb) \<and> on_time (os_clock (fst sb)) (os_ticks (fst sb)) ts (map fst es))"

interpretation clients: client_product "stands_for lib k x A" "\<lambda>es sb sb'. sas_server_run (datagrams es) sb = Ok (Inl sb')"
    "\<lambda>sb. os_sent (fst sb)" "react lib k x" "reacts lib k x"
  for lib :: library and k x :: u8 and A :: "sockaddr6 set"
proof unfold_locales
  fix sb m a r es ds c
  assume rel: "stands_for lib k x A sb m ((a, r) # es)" and r: "react lib k x r (m a) = Some (ds, c)"
  obtain srv buf where sb: "sb = (srv, buf)" by (cases sb)
  obtain ts where inv: "together A m srv" "equipped lib k x srv" "length buf = buffer_size" "a \<in> A" "fst ` set es \<subseteq> A"
    "timed ts srv" "list_all (\<lambda>e. os_clock srv (os_ticks srv) < snd e) ts"
    "on_time (os_clock srv) (os_ticks srv + 2)
       (renewed a (os_clock srv (os_ticks srv + 1) + SESSION_TIMEOUT) ts) (map fst es)"
    using rel sb by (auto simp: stands_for_def)
  obtain srv' buf' where one: "server_round (Datagram a (datagram r)) (srv, buf) = Ok (Inl (srv', buf'))"
    "length buf' = buffer_size" "together A (m(a := c)) srv'"
    "timed (renewed a (os_clock srv (os_ticks srv + 1) + SESSION_TIMEOUT) ts) srv'" "os_ticks srv' = os_ticks srv + 2"
    "os_sent srv' = os_sent srv @ map (Pair a) ds" "setting srv' = setting srv"
    using client_round [OF inv(1,6,7,4,2,3) r] by blast
  have "stands_for lib k x A (srv', buf') (m(a := c)) es"
    using one inv(2,5,8) equipped_setting [OF one(7)] settingD(1) [OF one(7)] by (auto simp: stands_for_def)
  moreover have "\<forall>t. sas_server_run (datagrams es) (srv', buf') = Ok (Inl t) \<longrightarrow>
      sas_server_run (datagrams ((a, r) # es)) sb = Ok (Inl t)"
    using one(1) sb by simp
  ultimately show "\<exists>sb'. os_sent (fst sb') = os_sent (fst sb) @ map (Pair a) ds \<and>
      stands_for lib k x A sb' (m(a := c)) es \<and>
      (\<forall>t. sas_server_run (datagrams es) sb' = Ok (Inl t) \<longrightarrow> sas_server_run (datagrams ((a, r) # es)) sb = Ok (Inl t))"
    using one(6) sb by (intro exI [of _ "(srv', buf')"]) simp
qed (auto simp: bind_eq_Some_conv split: prod.splits)

text \<open>A server without sessions stands for clients that have sent nothing.\<close>

lemma stands_for_start:
  assumes "table_ok srv" "heap_live srv" "srv_mem srv = (\<lambda>_. None)" "kept_apart srv A" "equipped lib k x srv"
    and "length buf = buffer_size" "fst ` set es \<subseteq> A" "on_time (os_clock srv) (os_ticks srv) [] (map fst es)"
  shows "stands_for lib k x A (srv, buf) (\<lambda>_. Unknown) es"
proof -
  have none: "contents srv = (\<lambda>_. None)"
    using assms(3) by (simp add: contents_def fun_eq_iff)
  have "together A (\<lambda>_. Unknown) srv"
    using assms(1,2,4) none by (simp add: together_def)
  moreover have "timed [] srv"
    using none by (simp add: timed_def)
  ultimately show ?thesis
    using assms by (auto simp: stands_for_def)
qed

lemma clients_run:
  assumes start: "stands_for lib k x (fst ` set es) (srv, buf) (\<lambda>_. Unknown) es"
    and one: "\<And>a. a \<in> fst ` set es \<Longrightarrow> reacts lib k x (of_client a es) Unknown = Some (ds a, c a)"
  shows "\<exists>srv' buf'. sas_server_run (datagrams es) (srv, buf) = Ok (Inl (srv', buf')) \<and>
    (\<forall>a \<in> fst ` set es. of_client a (os_sent srv') = of_client a (os_sent srv) @ ds a)"
proof -
  let ?A = "fst ` set es"
  define ds' c' where "ds' a = (if a \<in> ?A then ds a else [])" and "c' a = (if a \<in> ?A then c a else Unknown)" for a
  have "reacts lib k x (of_client a es) Unknown = Some (ds' a, c' a)" for a
  proof (cases "a \<in> ?A")
    case False
    then have "filter (\<lambda>e. fst e = a) es = []"
      unfolding filter_empty_conv by blast
    then have "of_client a es = []"
      by (simp add: of_client_def)
    with False show ?thesis by (simp add: ds'_def c'_def)
  qed (use one in \<open>simp add: ds'_def c'_def\<close>)
  from clients.run_apart [OF start this] show ?thesis
    by (auto simp: ds'_def)
qed

text \<open>The machine of a client that asks for a file and acknowledges it.\<close>

lemma reacts_stream:
  assumes "datagrams_ok ack ds" "length ds = length (chunks data) + 1"
  shows "\<exists>pks c. reacts lib k x (map Packet ds) (Streaming seq ack data) = Some (pks, c) \<and>
    map pk_payload pks = chunks data @ [[]] \<and>
    map sent_flags pks = replicate (length (chunks data)) 0 @ [FLAG_RST OR FLAG_FIN] \<and> numbered seq pks"
  using assms
proof (induction ds arbitrary: seq ack data)
  case (Cons d ds)
  obtain w where w: "header_load d = Ok w" "sizeof_header \<le> length d" "\<not> hd_seq (header_decode w) < ack"
    "\<not> flag_isset (hd_flags (header_decode w)) FLAG_RST"
    "datagrams_ok (hd_seq (header_decode w) + seq_step (hd_length (header_decode w))) ds"
    using Cons.prems(1) by (auto simp: Let_def split: res.splits)
  let ?ack = "hd_seq (header_decode w) + seq_step (hd_length (header_decode w))"
  let ?pk = "reply_packet seq ?ack (next_flags data) (next_payload data)"
  let ?seq = "seq + seq_step (of_nat (length (next_payload data)))"
  have step: "react lib k x (Packet d) (Streaming seq ack data) =
      Some ([?pk], if data = [] then Over ?seq ?ack else Streaming ?seq ?ack (drop 1024 data))"
    using w by (simp add: react_def Let_def)
  have pk: "pk_payload ?pk = next_payload data" "sent_flags ?pk = next_flags data" "sent_seq ?pk = seq"
    by (simp_all add: reply_packet_def sent_flags_def sent_seq_def)
  show ?case
  proof (cases "data = []")
    case True
    then have "ds = []"
      using Cons.prems(2) by simp
    then show ?thesis
      using step pk True by (simp add: next_payload_def next_flags_def)
  next
    case False
    then have "length ds = length (chunks (drop 1024 data)) + 1"
      using Cons.prems(2) by simp
    then obtain pks c where ih: "reacts lib k x (map Packet ds) (Streaming ?seq ?ack (drop 1024 data)) = Some (pks, c)"
      "map pk_payload pks = chunks (drop 1024 data) @ [[]]"
      "map sent_flags pks = replicate (length (chunks (drop 1024 data))) 0 @ [FLAG_RST OR FLAG_FIN]" "numbered ?seq pks"
      using Cons.IH [OF w(5)] by blast
    then show ?thesis
      using step pk False
      by (intro exI [of _ "?pk # pks"] exI [of _ c]) (simp add: next_payload_def next_flags_def)
  qed
qed simp

lemma reacts_file:
  assumes "lib name = Some (w, data)" "length pad = 2" "hd_length h = of_nat (Suc (length name))" "0 \<notin> set name"
    and "hd_flags h = FLAG_SYN" "length (syn_datagram pad h name) \<le> buffer_size"
    and "datagrams_ok (hd_seq h + seq_step (hd_length h)) acks" "length acks = length (chunks data) + 1"
  shows "\<exists>d ds c. reacts lib k x (Syn pad h name # map Packet acks) Unknown = Some (d # ds, c) \<and>
    numbered 0 (d # ds) \<and> pk_payload d = cfg_ack_image [x] (cfg_ack_encode (stream_cfg k w)) \<and> sent_flags d = FLAG_SYN OR FLAG_ACK \<and> concat (map pk_payload ds) = data \<and>
    list_all (\<lambda>e. length (pk_payload e) \<le> 1024) ds \<and>
    map sent_flags ds = replicate (length (chunks data)) 0 @ [FLAG_RST OR FLAG_FIN]"
proof -
  let ?ack = "hd_seq h + seq_step (hd_length h)"
  let ?d = "reply_packet 0 ?ack (FLAG_SYN OR FLAG_ACK) (cfg_ack_image [x] (cfg_ack_encode (stream_cfg k w)))"
  obtain ds c where ds: "reacts lib k x (map Packet acks) (Streaming 8 ?ack data) = Some (ds, c)"
    "map pk_payload ds = chunks data @ [[]]"
    "map sent_flags ds = replicate (length (chunks data)) 0 @ [FLAG_RST OR FLAG_FIN]" "numbered 8 ds"
    using reacts_stream [OF assms(7,8)] by blast
  have "reacts lib k x (Syn pad h name # map Packet acks) Unknown = Some (?d # ds, c)"
    using ds(1) assms(1-6) by (simp add: react_def react_syn_def Let_def)
  moreover have "sent_flags ?d = FLAG_SYN OR FLAG_ACK" "numbered 0 (?d # ds)"
    "pk_payload ?d = cfg_ack_image [x] (cfg_ack_encode (stream_cfg k w))"
    using ds(4) by (simp_all add: reply_packet_def sent_flags_def sent_seq_def image_simps seq_step_def)
  ultimately show ?thesis
    using ds(3) chunk_payloads [OF ds(2)] by blast
qed

section \<open>Examples\<close>

definition example_library :: library where
  "example_library = [[0x61] \<mapsto> (example_wav, [1, 2])]"

lemma example_start_equipped: "equipped example_library (s_codec blank_session) 0 example_start"
proof -
  have "srv_malloc_ok example_start = (\<lambda>_. True)" "srv_junk example_start = blank_session" "stack_byte example_start = 0"
    by (simp_all add: example_start_def stack_byte_def)
  moreover have "os_files example_start [0x61] = Inr \<lparr>f_rest = wave_header_image 0x20 example_wav @ [1, 2], f_err = None\<rparr>"
    by (simp add: media_def)
  ultimately show ?thesis
    by (auto simp: equipped_def example_library_def split: if_splits)
qed

lemma example_start_empty: "srv_mem example_start = (\<lambda>_. None)"
  by (simp add: example_start_def)

lemma example_apart: "kept_apart example_start {example_addr 1, example_addr 2}"
proof -
  have cap: "ss_capacity example_start = 32"
    by (simp add: example_start_def)
  have "int (bucket_of example_start (example_addr 1)) \<noteq> int (bucket_of example_start (example_addr 2))"
    unfolding bucket_of_sum [OF cap]
    by (simp add: addr_bytes_def example_addr_def sum_list_replicate mod_eq_dvd_iff)
  then have "bucket_of example_start (example_addr 1) \<noteq> bucket_of example_start (example_addr 2)"
    by simp
  then show ?thesis
    by (auto simp: kept_apart_def)
qed

definition example_syn :: request where
  "example_syn = Syn [0, 0] (example_header 0 FLAG_SYN 2) [0x61]"

section \<open>Properties\<close>

text \<open>C7. The clients of one server do not disturb each other: however their
  packets interleave, each client is sent exactly what the machine of a single client answers
  to its own packets, in that order. This holds from the first request on, while no session
  expires and no two IP addresses have the same bucket in the session table.\<close>

theorem clients_kept_apart:
  assumes "table_ok srv" "heap_live srv" "srv_mem srv = (\<lambda>_. None)" "equipped lib k x srv"
    and "kept_apart srv (fst ` set es)" "on_time (os_clock srv) (os_ticks srv) [] (map fst es)"
    and "length buf = buffer_size"
    and "\<And>a. a \<in> fst ` set es \<Longrightarrow> reacts lib k x (of_client a es) Unknown = Some (ds a, c a)"
  shows "\<exists>srv' buf'. sas_server_run (datagrams es) (srv, buf) = Ok (Inl (srv', buf')) \<and>
    (\<forall>a \<in> fst ` set es. of_client a (os_sent srv') = of_client a (os_sent srv) @ ds a)"
  by (rule clients_run [OF stands_for_start [OF assms(1-3,5,4,7) order_refl assms(6)]]) (rule assms(8))

theorem clients_kept_apart_witness:
  "\<exists>srv' buf'. sas_server_run (datagrams [(example_addr 1, example_syn), (example_addr 2, example_syn)])
      (example_start, replicate buffer_size 0) = Ok (Inl (srv', buf')) \<and>
    map sent_flags (of_client (example_addr 2) (os_sent srv')) = [FLAG_SYN OR FLAG_ACK]"
proof -
  let ?es = "[(example_addr 1, example_syn), (example_addr 2, example_syn)]" and ?k = "s_codec blank_session"
  have len: "length (syn_datagram [0, 0] (example_header 0 FLAG_SYN 2) [0x61]) = 18"
    by (simp add: syn_datagram_def image_simps)
  obtain d c where syn: "react example_library ?k 0 example_syn Unknown = Some ([d], c)" "sent_flags d = FLAG_SYN OR FLAG_ACK"
    by (auto simp: react_def react_syn_def example_syn_def example_library_def len buffer_size_def Let_def
        reply_packet_def sent_flags_def)
  have one: "reacts example_library ?k 0 (of_client a ?es) Unknown = Some ([d], c)" if "a \<in> fst ` set ?es" for a
    using that syn(1) by (auto simp: example_addr_def)
  have "kept_apart example_start (fst ` set ?es)" "on_time (os_clock example_start) n [] (map fst ?es)" for n
    using example_apart by (simp_all add: renewed_def SESSION_TIMEOUT_def)
  then obtain srv' buf' where "sas_server_run (datagrams ?es) (example_start, replicate buffer_size 0) = Ok (Inl (srv', buf'))"
    "of_client (example_addr 2) (os_sent srv') = of_client (example_addr 2) (os_sent example_start) @ [d]"
    using clients_kept_apart [OF _ _ example_start_empty example_start_equipped _ _ _ one, of "replicate buffer_size 0"]
    by auto
  then show ?thesis
    using syn(2) by auto
qed

text \<open>C8. Files for several clients at once: each client that asks for a file and
  acknowledges every packet is sent the configuration (what the file's header says, and the codec that the
  session's memory held), its file in chunks of at most 1024 bytes
  and the end of the stream, whatever the order in which the packets of the clients arrive. As in C7, no
  session expires meanwhile (\<open>on_time\<close>) and no two IP addresses have the same bucket in the
  session table (\<open>kept_apart\<close>; else a client can be given another one's session, lemma \<open>session_of_other_client\<close>).\<close>

theorem files_served_together:
  assumes "table_ok srv" "heap_live srv" "srv_mem srv = (\<lambda>_. None)" "equipped lib k x srv"
    and "kept_apart srv (fst ` set es)" "on_time (os_clock srv) (os_ticks srv) [] (map fst es)"
    and "length buf = buffer_size"
    and "\<And>a. a \<in> fst ` set es \<Longrightarrow> \<exists>pad h name acks. of_client a es = Syn pad h name # map Packet acks \<and>
      lib name = Some (w a, data a) \<and> length pad = 2 \<and> hd_length h = of_nat (Suc (length name)) \<and> 0 \<notin> set name \<and>
      hd_flags h = FLAG_SYN \<and> length (syn_datagram pad h name) \<le> buffer_size \<and>
      datagrams_ok (hd_seq h + seq_step (hd_length h)) acks \<and> length acks = length (chunks (data a)) + 1"
  shows "\<exists>srv' buf'. sas_server_run (datagrams es) (srv, buf) = Ok (Inl (srv', buf')) \<and>
    (\<forall>a \<in> fst ` set es. \<exists>d ds. of_client a (os_sent srv') = of_client a (os_sent srv) @ d # ds \<and>
      numbered 0 (d # ds) \<and> pk_payload d = cfg_ack_image [x] (cfg_ack_encode (stream_cfg k (w a))) \<and>
      sent_flags d = FLAG_SYN OR FLAG_ACK \<and> concat (map pk_payload ds) = data a \<and>
      list_all (\<lambda>e. length (pk_payload e) \<le> 1024) ds \<and>
      map sent_flags ds = replicate (length (chunks (data a))) 0 @ [FLAG_RST OR FLAG_FIN])"
proof -
  define good where "good a d ds \<longleftrightarrow> numbered 0 (d # ds) \<and>
    pk_payload d = cfg_ack_image [x] (cfg_ack_encode (stream_cfg k (w a))) \<and> sent_flags d = FLAG_SYN OR FLAG_ACK \<and>
    concat (map pk_payload ds) = data a \<and> list_all (\<lambda>e. length (pk_payload e) \<le> 1024) ds \<and>
    map sent_flags ds = replicate (length (chunks (data a))) 0 @ [FLAG_RST OR FLAG_FIN]" for a d ds
  have "\<exists>d ds c. reacts lib k x (of_client a es) Unknown = Some (d # ds, c) \<and> good a d ds" if "a \<in> fst ` set es" for a
    using assms(8) [OF that] reacts_file [of lib _ "w a" "data a"] unfolding good_def by metis
  then obtain d ds c where one: "\<And>a. a \<in> fst ` set es \<Longrightarrow>
      reacts lib k x (of_client a es) Unknown = Some (d a # ds a, c a)" "\<And>a. a \<in> fst ` set es \<Longrightarrow> good a (d a) (ds a)"
    by metis
  have start: "stands_for lib k x (fst ` set es) (srv, buf) (\<lambda>_. Unknown) es"
    by (rule stands_for_start [OF assms(1-3,5,4,7) order_refl assms(6)])
  from clients_run [OF start one(1)] obtain srv' buf' where
    run: "sas_server_run (datagrams es) (srv, buf) = Ok (Inl (srv', buf'))"
    and sent: "\<forall>a \<in> fst ` set es. of_client a (os_sent srv') = of_client a (os_sent srv) @ d a # ds a"
    by auto
  have "\<forall>a \<in> fst ` set es. \<exists>d ds. of_client a (os_sent srv') = of_client a (os_sent srv) @ d # ds \<and> good a d ds"
    using sent one(2) by blast
  with run show ?thesis
    unfolding good_def by blast
qed

theorem files_served_together_witness:
  "\<exists>srv' buf'. sas_server_run (datagrams
      [(example_addr 1, example_syn), (example_addr 2, example_syn), (example_addr 1, Packet (example_wire_ack 2)),
       (example_addr 2, Packet (example_wire_ack 2)), (example_addr 2, Packet (example_wire_ack 3)),
       (example_addr 1, Packet (example_wire_ack 3))])
      (example_start, replicate buffer_size 0) = Ok (Inl (srv', buf')) \<and>
    (\<exists>d ds. of_client (example_addr 1) (os_sent srv') = d # ds \<and> concat (map pk_payload ds) = [1, 2]) \<and>
    (\<exists>d ds. of_client (example_addr 2) (os_sent srv') = d # ds \<and> concat (map pk_payload ds) = [1, 2])"
proof -
  let ?es = "[(example_addr 1, example_syn), (example_addr 2, example_syn), (example_addr 1, Packet (example_wire_ack 2)),
       (example_addr 2, Packet (example_wire_ack 2)), (example_addr 2, Packet (example_wire_ack 3)),
       (example_addr 1, Packet (example_wire_ack 3))]"
  let ?h = "example_header 0 FLAG_SYN 2" and ?acks = "[example_wire_ack 2, example_wire_ack 3]"
  have two: "example_addr 1 \<noteq> example_addr 2" "example_addr 2 \<noteq> example_addr 1"
    by (simp_all add: example_addr_def)
  have len: "length (syn_datagram [0, 0] ?h [0x61]) = 18"
    by (simp add: syn_datagram_def image_simps)
  have acks: "datagrams_ok (hd_seq ?h + seq_step (hd_length ?h)) ?acks"
    using example_wire_acks_ok by (simp add: seq_step_def del: datagrams_ok.simps)
  have lib: "example_library [0x61] = Some (example_wav, [1, 2])"
    by (simp add: example_library_def)
  have reqs: "\<exists>pad h name acks. of_client a ?es = Syn pad h name # map Packet acks \<and>
      example_library name = Some (example_wav, [1, 2]) \<and> length pad = 2 \<and> hd_length h = of_nat (Suc (length name)) \<and>
      0 \<notin> set name \<and> hd_flags h = FLAG_SYN \<and> length (syn_datagram pad h name) \<le> buffer_size \<and>
      datagrams_ok (hd_seq h + seq_step (hd_length h)) acks \<and> length acks = length (chunks [1, 2]) + 1"
    if "a \<in> fst ` set ?es" for a
  proof (intro exI conjI)
    show "of_client a ?es = Syn [0, 0] ?h [0x61] # map Packet ?acks"
      using that two by (auto simp: example_syn_def)
    show "example_library [0x61] = Some (example_wav, [1, 2])"
      by (rule lib)
    show "datagrams_ok (hd_seq ?h + seq_step (hd_length ?h)) ?acks"
      by (rule acks)
  qed (simp_all add: len buffer_size_def)
  have "kept_apart example_start (fst ` set ?es)" "on_time (os_clock example_start) n [] (map fst ?es)" for n
    using example_apart by (simp_all add: renewed_def SESSION_TIMEOUT_def insert_commute)
  then have "\<exists>srv' buf'. sas_server_run (datagrams ?es) (example_start, replicate buffer_size 0) = Ok (Inl (srv', buf')) \<and>
    (\<forall>a \<in> fst ` set ?es. \<exists>d ds. of_client a (os_sent srv') = of_client a (os_sent example_start) @ d # ds \<and>
      numbered 0 (d # ds) \<and> pk_payload d = cfg_ack_image [0] (cfg_ack_encode (stream_cfg (s_codec blank_session) example_wav)) \<and>
      sent_flags d = FLAG_SYN OR FLAG_ACK \<and> concat (map pk_payload ds) = [1, 2] \<and>
      list_all (\<lambda>e. length (pk_payload e) \<le> 1024) ds \<and>
      map sent_flags ds = replicate (length (chunks [1, 2])) 0 @ [FLAG_RST OR FLAG_FIN])"
    by (intro files_served_together [OF _ _ example_start_empty example_start_equipped _ _ _ reqs]) simp_all
  then show ?thesis
    by (elim exE conjE) (auto del: exI intro!: exI)
qed

end
