(* ===== verification/Client_Safety.thy ===== *)
theory Client_Safety
  imports Client_Run
begin

text \<open>
  What can go wrong in the client's program, whatever the network delivers and
  whichever packets cannot be sent: the contract of a driver that faults at
  most in given ways is extended to the whole of \<open>sas_client_receive\<close>.
\<close>

section \<open>Results with exactly one fault\<close>

text \<open>A result that is a given fault, or if none is given, a value that keeps to the condition.\<close>

definition ends :: "fault option \<Rightarrow> ('b \<Rightarrow> bool) \<Rightarrow> 'b res \<Rightarrow> bool" where
  "ends h P r \<longleftrightarrow> (case h of Some e \<Rightarrow> r = Fault e | None \<Rightarrow> (\<exists>a. r = Ok a \<and> P a))"

lemma ends_Ok [simp]: "ends None P (Ok a) \<longleftrightarrow> P a"
  by (simp add: ends_def)

lemma ends_and_then: "ends h P m \<Longrightarrow> (\<And>a. P a \<Longrightarrow> ends None Q (f a)) \<Longrightarrow> ends h Q (and_then m f)"
  by (cases m) (auto simp: ends_def split: option.splits)

lemma ends_mono: "ends h P r \<Longrightarrow> (\<And>a. P a \<Longrightarrow> Q a) \<Longrightarrow> ends h Q r"
  by (auto simp: ends_def split: option.splits)

section \<open>Drivers whose faults are known\<close>

text \<open>
  A driver keeps to a condition on its device while it plays, and it is known for
  which chunks it faults. Once it has stopped it plays no chunk any more, and stops each time it is given one.
  It may rely on a condition on the chunks, but for the first one, on which it never faults.
\<close>

locale safe_sink = audio_sink +
  fixes fit stopped :: "'a client_scheme \<Rightarrow> bool"
    and trap :: "sas_chunk \<Rightarrow> 'a client_scheme \<Rightarrow> fault option"
    and able :: "sas_chunk \<Rightarrow> 'a client_scheme \<Rightarrow> bool"
  assumes plays: "fit c \<Longrightarrow> \<not> stopped c \<Longrightarrow> able e c \<Longrightarrow>
      ends (trap e c) (\<lambda>(go, c'). fit c' \<and> stopped c' = (\<not> go)) (play e c)"
    and stays: "fit c \<Longrightarrow> stopped c \<Longrightarrow> \<exists>c'. play e c = Ok (False, c')"
    and created: "fit (create_logic snk c) \<Longrightarrow> \<not> stopped (create_logic snk c) \<and>
      trap e (create_logic snk c) = None \<and> able e (create_logic snk c)"
    and same_device: "device d = device c \<Longrightarrow>
      fit d = fit c \<and> stopped d = stopped c \<and> trap e d = trap e c \<and> able e d = able e c"
begin

definition attached :: "'a client_scheme \<Rightarrow> bool" where
  "attached c \<longleftrightarrow> c_sink_logic c \<and> fit c \<and> (if stopped c then \<not> in_parent c else tuned c)"

text \<open>The states between two packets, and the fault that a chunk, and that a packet, brings about.\<close>

definition ready :: "'a client_scheme \<Rightarrow> bool" where
  "ready c \<longleftrightarrow> (c_state c = STATE_SYN_SENT \<longrightarrow> fit (create_logic snk c)) \<and> (c_state c = STATE_ESTABLSH \<longrightarrow> attached c)"

definition hazard :: "sas_chunk \<Rightarrow> 'a client_scheme \<Rightarrow> fault option" where
  "hazard e c = (if stopped c then Some Null_Deref else trap e c)"

definition packet_hazard :: "header \<Rightarrow> bytes \<Rightarrow> 'a client_scheme \<Rightarrow> fault option" where
  "packet_hazard h buf c =
     (if c_state c = STATE_ESTABLSH \<and> \<not> hd_seq h < c_ack c \<and> \<not> flag_isset (hd_flags h) FLAG_RST
      then hazard (received_chunk h buf c) c else None)"

text \<open>A datagram that, in any receive buffer, is a chunk on which the driver can rely.\<close>

definition sound :: "bytes \<Rightarrow> bool" where
  "sound d \<longleftrightarrow> (\<forall>buf w c. length buf = client_buffer_size \<longrightarrow> header_load (recv_into buf d) = Ok w \<longrightarrow>
     \<not> flag_isset (hd_flags (header_decode w)) FLAG_RST \<longrightarrow>
     able (received_chunk (header_decode w) (recv_into buf d) c) c)"

lemma attached_same:
  "attached c \<Longrightarrow> device d = device c \<Longrightarrow> c_sink_logic d = c_sink_logic c \<Longrightarrow> in_parent d = in_parent c \<Longrightarrow>
    requested d = requested c \<Longrightarrow> worker d = worker c \<Longrightarrow> attached d"
  using same_device [of d c] by (auto simp: attached_def tuned_def split: if_splits)

lemma fit_create: "device d = device c \<Longrightarrow> fit (create_logic snk d) = fit (create_logic snk c)"
  using same_device [OF create_device, of d c] by simp

lemma push_unheard:
  assumes "c_sink_logic c" "\<not> in_parent c" "play (c_chunk c) c = Ok (True, c')"
  shows "client_push snk c = Ok c'"
  using assms session_partD(3) [OF play_session [OF assms(3)]]
  by (simp add: client_push_def client_sink_logic_def pipeline_sink_logic_def pushes Let_def
      rxc_inlet_pull_def pipeline_inlet_create_def pipeline_inlet_pull_def)

lemma push_ends:
  assumes "attached c" "able (c_chunk c) c"
  shows "ends (hazard (c_chunk c) c) (\<lambda>c'. attached c' \<and> c_state c' = c_state c) (client_push snk c)"
proof (cases "stopped c")
  case True
  then obtain c' where "play (c_chunk c) c = Ok (False, c')" "c_sink_logic c" "\<not> in_parent c"
    using assms(1) stays [of c "c_chunk c"] by (auto simp: attached_def)
  then show ?thesis
    using True push_stopped by (simp add: hazard_def ends_def)
next
  case False
  then have c: "c_sink_logic c" "fit c" "tuned c"
    using assms(1) by (simp_all add: attached_def)
  note p = plays [OF c(2) False assms(2)]
  show ?thesis
  proof (cases "play (c_chunk c) c")
    case (Fault e)
    with p have "trap (c_chunk c) c = Some e"
      by (simp add: ends_def split: option.splits)
    then show ?thesis
      using False push_fault [OF c(1) Fault] by (simp add: hazard_def ends_def)
  next
    case (Ok r)
    obtain go c' where r: "r = (go, c')"
      by (cases r)
    note play = Ok [unfolded r]
    have c': "trap (c_chunk c) c = None" "fit c'" "stopped c' = (\<not> go)"
      using p play by (simp_all add: ends_def split: option.splits)
    note s = session_partD [OF play_session [OF play]]
    have dev: "device (client_pulled c') = device c'" "device (c'\<lparr>in_parent := False, requested := LONG_MIN\<rparr>) = device c'"
      by (simp_all add: device_def)
    have "attached (if go then client_pulled c' else c'\<lparr>in_parent := False, requested := LONG_MIN\<rparr>)"
      using same_device [OF dev(1)] same_device [OF dev(2)] c'(2,3) play_tuned [OF play c(3)] c(1) s(8)
      by (simp add: attached_def)
    then show ?thesis
      using push_plays [OF c(1,3) play] False c'(1) s(4) by (simp add: hazard_def)
  qed
qed

lemma attached_acked: "attached c \<Longrightarrow> attached (client_sent flags payload c)"
  by (rule attached_same) (simp_all add: device_def)

text \<open>A configuration starts the pipeline; a chunk is pushed and acknowledged.\<close>

lemma configure_ends:
  assumes "c_state c = STATE_SYN_SENT" "fit (create_logic snk c)" "length buf = client_buffer_size"
  shows "ends None (\<lambda>(err, c', buf'). ready c' \<and> length buf' = length buf) (client_configure snk h c buf)"
proof -
  obtain w where w: "cfg_ack_load (drop sizeof_header buf) = Ok w"
    using payload_load_total(1) [of "drop sizeof_header buf"] assms(3) by (auto simp: client_buffer_size_def sizeof_defs)
  let ?cfg = "cfg_ack_decode w"
  let ?buf = "store_bytes buf sizeof_header (cfg_ack_image [] ?cfg)"
  let ?c1 = "c\<lparr>c_chunk := config_chunk h ?cfg buf, c_pipeline := True\<rparr>"
  let ?c2 = "(client_pulled (connecting ?c1))\<lparr>c_sink_logic := True\<rparr>"
  let ?c3 = "(client_sent FLAG_ACK [] ?c2)\<lparr>c_state := STATE_ESTABLSH\<rparr>"
  have run: "client_configure snk h c buf = and_then (client_push snk ?c3) (\<lambda>c4. Ok (0, c4, ?buf))"
    using w start_connects [of ?c1] client_acks [of ?c2]
    by (simp add: client_configure_def config_chunk_def Let_def)
  have buf: "length ?buf = length buf"
    using assms(3) by (simp add: store_bytes_def image_simps client_buffer_size_def sizeof_defs)
  have dev: "device ?c3 = device (create_logic snk ?c1)"
    by (simp add: device_def connecting_def set_worker_def)
  have made: "fit (create_logic snk ?c1)"
    using assms(2) fit_create [of ?c1 c] by (simp add: device_def)
  have "tuned ?c3"
    using tuned_connecting [of ?c1] by (auto simp: tuned_def)
  then have "attached ?c3"
    using made created [OF made] same_device [OF dev] by (simp add: attached_def)
  moreover have "able (c_chunk ?c3) ?c3" "hazard (c_chunk ?c3) ?c3 = None"
    using created [OF made] same_device [OF dev] by (simp_all add: hazard_def)
  ultimately have "ends None (\<lambda>c'. attached c' \<and> c_state c' = c_state ?c3) (client_push snk ?c3)"
    using push_ends [of ?c3] by simp
  then show ?thesis
    unfolding run by (rule ends_and_then) (use buf in \<open>simp add: ready_def\<close>)
qed

lemma chunk_ends:
  assumes "c_state c = STATE_ESTABLSH" "attached c" "able (received_chunk h buf c) c"
  shows "ends (hazard (received_chunk h buf c) c) (\<lambda>(err, c', buf'). ready c' \<and> length buf' = length buf)
    (client_chunk snk h c buf)"
proof -
  let ?c1 = "c\<lparr>c_chunk := received_chunk h buf c\<rparr>"
  have dev: "device ?c1 = device c"
    by (simp add: device_def)
  have "attached ?c1"
    by (rule attached_same [OF assms(2) dev]) simp_all
  moreover have "able (c_chunk ?c1) ?c1" "hazard (c_chunk ?c1) ?c1 = hazard (received_chunk h buf c) c"
    using assms(3) same_device [OF dev] by (simp_all add: hazard_def)
  ultimately have "ends (hazard (received_chunk h buf c) c) (\<lambda>c'. attached c' \<and> c_state c' = c_state ?c1) (client_push snk ?c1)"
    using push_ends [of ?c1] by simp
  then show ?thesis
    unfolding client_chunk_def received_chunk_def [symmetric] Let_def
  proof (rule ends_and_then)
    fix c2
    assume c2: "attached c2 \<and> c_state c2 = c_state ?c1"
    have "attached (c2\<lparr>c_receive_window := 0\<rparr>)"
      by (rule attached_same [OF conjunct1 [OF c2]]) (simp_all add: device_def)
    from attached_acked [OF this, of FLAG_ACK "[]"]
    show "ends None (\<lambda>(err, c', buf'). ready c' \<and> length buf' = length buf)
        (and_then (sas_client_session_ack (c2\<lparr>c_receive_window := 0\<rparr>)) (\<lambda>(e, c3). Ok (0, c3, buf)))"
      using c2 assms(1) by (simp add: client_acks ready_def)
  qed
qed

lemma reset_ends:
  assumes "ready c" "length buf = client_buffer_size"
  shows "ends None (\<lambda>(err, c', buf'). ready c' \<and> length buf' = length buf) (client_reset h c buf)"
proof -
  obtain w where "err_load (drop sizeof_header buf) = Ok w"
    using payload_load_total(2) [of "drop sizeof_header buf"] assms(2) by (auto simp: client_buffer_size_def sizeof_defs)
  moreover have "length (store_bytes buf sizeof_header (err_image [] e)) = length buf" for e
    using assms(2) by (simp add: store_bytes_def image_simps client_buffer_size_def sizeof_defs)
  moreover have "ready (c\<lparr>c_state := STATE_FINISHED\<rparr>)"
    by (simp add: ready_def)
  ultimately show ?thesis
    using assms(1) by (simp add: client_reset_def Let_def)
qed

lemma state_machine_ends:
  assumes "ready c" "length buf = client_buffer_size" "header_load buf = Ok h"
    and "c_state c = STATE_ESTABLSH \<longrightarrow> \<not> flag_isset (hd_flags h) FLAG_RST \<longrightarrow> able (received_chunk h buf c) c"
  shows "ends (packet_hazard h buf c) (\<lambda>(err, c', buf'). ready c' \<and> length buf' = length buf)
    (sas_client_session_state_machine snk c buf)"
proof -
  let ?c = "client_accept h c" and ?P = "\<lambda>(err, c', buf'). ready c' \<and> length buf' = length buf"
  have dev: "device ?c = device c"
    by (simp add: device_def)
  have same: "received_chunk h buf ?c = received_chunk h buf c" "hazard e ?c = hazard e c" for e
    using same_device [OF dev] by (simp_all add: received_chunk_def client_accept_def hazard_def)
  have acc: "attached ?c" if "attached c"
    by (rule attached_same [OF that dev]) (simp_all add: client_accept_def)
  have one: "ready ?c"
    using assms(1) acc fit_create [OF dev] by (auto simp: ready_def)
  consider (old) "hd_seq h < c_ack c" | (rst) "\<not> hd_seq h < c_ack c" "flag_isset (hd_flags h) FLAG_RST"
    | (new) "\<not> hd_seq h < c_ack c" "\<not> flag_isset (hd_flags h) FLAG_RST"
    by blast
  then show ?thesis
  proof cases
    case old
    then show ?thesis
      using assms(1,3) by (simp add: sas_client_session_state_machine_def packet_hazard_def)
  next
    case rst
    then show ?thesis
      using assms(3) reset_ends [OF one assms(2), of h]
      by (simp add: sas_client_session_state_machine_def packet_hazard_def)
  next
    case new
    have "ends None ?P (client_configure snk h ?c buf)" if "c_state ?c = STATE_SYN_SENT"
      using one that by (intro configure_ends [OF that _ assms(2)]) (simp add: ready_def)
    moreover have "ends (packet_hazard h buf c) ?P (client_chunk snk h ?c buf)" if "c_state ?c = STATE_ESTABLSH"
      using chunk_ends [OF that, of h buf] one that same assms(4) new same_device [OF dev]
      by (simp add: ready_def packet_hazard_def)
    ultimately show ?thesis
      using new assms(3) one
      by (cases "c_state c") (simp_all add: sas_client_session_state_machine_def packet_hazard_def)
  qed
qed

text \<open>A datagram, the loop, and the whole of \<open>sas_client_receive\<close>.\<close>

lemma received_ends:
  assumes "ready c" "length buf = client_buffer_size" "header_load (recv_into buf d) = Ok w"
    and "c_state c = STATE_ESTABLSH \<longrightarrow> sound d"
  shows "ends (packet_hazard (header_decode w) (recv_into buf d) c) (\<lambda>(err, c', buf'). ready c' \<and> length buf' = length buf)
    (client_received snk d (c, buf))"
proof -
  obtain buf' where buf': "header_decode_in_place (recv_into buf d) = Ok buf'" "length buf' = length buf"
    "drop 16 buf' = drop 16 (recv_into buf d)" "header_load buf' = Ok (header_decode w)"
    using header_decode_in_place_total [of "recv_into buf d"] assms(2,3) by (auto simp: client_buffer_size_def)
  have chunk: "received_chunk (header_decode w) buf' c = received_chunk (header_decode w) (recv_into buf d) c"
    using buf'(3) by (simp add: received_chunk_def sizeof_defs)
  have "packet_hazard (header_decode w) buf' c = packet_hazard (header_decode w) (recv_into buf d) c"
    by (simp add: packet_hazard_def chunk)
  moreover have "c_state c = STATE_ESTABLSH \<longrightarrow> \<not> flag_isset (hd_flags (header_decode w)) FLAG_RST \<longrightarrow>
      able (received_chunk (header_decode w) buf' c) c"
    using assms(2-4) by (auto simp: sound_def chunk)
  ultimately show ?thesis
    using state_machine_ends [OF assms(1) _ buf'(4)] assms(2) buf'(1,2) by (simp add: client_received_def)
qed

lemma header_received:
  assumes "length buf = client_buffer_size"
  shows "\<exists>w. header_load (recv_into buf d) = Ok w"
  using header_load_total [of "recv_into buf d"] assms by (simp add: client_buffer_size_def sizeof_defs)

text \<open>Where the loop faults: at a datagram that is a hazard in the state that the ones before have led to.\<close>

definition trapped :: "event list \<Rightarrow> 'a client_scheme \<times> bytes \<Rightarrow> fault \<Rightarrow> bool" where
  "trapped es cb e \<longleftrightarrow> (\<exists>es1 d es2 c1 buf1 w. es = es1 @ Received d # es2 \<and> client_loop snk es1 cb = Ok (Inl (c1, buf1)) \<and>
     length buf1 = client_buffer_size \<and> header_load (recv_into buf1 d) = Ok w \<and>
     packet_hazard (header_decode w) (recv_into buf1 d) c1 = Some e)"

lemma loop_keeps:
  assumes "ready c" "length buf = client_buffer_size" "\<And>d. sound d" "client_loop snk es (c, buf) = Ok (Inl (c1, buf1))"
  shows "ready c1 \<and> length buf1 = client_buffer_size \<and> c_state c1 \<noteq> STATE_FINISHED"
  using assms(1,2,4)
proof (induction es arbitrary: c buf)
  case Nil
  then show ?case by (auto split: if_splits)
next
  case (Cons i es)
  then obtain d where d: "i = Received d"
    by (cases i) (auto split: if_splits)
  obtain w where "header_load (recv_into buf d) = Ok w"
    using header_received [OF Cons.prems(2)] by blast
  note one = received_ends [OF Cons.prems(1,2) this]
  obtain c2 buf2 where "client_received snk d (c, buf) = Ok (0, c2, buf2)" "client_loop snk es (c2, buf2) = Ok (Inl (c1, buf1))"
    using Cons.prems(3) d by (auto simp: and_then_eq_Ok split: if_splits)
  then show ?case
    using Cons.IH [of c2 buf2] one assms(3) Cons.prems(2) by (auto simp: ends_def split: option.splits)
qed

lemma trapped_faults:
  assumes "ready c" "length buf = client_buffer_size" "\<And>d. sound d" "trapped es (c, buf) e"
  shows "client_loop snk es (c, buf) = Fault e"
proof -
  obtain es1 d es2 c1 buf1 w where t: "es = es1 @ Received d # es2" "client_loop snk es1 (c, buf) = Ok (Inl (c1, buf1))"
    "length buf1 = client_buffer_size" "header_load (recv_into buf1 d) = Ok w"
    "packet_hazard (header_decode w) (recv_into buf1 d) c1 = Some e"
    using assms(4) unfolding trapped_def by blast
  have one: "ready c1" "c_state c1 \<noteq> STATE_FINISHED"
    using loop_keeps [OF assms(1-3) t(2)] by simp_all
  have "client_received snk d (c1, buf1) = Fault e"
    using received_ends [OF one(1) t(3,4)] assms(3) t(5) by (simp add: ends_def)
  then show ?thesis
    using one(2) by (simp add: t(1) client_loop_append t(2))
qed

lemma faults_trapped:
  assumes "ready c" "length buf = client_buffer_size" "\<And>d. sound d" "client_loop snk es (c, buf) = Fault e"
  shows "trapped es (c, buf) e"
  using assms(1,2,4)
proof (induction es arbitrary: c buf)
  case Nil
  then show ?case by (simp split: if_splits)
next
  case (Cons i es)
  then obtain d where d: "i = Received d" "c_state c \<noteq> STATE_FINISHED"
    by (cases i) (auto split: if_splits)
  obtain w where w: "header_load (recv_into buf d) = Ok w"
    using header_received [OF Cons.prems(2)] by blast
  have one: "ends (packet_hazard (header_decode w) (recv_into buf d) c) (\<lambda>(err, c', buf'). ready c' \<and> length buf' = length buf)
      (client_received snk d (c, buf))"
    using received_ends [OF Cons.prems(1,2) w] assms(3) by blast
  show ?case
  proof (cases "packet_hazard (header_decode w) (recv_into buf d) c")
    case (Some f)
    then have "f = e"
      using one Cons.prems(3) d by (simp add: ends_def)
    then show ?thesis
      unfolding trapped_def d(1) using w Some d(2) Cons.prems(2)
      by (intro exI [of _ "[]"] exI [of _ d] exI [of _ es] exI [of _ c] exI [of _ buf] exI [of _ w]) simp
  next
    case None
    then obtain err c1 buf1 where run: "client_received snk d (c, buf) = Ok (err, c1, buf1)" "ready c1"
      "length buf1 = client_buffer_size"
      using one Cons.prems(2) by (auto simp: ends_def)
    then have err: "err = 0" "client_loop snk es (c1, buf1) = Fault e"
      using Cons.prems(3) d by (simp_all split: if_splits)
    from Cons.IH [OF run(2,3) err(2)]
    obtain es1 d' es2 c2 buf2 w' where t: "es = es1 @ Received d' # es2"
      "client_loop snk es1 (c1, buf1) = Ok (Inl (c2, buf2))" "length buf2 = client_buffer_size"
      "header_load (recv_into buf2 d') = Ok w'" "packet_hazard (header_decode w') (recv_into buf2 d') c2 = Some e"
      unfolding trapped_def by blast
    have "client_loop snk (i # es1) (c, buf) = Ok (Inl (c2, buf2))"
      using t(2) run(1) err(1) d by simp
    then show ?thesis
      using t(1,3-5) unfolding trapped_def by (metis append_Cons)
  qed
qed

text \<open>The faults of \<open>sas_client_receive\<close> are those of the loop behind its request.\<close>

definition asking :: "bytes \<Rightarrow> 'a client_scheme \<Rightarrow> 'a client_scheme" where
  "asking name c = client_sent FLAG_SYN (syn_payload name) (c\<lparr>c_state := STATE_SYN_SENT\<rparr>)"

lemma asking:
  assumes "length name < 2 ^ 15"
  shows "(\<exists>r. \<forall>es buf. sas_client_receive snk name es (c, buf) = Ok (Inr r)) \<or>
    (\<forall>es buf. sas_client_receive snk name es (c, buf) = client_loop snk es (asking name c, buf))"
  using client_syns [OF assms, of c] by (simp add: sas_client_receive_def asking_def Let_def)

lemma ready_asking: "fit (create_logic snk c) \<Longrightarrow> ready (asking name c)"
  using fit_create [of "asking name c" c] by (simp add: ready_def asking_def device_def)

lemma receive_keeps:
  assumes "fit (create_logic snk c)" "length name < 2 ^ 15" "length buf = client_buffer_size" "\<And>d. sound d"
    and "sas_client_receive snk name es (c, buf) = Ok (Inl (c1, buf1))"
  shows "ready c1 \<and> length buf1 = client_buffer_size"
  using asking [OF assms(2), of c] assms(5) loop_keeps [OF ready_asking [OF assms(1)] assms(3,4)] by auto

lemma receive_faults:
  assumes "fit (create_logic snk c)" "length name < 2 ^ 15" "length buf = client_buffer_size" "\<And>d. sound d"
  shows "sas_client_receive snk name es (c, buf) = Fault e \<longleftrightarrow>
    (\<exists>es1 d es2 c1 buf1 w. es = es1 @ Received d # es2 \<and>
       sas_client_receive snk name es1 (c, buf) = Ok (Inl (c1, buf1)) \<and> ready c1 \<and>
       length buf1 = client_buffer_size \<and> header_load (recv_into buf1 d) = Ok w \<and>
       packet_hazard (header_decode w) (recv_into buf1 d) c1 = Some e)"
proof (cases "\<forall>es buf. sas_client_receive snk name es (c, buf) = client_loop snk es (asking name c, buf)")
  case True
  note r = ready_asking [OF assms(1), of name]
  have "client_loop snk es (asking name c, buf) = Fault e \<longleftrightarrow> trapped es (asking name c, buf) e"
    using trapped_faults [OF r assms(3,4)] faults_trapped [OF r assms(3,4)] by blast
  moreover have "ready c1" if "client_loop snk es1 (asking name c, buf) = Ok (Inl (c1, buf1))" for es1 c1 buf1
    using loop_keeps [OF r assms(3,4) that] by simp
  ultimately show ?thesis
    unfolding True [rule_format] trapped_def by blast
next
  case False
  then show ?thesis
    using asking [OF assms(2), of c] by auto
qed

text \<open>A driver that never faults, and that can rely on all datagrams but the first.\<close>

lemma loop_survives:
  assumes "ready c" "length buf = client_buffer_size" "\<And>e c. \<not> stopped c \<and> trap e c = None"
    and "\<And>d. Received d \<in> set es \<Longrightarrow> c_state c = STATE_ESTABLSH \<or> Received d \<in> set (tl es) \<Longrightarrow> sound d"
  shows "\<exists>r. client_loop snk es (c, buf) = Ok r"
  using assms(1,2,4)
proof (induction es arbitrary: c buf)
  case (Cons i es)
  have "\<exists>r. and_then (client_received snk d (c, buf)) (\<lambda>(err, c1, buf1).
      if err \<noteq> 0 then Ok (Inr (err, c1)) else client_loop snk es (c1, buf1)) = Ok r" if d: "i = Received d" for d
  proof -
    obtain w where w: "header_load (recv_into buf d) = Ok w"
      using header_received [OF Cons.prems(2)] by blast
    have "packet_hazard (header_decode w) (recv_into buf d) c = None"
      using assms(3) by (simp add: packet_hazard_def hazard_def)
    then obtain err c1 buf1 where run: "client_received snk d (c, buf) = Ok (err, c1, buf1)" "ready c1"
      "length buf1 = client_buffer_size"
      using received_ends [OF Cons.prems(1,2) w] Cons.prems(2,3) d by (auto simp: ends_def)
    have "\<exists>r. client_loop snk es (c1, buf1) = Ok r"
      by (rule Cons.IH [OF run(2,3)]) (use Cons.prems(3) in auto)
    with run(1) show ?thesis by auto
  qed
  then show ?case
    by (cases i) auto
qed auto

lemma receive_survives:
  assumes "fit (create_logic snk c)" "length name < 2 ^ 15" "length buf = client_buffer_size"
    and "\<And>e c. \<not> stopped c \<and> trap e c = None" "\<And>d. Received d \<in> set (tl es) \<Longrightarrow> sound d"
  shows "\<exists>r. sas_client_receive snk name es (c, buf) = Ok r"
proof -
  have "c_state (asking name c) = STATE_SYN_SENT"
    by (simp add: asking_def)
  then have "\<exists>r. client_loop snk es (asking name c, buf) = Ok r"
    using assms(5) by (intro loop_survives [OF ready_asking [OF assms(1)] assms(3,4)]) auto
  then show ?thesis
    using asking [OF assms(2), of c] by auto
qed

end

section \<open>The two drivers\<close>

interpretation ignoring_safe: safe_sink sas_drivers_ignore "\<lambda>e c. Ok (True, c)" "\<lambda>c. True" "\<lambda>c. False"
    "\<lambda>e c. None" "\<lambda>e c. True"
  by unfold_locales simp_all

text \<open>
  The sound device faults where a chunk is larger than its buffer, once it is
  opened; a device that was closed stays so.
\<close>

definition oss_fit :: "'a oss_client_scheme \<Rightarrow> bool" where
  "oss_fit c \<longleftrightarrow> (if oss_finished c then fd_open (oss_fd c) (c_os c) = None
     else 0 < oss_fd c \<longrightarrow> fd_open (oss_fd c) (c_os c) \<noteq> None)"

definition oss_trap :: "sas_chunk \<Rightarrow> 'a oss_client_scheme \<Rightarrow> fault option" where
  "oss_trap e c = (if 0 < oss_fd c \<and> length (ck_buffer e) < ck_size e then Some Out_Of_Bounds else None)"

lemma setup_device_keeps:
  "fst (setup_device fd rs c) = - 1 \<or>
    fst (setup_device fd rs c) = fd \<and> os_fds (c_os (snd (setup_device fd rs c))) = os_fds (c_os c)"
  by (induction fd rs c rule: setup_device.induct) (auto simp: Let_def)

lemma setup_device_oss:
  "oss_write_gives (snd (setup_device fd rs c)) = oss_write_gives c \<and>
    oss_finished (snd (setup_device fd rs c)) = oss_finished c"
  by (induction fd rs c rule: setup_device.induct) (auto simp: Let_def on_os_def)

lemma os_open_opens: "0 \<le> fst (os_open path o') \<Longrightarrow> fd_open (fst (os_open path o')) (snd (os_open path o')) \<noteq> None"
  using fd_open_set_fd [of o'] by (auto simp: os_open_def Let_def split: sum.splits)

lemma open_audio_opens:
  fixes c :: "'a oss_client_scheme" and r s n :: i32
  defines "opened \<equiv> (snd (open_audio_fd r s n c))\<lparr>oss_fd := fst (open_audio_fd r s n c)\<rparr>"
  shows "oss_write_gives opened = oss_write_gives c" "oss_finished opened = oss_finished c"
    and "0 < oss_fd opened \<longrightarrow> fd_open (oss_fd opened) (c_os opened) \<noteq> None"
proof -
  define name where "name = (case oss_env c of None \<Rightarrow> AUDIODEV | Some name \<Rightarrow> name)"
  define fd where "fd = fst (os_open name (c_os c))"
  define c1 where "c1 = c\<lparr>c_os := snd (os_open name (c_os c))\<rparr>"
  define setting where "setting = setup_device fd [DSP_RESET, DSP_SAMPLESIZE s, DSP_CHANNELS n, DSP_SPEED r, DSP_SYNC] c1"
  have run: "open_audio_fd r s n c = (if fd < 0 then (- 1, c1) else setting)"
    by (simp add: open_audio_fd_def name_def fd_def c1_def setting_def case_prod_unfold Let_def del: setup_device.simps)
  have c1: "oss_write_gives c1 = oss_write_gives c" "oss_finished c1 = oss_finished c"
    by (simp_all add: c1_def)
  have dev: "oss_write_gives (snd setting) = oss_write_gives c" "oss_finished (snd setting) = oss_finished c"
    using setup_device_oss [of fd _ c1] c1 unfolding setting_def by metis+
  have open': "fd_open fd (c_os (snd setting)) \<noteq> None" if "0 \<le> fd" "fst setting \<noteq> - 1" "fst setting = fd"
  proof -
    have "os_fds (c_os (snd setting)) = os_fds (snd (os_open name (c_os c)))"
      using setup_device_keeps [of fd _ c1] that(2) unfolding setting_def c1_def by fastforce
    then have "fd_open fd (c_os (snd setting)) = fd_open fd (snd (os_open name (c_os c)))"
      by (simp add: fd_open_def)
    then show ?thesis
      using os_open_opens [of name "c_os c"] that(1) by (simp add: fd_def [symmetric])
  qed
  have fd: "fst setting = - 1 \<or> fst setting = fd"
    using setup_device_keeps [of fd _ c1] unfolding setting_def by blast
  show "oss_write_gives opened = oss_write_gives c" "oss_finished opened = oss_finished c"
    using c1 dev by (auto simp: opened_def run)
  show "0 < oss_fd opened \<longrightarrow> fd_open (oss_fd opened) (c_os opened) \<noteq> None"
    using open' fd by (auto simp: opened_def run)
qed

lemma oss_play_opens:
  assumes "oss_fd c \<le> 0" "\<not> oss_finished c"
  shows "\<exists>c'. oss_play e c = Ok (True, c') \<and> oss_write_gives c' = oss_write_gives c \<and> \<not> oss_finished c' \<and>
    (0 < oss_fd c' \<longrightarrow> fd_open (oss_fd c') (c_os c') \<noteq> None)"
  using assms open_audio_opens [of "ck_sample_rate e" "scast (ck_sample_size e)" "scast (ck_channels e)" c]
  by (simp add: oss_play_def case_prod_unfold Let_def)

text \<open>What an opened device does with a chunk that is no larger than its buffer.\<close>

lemma oss_play_writes:
  assumes "0 < oss_fd c" "\<not> oss_finished c" "fd_open (oss_fd c) (c_os c) \<noteq> None" "ck_size e \<le> length (ck_buffer e)"
  shows "\<exists>c'. oss_play e c = Ok (0 < oss_write_gives c (length (oss_writes c)) \<and> 0 < ck_size e, c') \<and>
    oss_write_gives c' = oss_write_gives c \<and> oss_fit c' \<and>
    oss_finished c' = (\<not> (0 < oss_write_gives c (length (oss_writes c)) \<and> 0 < ck_size e)) \<and> oss_fd c' = oss_fd c"
proof (cases "0 < oss_write_gives c (length (oss_writes c)) \<and> 0 < ck_size e")
  case True
  then show ?thesis
    using assms by (auto simp: oss_play_def oss_write_def oss_fit_def Let_def)
next
  case False
  then have "min (oss_write_gives c (length (oss_writes c))) (int (ck_size e)) \<le> 0"
    by linarith
  then show ?thesis
    using False assms by (auto simp: oss_play_def oss_write_def oss_fit_def on_os_def fd_open_closed Let_def)
qed

lemma oss_play_overruns:
  "0 < oss_fd c \<Longrightarrow> \<not> oss_finished c \<Longrightarrow> fd_open (oss_fd c) (c_os c) \<noteq> None \<Longrightarrow>
    length (ck_buffer e) < ck_size e \<Longrightarrow> oss_play e c = Fault Out_Of_Bounds"
  by (auto simp: oss_play_def oss_write_def)

lemma oss_device:
  "device d = device c \<Longrightarrow> oss_fit d = oss_fit c \<and> oss_finished d = oss_finished c \<and> oss_trap e d = oss_trap e c"
  by (simp add: oss_fit_def oss_trap_def device_oss fd_open_def)

interpretation oss_safe: safe_sink sas_drivers_oss oss_play oss_fit oss_finished oss_trap "\<lambda>e c. True"
proof unfold_locales
  fix c d :: "'a oss_client_scheme" and e
  show "ends (oss_trap e c) (\<lambda>(go, c'). oss_fit c' \<and> oss_finished c' = (\<not> go)) (oss_play e c)"
    if "oss_fit c" "\<not> oss_finished c"
  proof (cases "0 < oss_fd c")
    case False
    then show ?thesis
      using that oss_play_opens [of c e] by (auto simp: oss_trap_def oss_fit_def)
  next
    case True
    then have o': "fd_open (oss_fd c) (c_os c) \<noteq> None"
      using that by (simp add: oss_fit_def)
    show ?thesis
    proof (cases "ck_size e \<le> length (ck_buffer e)")
      case le: True
      then show ?thesis
        using oss_play_writes [OF True that(2) o' le] by (auto simp: oss_trap_def)
    next
      case False
      then show ?thesis
        using oss_play_overruns [OF True that(2) o', of e] True by (simp add: oss_trap_def ends_def)
    qed
  qed
  show "\<exists>c'. oss_play e c = Ok (False, c')" if "oss_fit c" "oss_finished c"
    using that by (simp add: oss_play_def oss_write_def oss_fit_def)
  show "oss_fit d = oss_fit c \<and> oss_finished d = oss_finished c \<and> oss_trap e d = oss_trap e c \<and> True = True"
    if "device d = device c"
    using oss_device [OF that] by simp
qed (simp_all add: sas_drivers_oss_def oss_create_logic_def oss_trap_def)

text \<open>
  A device that takes something of every chunk, given chunks with audio that fit
  their buffer; that it can be opened or set up is not asked for.
\<close>

definition steady :: "'a oss_client_scheme \<Rightarrow> bool" where
  "steady c \<longleftrightarrow> (\<forall>n. 0 < oss_write_gives c n) \<and> \<not> oss_finished c \<and> oss_fit c"

definition steady_able :: "sas_chunk \<Rightarrow> 'a oss_client_scheme \<Rightarrow> bool" where
  "steady_able e c \<longleftrightarrow> 0 < oss_fd c \<longrightarrow> 0 < ck_size e \<and> ck_size e \<le> length (ck_buffer e)"

interpretation oss_steady: safe_sink sas_drivers_oss oss_play steady "\<lambda>c. False" "\<lambda>e c. None" steady_able
proof unfold_locales
  fix c d :: "'a oss_client_scheme" and e
  show "ends None (\<lambda>(go, c'). steady c' \<and> False = (\<not> go)) (oss_play e c)" if "steady c" "steady_able e c"
  proof (cases "0 < oss_fd c")
    case False
    then show ?thesis
      using that oss_play_opens [of c e] by (auto simp: steady_def oss_fit_def)
  next
    case True
    then have "\<not> oss_finished c" "fd_open (oss_fd c) (c_os c) \<noteq> None" "ck_size e \<le> length (ck_buffer e)"
      using that by (simp_all add: steady_def steady_able_def oss_fit_def)
    from oss_play_writes [OF True this] show ?thesis
      using that True by (auto simp: steady_def steady_able_def)
  qed
  show "steady d = steady c \<and> False = False \<and> None = None \<and> steady_able e d = steady_able e c" if "device d = device c"
    using oss_device [OF that] that by (simp add: steady_def steady_able_def device_oss)
qed (simp_all add: steady_def steady_able_def sas_drivers_oss_def oss_create_logic_def)

section \<open>The length field of a chunk\<close>

text \<open>Which sizes a chunk can have in the receive buffer behind the header.\<close>

lemma chunk_size_short:
  assumes "unat (hd_length h) < sizeof_cfg_ack"
  shows "2 ^ 64 - sizeof_cfg_ack \<le> chunk_size h"
  using chunk_size_wraps [of h "unat (hd_length h)"] assms by (simp add: sizeof_defs)

lemma chunk_size_fits:
  "chunk_size h \<le> 4080 \<longleftrightarrow> 8 \<le> unat (hd_length h) \<and> unat (hd_length h) \<le> 4088"
proof (cases "sizeof_cfg_ack \<le> unat (hd_length h)")
  case True
  then have "chunk_size h = unat (hd_length h) - sizeof_cfg_ack"
    using unsigned_less [of "hd_length h"] by (intro chunk_size_length) simp_all
  with True show ?thesis
    by (auto simp: sizeof_defs)
next
  case False
  with chunk_size_short [of h] show ?thesis
    by (simp add: sizeof_defs)
qed

text \<open>
  The length field of a packet keeps to the receive buffer, and is more than the
  size of a configuration, unless the packet is a reset; and a datagram with such a header.
\<close>

definition sized :: "header \<Rightarrow> bool" where
  "sized h \<longleftrightarrow> flag_isset (hd_flags h) FLAG_RST \<or>
     sizeof_cfg_ack < unat (hd_length h) \<and> sizeof_header + unat (hd_length h) \<le> client_buffer_size"

definition sized_datagram :: "bytes \<Rightarrow> bool" where
  "sized_datagram d \<longleftrightarrow> sizeof_header \<le> length d \<and> (\<forall>w. header_load d = Ok w \<longrightarrow> sized (header_decode w))"

lemma sized_chunk:
  assumes "sized h" "\<not> flag_isset (hd_flags h) FLAG_RST"
  shows "0 < chunk_size h \<and> chunk_size h \<le> 4080"
proof -
  have "chunk_size h = unat (hd_length h) - sizeof_cfg_ack"
    using assms unsigned_less [of "hd_length h"] by (intro chunk_size_length) (simp_all add: sized_def)
  then show ?thesis
    using assms by (auto simp: sized_def sizeof_defs client_buffer_size_def)
qed

lemma received_buffer: "length buf = client_buffer_size \<Longrightarrow> length (ck_buffer (received_chunk h (recv_into buf d) c)) = 4080"
  by (simp add: received_chunk_def client_buffer_size_def sizeof_defs)

lemma sized_sound:
  assumes "sized_datagram d"
  shows "oss_steady.sound TYPE('a) d"
  unfolding oss_steady.sound_def
proof (intro allI impI)
  fix buf w and c :: "'a oss_client_scheme"
  assume r: "length buf = client_buffer_size" "header_load (recv_into buf d) = Ok w"
    "\<not> flag_isset (hd_flags (header_decode w)) FLAG_RST"
  obtain v where v: "header_load d = Ok v"
    using header_load_total [of d] assms by (auto simp: sized_datagram_def)
  have "16 \<le> length d" "16 \<le> length buf"
    using assms r(1) by (simp_all add: sized_datagram_def client_buffer_size_def sizeof_defs)
  from header_load_recv [OF v this] have "sized (header_decode w)"
    using assms v r(2) by (simp add: sized_datagram_def)
  from sized_chunk [OF this r(3)] show "steady_able (received_chunk (header_decode w) (recv_into buf d) c) c"
    using received_buffer [OF r(1), of "header_decode w" d c] by (simp add: steady_able_def received_chunk_def)
qed

section \<open>Properties\<close>

text \<open>C12. The client with the driver that ignores the audio survives every input: whatever
  datagrams of whatever length and content it receives, in whatever order, and whichever of its
  packets cannot be sent, \<open>sas_client_receive\<close> never makes an access without meaning, and
  goes on or ends with a result. The name it asks for is shorter than \<open>2\<^sup>1\<^sup>5\<close> bytes (a longer one
  overruns when the request is sent: lemma \<open>long_name_overruns\<close>).\<close>

theorem ignoring_client_survives:
  assumes "length name < 2 ^ 15" "length buf = client_buffer_size"
  shows "\<exists>r. sas_client_receive sas_drivers_ignore name es (c, buf) = Ok r"
  by (rule ignoring_safe.receive_survives) (use assms in \<open>simp_all add: ignoring_safe.sound_def\<close>)

theorem ignoring_client_survives_witness:
  "\<exists>r. sas_client_receive sas_drivers_ignore [0x61]
      [Received [], Received (replicate 30 0xFF), Received (replicate 5000 0), Wait_Timeout]
      (example_established, replicate client_buffer_size 0) = Ok r"
  by (rule ignoring_client_survives) simp_all

text \<open>C14. When the client with the sound device faults, and how, exactly: whatever datagrams and failures there are,
  for a name shorter than \<open>2\<^sup>1\<^sup>5\<close> bytes, it does so if and only if
  among the datagrams, up to which it has run without a fault, one comes in an established session that is neither
  old nor a reset, and either the driver has stopped before (then it is a call through a null pointer), or its device is
  open and the header claims less than 8 or more than 4088 bytes (then it is a read beyond the buffer). In
  all other cases no null pointer is followed, no memory accessed that is not there, and the calls nest no deeper.\<close>

theorem oss_client_faults:
  fixes c :: "'a oss_client_scheme"
  assumes "length name < 2 ^ 15" "length buf = client_buffer_size"
  shows "sas_client_receive sas_drivers_oss name es (c, buf) = Fault e \<longleftrightarrow>
    (\<exists>es1 d es2 c1 buf1 w. es = es1 @ Received d # es2 \<and>
       sas_client_receive sas_drivers_oss name es1 (c, buf) = Ok (Inl (c1, buf1)) \<and>
       header_load (recv_into buf1 d) = Ok w \<and>
       c_state c1 = STATE_ESTABLSH \<and> \<not> hd_seq (header_decode w) < c_ack c1 \<and>
       \<not> flag_isset (hd_flags (header_decode w)) FLAG_RST \<and>
       (if oss_finished c1 then e = Null_Deref
        else 0 < oss_fd c1 \<and> \<not> (8 \<le> unat (hd_length (header_decode w)) \<and> unat (hd_length (header_decode w)) \<le> 4088) \<and>
          e = Out_Of_Bounds))"
proof -
  have fit: "oss_fit (create_logic sas_drivers_oss c)" and sound: "\<And>d. oss_safe.sound TYPE('a) d"
    by (simp_all add: oss_fit_def sas_drivers_oss_def oss_create_logic_def oss_safe.sound_def)
  have hazard: "oss_safe.packet_hazard (header_decode w) (recv_into buf1 d) c1 = Some e \<longleftrightarrow>
      c_state c1 = STATE_ESTABLSH \<and> \<not> hd_seq (header_decode w) < c_ack c1 \<and>
      \<not> flag_isset (hd_flags (header_decode w)) FLAG_RST \<and>
      (if oss_finished c1 then e = Null_Deref
       else 0 < oss_fd c1 \<and> \<not> (8 \<le> unat (hd_length (header_decode w)) \<and> unat (hd_length (header_decode w)) \<le> 4088) \<and>
         e = Out_Of_Bounds)"
    if "length buf1 = client_buffer_size" for w buf1 d and c1 :: "'a oss_client_scheme"
    using received_buffer [OF that, of "header_decode w" d c1] chunk_size_fits [of "header_decode w"]
    by (auto simp: oss_safe.packet_hazard_def oss_safe.hazard_def oss_trap_def received_chunk_def)
  note keeps = oss_safe.receive_keeps [OF fit assms sound]
  show ?thesis
    unfolding oss_safe.receive_faults [OF fit assms sound]
    by (intro iff_exI) (use keeps hazard in blast)
qed

text \<open>The example's client, once it is configured; a chunk of three bytes then ends it.\<close>

lemma example_configured:
  "\<exists>c1 buf1. sas_client_receive sas_drivers_oss [0x61] [Received (packet_bytes [0, 0] example_config)]
      (example_oss, replicate client_buffer_size 0) = Ok (Inl (c1, buf1)) \<and> length buf1 = client_buffer_size \<and>
    c_state c1 = STATE_ESTABLSH \<and> c_ack c1 = 8 \<and> oss_ready c1"
proof -
  obtain c syn where syn: "sas_client_session_syn example_oss [0x61] = Ok (0, c)" "c_state c = STATE_SYN_SENT"
    "c_ack c = 0" "os_send_error (c_os c) = (\<lambda>_. None)" "device c = device example_oss"
    using client_syn [of example_oss "[0x61]"] by auto
  obtain d0 where "oss_play (format_chunk example_cfg) (create_logic sas_drivers_oss example_oss) = Ok (True, d0)" "oss_ready d0"
    using oss_opens [of "create_logic sas_drivers_oss example_oss" "format_chunk example_cfg"] example_oss_simps(6)
    by (auto simp: sas_drivers_oss_def oss_create_logic_def willing_def)
  then obtain d where d: "oss_play (format_chunk example_cfg) (create_logic sas_drivers_oss c) = Ok (True, d)" "device d = device d0"
    using oss.play_device [OF _ oss.create_device [OF syn(5)]] by blast
  obtain x where p: "packet_ok example_config" "sent_seq example_config = c_ack c"
    "\<not> flag_isset (sent_flags example_config) FLAG_RST"
    "pk_payload example_config = cfg_ack_image [x] (cfg_ack_encode example_cfg)"
    using example_config_simps(1,2) syn(3) by (auto simp: config_packet_def)
  obtain c1 buf1 where one: "client_received sas_drivers_oss (packet_bytes [0, 0] example_config) (c, replicate client_buffer_size 0) =
      Ok (0, c1, buf1)" "length buf1 = client_buffer_size" "established c1" "c_ack c1 = 8" "device c1 = device d"
    using oss.receive_config_packet [OF syn(2,4) p _ _ d(1), of "replicate client_buffer_size 0" "[0, 0]"]
      example_config_simps(2) by (auto simp: client_buffer_size_def)
  have "oss_ready c1"
    using \<open>oss_ready d0\<close> d(2) one(5) by (auto simp: oss_ready_def device_oss fd_open_def split: if_splits)
  then show ?thesis
    using syn(1,2) one by (auto simp: sas_client_receive_def established_def)
qed

theorem oss_client_faults_witness:
  "sas_client_receive sas_drivers_oss [0x61] [Received (packet_bytes [0, 0] example_config),
      Received (packet_bytes [0, 0] (example_packet 8 0 [1, 2, 3]))] (example_oss, replicate client_buffer_size 0) =
    Fault Out_Of_Bounds"
proof -
  let ?d = "packet_bytes [0, 0] (example_packet 8 0 [1, 2, 3])"
  obtain c1 buf1 where c1: "sas_client_receive sas_drivers_oss [0x61] [Received (packet_bytes [0, 0] example_config)]
      (example_oss, replicate client_buffer_size 0) = Ok (Inl (c1, buf1))" "length buf1 = client_buffer_size"
    "c_state c1 = STATE_ESTABLSH" "c_ack c1 = 8" "oss_ready c1"
    using example_configured by blast
  have "header_load (recv_into buf1 ?d) = Ok (pk_header (example_packet 8 0 [1, 2, 3]))"
    using c1(2) by (intro header_load_recv packet_load) (simp_all add: client_buffer_size_def)
  with c1 show ?thesis
    by (intro oss_client_faults [THEN iffD2] exI [of _ "[Received (packet_bytes [0, 0] example_config)]"] exI [of _ ?d]
        exI [of _ "[]"] exI [of _ c1] exI [of _ buf1] exI [of _ "pk_header (example_packet 8 0 [1, 2, 3])"])
      (simp_all add: oss_ready_def example_packet_def)
qed

text \<open>C13. Neither happens with a device that takes something of every chunk, when the length field of every packet but
  the first and the resets is more than 8, the size of a configuration, and keeps to the receive buffer's: then the client
  goes on or ends with a result, even if the device cannot be opened or refuses its settings. (Of a chunk
  of length 8 no audio is left, and a write of nothing gives 0, which the driver takes for a failure.)\<close>

theorem oss_client_survives:
  assumes "\<And>n. 0 < oss_write_gives c n" "length name < 2 ^ 15" "length buf = client_buffer_size"
    and "\<And>d. Received d \<in> set (tl es) \<Longrightarrow> sized_datagram d"
  shows "\<exists>r. sas_client_receive sas_drivers_oss name es (c, buf) = Ok r"
proof (rule oss_steady.receive_survives)
  show "steady (create_logic sas_drivers_oss c)"
    using assms(1) by (simp add: steady_def oss_fit_def sas_drivers_oss_def oss_create_logic_def)
qed (use assms sized_sound in auto)

lemma sized_packet:
  assumes "sized (header_decode (pk_header p))" "length pad = 2"
  shows "sized_datagram (packet_bytes pad p)"
  using assms packet_load [OF assms(2), of p] by (simp add: sized_datagram_def sizeof_defs)

theorem oss_client_survives_witness:
  "\<exists>r. sas_client_receive sas_drivers_oss [0x61]
      [Received (packet_bytes [0, 0] (example_packet 8 0 [1, 2, 3, 4, 5, 6, 7, 8])),
       Received (packet_bytes [0, 0] (example_packet 17 0 [1, 2, 3, 4, 5, 6, 7, 8, 9])),
       Received (packet_bytes [0, 0] (example_packet 3 FLAG_RST []))]
      (example_oss, replicate client_buffer_size 0) = Ok r"
proof (rule oss_client_survives)
  show "0 < oss_write_gives example_oss n" for n
    by (simp add: example_oss_def sas_client_init_def)
qed (auto intro!: sized_packet simp: example_packet_def sized_def sizeof_defs client_buffer_size_def)

text \<open>C15. The exact bounds of the length field: while a stream is played on the sound device, a new packet that is no
  reset makes the client read beyond its receive buffer of 4096 bytes, and write what it finds there to the device,
  unless its header claims between 8 and 4088 bytes. How many bytes came is not looked at.\<close>

theorem length_field_overruns:
  assumes "c_state c = STATE_ESTABLSH" "c_sink_logic c" "tuned c" "oss_ready c" "length buf = client_buffer_size"
    and "sizeof_header \<le> length d" "header_load d = Ok w" "\<not> hd_seq (header_decode w) < c_ack c"
    and "\<not> flag_isset (hd_flags (header_decode w)) FLAG_RST"
  shows "client_received sas_drivers_oss d (c, buf) = Fault Out_Of_Bounds \<longleftrightarrow>
    \<not> (8 \<le> unat (hd_length (header_decode w)) \<and> unat (hd_length (header_decode w)) \<le> 4088)"
proof -
  let ?h = "header_decode w"
  have len: "16 \<le> length d" "16 \<le> length buf"
    using assms(5,6) by (simp_all add: client_buffer_size_def sizeof_defs)
  obtain buf' where buf': "header_decode_in_place (recv_into buf d) = Ok buf'" "length buf' = length buf"
    "header_load buf' = Ok ?h"
    using datagram_decoded [OF assms(7) len] by blast
  let ?c = "(client_accept ?h c)\<lparr>c_chunk := (c_chunk c)\<lparr>ck_size := chunk_size ?h, ck_buffer := drop sizeof_header buf'\<rparr>\<rparr>"
  have run: "client_received sas_drivers_oss d (c, buf) = and_then (client_push sas_drivers_oss ?c) (\<lambda>c2.
      and_then (sas_client_session_ack (c2\<lparr>c_receive_window := 0\<rparr>)) (\<lambda>(e, c3). Ok (0, c3, buf')))"
    using buf' assms(1,8,9)
    by (simp add: client_received_def sas_client_session_state_machine_def client_chunk_def client_accept_def Let_def)
  have c: "c_sink_logic ?c" "tuned ?c" "oss_ready ?c"
    using assms(2-4) by (auto simp: client_accept_def tuned_def oss_ready_def)
  have size: "length (ck_buffer (c_chunk ?c)) = 4080"
    using buf'(2) assms(5) by (simp add: client_buffer_size_def sizeof_defs)
  show ?thesis
  proof (cases "chunk_size ?h \<le> 4080")
    case True
    then obtain go c' where "oss_play (c_chunk ?c) ?c = Ok (go, c')"
      using oss_play_writes [of ?c "c_chunk ?c"] c(3) size by (auto simp: oss_ready_def)
    from oss.push_plays [OF c(1,2) this] show ?thesis
      using True unfolding run chunk_size_fits by (simp add: client_acks)
  next
    case False
    then have "oss_play (c_chunk ?c) ?c = Fault Out_Of_Bounds"
      using size c(3) oss_play_overruns [of ?c "c_chunk ?c"] by (auto simp: oss_ready_def)
    from oss.push_fault [OF c(1) this] show ?thesis
      using False unfolding run chunk_size_fits by simp
  qed
qed

theorem length_field_overruns_witness:
  "client_received sas_drivers_oss (packet_bytes [0, 0] \<lparr>pk_header = header_encode
      \<lparr>hd_seq = 8, hd_ack = 0, hd_reserved = 0, hd_flags = 0, hd_window = 1024, hd_length = 5000\<rparr>, pk_payload = []\<rparr>)
    (example_playing 1, replicate client_buffer_size 0) = Fault Out_Of_Bounds"
proof -
  let ?h = "\<lparr>hd_seq = 8, hd_ack = 0, hd_reserved = 0, hd_flags = 0, hd_window = 1024, hd_length = 5000\<rparr> :: header"
  let ?d = "packet_bytes [0, 0] \<lparr>pk_header = header_encode ?h, pk_payload = []\<rparr>"
  have "header_load ?d = Ok (header_encode ?h)" "sizeof_header \<le> length ?d"
    using packet_load [of "[0, 0]" "\<lparr>pk_header = header_encode ?h, pk_payload = []\<rparr>"] by (simp_all add: sizeof_defs)
  moreover have "c_state (example_playing 1) = STATE_ESTABLSH" "c_sink_logic (example_playing 1)" "tuned (example_playing 1)"
    "oss_ready (example_playing 1)" "c_ack (example_playing 1) = 8"
    using example_playing_simps [of 1] by (simp_all add: established_def listening_tuned)
  ultimately show ?thesis
    using length_field_overruns [of "example_playing 1" "replicate client_buffer_size 0" ?d "header_encode ?h"]
    by simp
qed

end
