(* ===== verification/Unreliable.thy ===== *)
theory Unreliable
  imports Network "HOL-Library.Sublist"
begin

text \<open>
  A client and the server over a network that does what UDP may do: a packet
  can be lost, can arrive any number of times, and in any order; and the client's
  \<open>select\<close> can give up. What the audio device is given then, and what is
  never made up for.
\<close>

section \<open>The network\<close>

text \<open>
  The states are those of \<open>Network\<close>, but no packet ever leaves the network: the two counters
  stay at what had been sent before the client started, so that \<open>up_flight\<close> and \<open>down_flight\<close> are all
  packets of the conversation. Any of them may arrive next; one that never arrives is lost.
\<close>

datatype hazard = Up nat | Down nat | Give_Up

fun possible :: "sockaddr6 \<Rightarrow> hazard \<Rightarrow> 'a client_scheme network \<Rightarrow> bool" where
  "possible a (Up i) n \<longleftrightarrow> isl (net_server n) \<and> i < length (up_flight n)"
| "possible a (Down i) n \<longleftrightarrow> isl (net_client n) \<and> i < length (down_flight a n)"
| "possible a Give_Up n \<longleftrightarrow> isl (net_client n)"

fun occurs :: "(sas_chunk, 'a client_scheme) sink \<Rightarrow> sockaddr6 \<Rightarrow> bytes \<Rightarrow> hazard \<Rightarrow>
    'a client_scheme network \<Rightarrow> 'a client_scheme network res" where
  "occurs snk a pad (Up i) n =
     (case net_server n of
        Inr x \<Rightarrow> Ok n
      | Inl sb \<Rightarrow>
          and_then (server_round (Datagram a (packet_bytes pad (up_flight n ! i))) sb) (\<lambda>r.
          Ok (n\<lparr>net_server := r\<rparr>)))"
| "occurs snk a pad (Down i) n =
     (case net_client n of
        Inr x \<Rightarrow> Ok n
      | Inl cb \<Rightarrow>
          and_then (client_loop snk [Received (packet_bytes pad (down_flight a n ! i))] cb) (\<lambda>r.
          Ok (n\<lparr>net_client := r\<rparr>)))"
| "occurs snk a pad Give_Up n =
     (case net_client n of
        Inr x \<Rightarrow> Ok n
      | Inl cb \<Rightarrow> and_then (client_loop snk [Wait_Timeout] cb) (\<lambda>r. Ok (n\<lparr>net_client := r\<rparr>)))"

text \<open>A run in which the packets from the server whose numbers are in \<open>lost\<close> never arrive.\<close>

inductive udp_run :: "(sas_chunk, 'a client_scheme) sink \<Rightarrow> sockaddr6 \<Rightarrow> nat set \<Rightarrow> 'a client_scheme network \<Rightarrow>
    'a client_scheme network \<Rightarrow> bool" for snk a lost n0 where
  start: "udp_run snk a lost n0 n0"
| step: "udp_run snk a lost n0 n \<Longrightarrow> possible a h n \<Longrightarrow> h \<notin> Down ` lost \<Longrightarrow> length pad = 2 \<Longrightarrow>
    occurs snk a pad h n = Ok n' \<Longrightarrow> udp_run snk a lost n0 n'"

text \<open>Whatever happens is a run of the two programs.\<close>

lemma udp_run_programs:
  assumes "net_start a name cb sb = Ok n0" "udp_run snk a lost n0 n"
  shows "(\<exists>es. sas_client_receive snk name es cb = Ok (net_client n)) \<and> (\<exists>is. sas_server_run is sb = Ok (net_server n))"
  using assms(2)
proof induction
  case start
  show ?case
    using net_start_programs [OF assms(1)] by blast
next
  case (step n h pad n')
  obtain es "is" where run: "sas_client_receive snk name es cb = Ok (net_client n)" "sas_server_run is sb = Ok (net_server n)"
    using step.IH by blast
  show ?case
  proof (cases h)
    case (Up i)
    then obtain sb1 r where r: "net_server n = Inl sb1"
      "server_round (Datagram a (packet_bytes pad (up_flight n ! i))) sb1 = Ok r" "n' = n\<lparr>net_server := r\<rparr>"
      using step.hyps(2,5) by (auto simp: and_then_eq_Ok split: sum.splits)
    show ?thesis
      using server_goes_on [OF run(2) [unfolded r(1)] r(2)] run(1) r(3) by auto
  next
    case (Down i)
    then obtain cb1 r where r: "net_client n = Inl cb1"
      "client_loop snk [Received (packet_bytes pad (down_flight a n ! i))] cb1 = Ok r" "n' = n\<lparr>net_client := r\<rparr>"
      using step.hyps(2,5) by (auto simp: and_then_eq_Ok split: sum.splits)
    show ?thesis
      using client_goes_on [OF run(1) [unfolded r(1)] r(2)] run(2) r(3) by auto
  next
    case Give_Up
    then obtain cb1 r where r: "net_client n = Inl cb1" "client_loop snk [Wait_Timeout] cb1 = Ok r"
      "n' = n\<lparr>net_client := r\<rparr>"
      using step.hyps(2,5) by (auto simp: and_then_eq_Ok split: sum.splits)
    show ?thesis
      using client_goes_on [OF run(1) [unfolded r(1)] r(2)] run(2) r(3) by auto
  qed
qed

section \<open>Sequence numbers without wrap-around\<close>

text \<open>By how much packets advance the sequence number, as a natural number.\<close>

definition span :: "packet list \<Rightarrow> nat" where
  "span ps = (\<Sum>p \<leftarrow> ps. max 1 (length (pk_payload p)))"

lemma span_simps [simp]:
  "span [] = 0" "span (p # ps) = max 1 (length (pk_payload p)) + span ps" "span (ps @ qs) = span ps + span qs"
  by (simp_all add: span_def)

lemma unat_seq_step:
  assumes "n \<le> 1024"
  shows "unat (seq_step (of_nat n)) = max 1 n"
proof -
  have "unat (of_nat n :: u16) = n"
    using assms by (simp add: unat_of_nat)
  moreover have "unat (ucast x :: u32) = unat x" for x :: u16
    by (simp add: unsigned_ucast_eq take_bit_nat_eq_self less_le_trans [OF unsigned_less])
  ultimately show ?thesis
    by (auto simp: seq_step_def word_less_nat_alt)
qed

lemma unat_seq_after:
  "list_all packet_ok ps \<Longrightarrow> unat seq + span ps < 2 ^ 32 \<Longrightarrow> unat (seq_after seq ps) = unat seq + span ps"
proof (induction ps arbitrary: seq)
  case (Cons p ps)
  let ?s = "seq_step (of_nat (length (pk_payload p)))"
  have step: "unat ?s = max 1 (length (pk_payload p))"
    using Cons.prems(1) by (intro unat_seq_step) (simp add: packet_ok_def)
  have sum: "unat seq + unat ?s + span ps < 2 ^ 32"
    using Cons.prems(2) unfolding step by simp
  have "unat (seq + ?s) = unat seq + unat ?s"
    using sum by (simp add: unat_word_ariths)
  then show ?case
    using Cons.IH [of "seq + ?s"] Cons.prems(1) sum step by simp
qed simp

lemma span_strict:
  assumes "j < i" "i \<le> length ps"
  shows "span (take j ps) < span (take i ps)"
proof -
  have "take i ps = take j ps @ drop j (take i ps)"
    using assms(1) by (metis append_take_drop_id min.absorb1 order.strict_implies_order take_take)
  moreover obtain q qs where "drop j (take i ps) = q # qs"
    using assms by (cases "drop j (take i ps)") auto
  ultimately show ?thesis
    by (metis add_gr_0 less_add_same_cancel1 less_max_iff_disj less_numeral_extra(1) span_simps(2,3))
qed

lemma numbered_order:
  assumes "numbered 0 ps" "list_all packet_ok ps" "span ps < 2 ^ 32" "j < length ps" "i \<le> length ps"
  shows "sent_seq (ps ! j) < seq_after 0 (take i ps) \<longleftrightarrow> j < i"
proof -
  have unat: "unat (seq_after 0 (take k ps)) = span (take k ps)" for k
  proof -
    have "span (take k ps) \<le> span ps"
      by (metis append_take_drop_id le_add1 span_simps(3))
    then show ?thesis
      using assms(2,3) unat_seq_after [of "take k ps" 0] by (simp add: list_all_iff) (metis in_set_takeD)
  qed
  have "span (take j ps) < span (take i ps) \<longleftrightarrow> j < i"
    using span_strict [of j i ps] span_strict [of i j ps] assms(4,5) by (cases i j rule: linorder_cases) auto
  then show ?thesis
    by (simp add: numbered_nth [OF assms(1,4)] word_less_nat_alt unat)
qed

text \<open>The packets of a stream, or of its beginning, have no more than the bytes of the file and nine.\<close>

fun piece_span :: "piece \<Rightarrow> nat" where
  "piece_span Config = sizeof_cfg_ack"
| "piece_span (Chunk b) = max 1 (length b)"
| "piece_span End = 1"

lemma piece_span_packet: "is_piece cfg x p \<Longrightarrow> packet_ok p \<and> max 1 (length (pk_payload p)) = piece_span x"
  by (cases x) (auto simp: config_packet_def fin_packet_def image_simps sizeof_cfg_ack_def)

lemma piece_span_packets:
  "list_all2 (is_piece cfg) xs ps \<Longrightarrow> list_all packet_ok ps \<and> span ps = sum_list (map piece_span xs)"
  by (induction rule: list_all2_induct) (use piece_span_packet in auto)

lemma sum_chunks: "sum_list (map (piece_span \<circ> Chunk) (chunks data)) = length data"
proof (induction data rule: chunks.induct)
  case (1 data)
  show ?case
  proof (cases "data = []")
    case False
    then show ?thesis
      using 1 [OF False] by (cases data) simp_all
  qed simp
qed

lemma span_sent:
  assumes "list_all2 (is_piece cfg) sent ps" "sent @ todo = Config # pieces data"
  shows "list_all packet_ok ps" "span ps \<le> length data + 9"
proof -
  have "span ps = sum_list (map piece_span sent)"
    using piece_span_packets [OF assms(1)] by simp
  also have "\<dots> \<le> sum_list (map piece_span (sent @ todo))"
    by simp
  also have "\<dots> = length data + 9"
    unfolding assms(2) by (simp add: pieces_def sum_chunks sizeof_cfg_ack_def del: pieces_simps)
  finally show "span ps \<le> length data + 9" .
  show "list_all packet_ok ps"
    using piece_span_packets [OF assms(1)] by simp
qed

lemma piece_at:
  assumes "list_all2 (is_piece cfg) sent ps" "sent @ todo = Config # pieces data" "i < length ps"
  shows "is_piece cfg ((Config # pieces data) ! i) (ps ! i)"
proof -
  have len: "length sent = length ps"
    by (rule list_all2_lengthD [OF assms(1)])
  have "(Config # pieces data) ! i = sent ! i"
    using assms(3) len by (simp add: assms(2) [symmetric] nth_append)
  then show ?thesis
    using list_all2_nthD2 [OF assms(1,3)] by (simp del: nth_Cons_Suc)
qed

lemma pieces_nth: "j < length (chunks data) \<Longrightarrow> pieces data ! j = Chunk (chunks data ! j)"
  "pieces data ! length (chunks data) = End"
  by (simp_all add: pieces_def nth_append)

lemma sent_length: "sent @ todo = Config # pieces data \<Longrightarrow> length sent \<le> length (chunks data) + 2"
  by (drule arg_cong [of _ _ length]) simp

section \<open>The two programs\<close>

lemma occurs_up:
  assumes "net_server n = Inl sb" "server_round (Datagram a (packet_bytes pad (up_flight n ! i))) sb = Ok (Inl (srv', buf'))"
    and "os_sent srv' = os_sent (fst sb) @ map (Pair a) pks" "net_down n \<le> length (down_packets a n)"
  shows "\<exists>n'. occurs snk a pad (Up i) n = Ok n' \<and> net_server n' = Inl (srv', buf') \<and> net_client n' = net_client n \<and>
    net_up n' = net_up n \<and> up_packets n' = up_packets n \<and> up_flight n' = up_flight n \<and>
    down_flight a n' = down_flight a n @ pks \<and> net_down n' \<le> length (down_packets a n')"
proof -
  let ?n = "n\<lparr>net_server := Inl (srv', buf')\<rparr>"
  have "down_packets a ?n = down_packets a n @ pks"
    using assms(1,3) by (cases sb) (simp add: down_packets_def sent_to_extend)
  then show ?thesis
    using assms by (intro exI [of _ ?n]) (simp add: up_flight_def up_packets_def down_flight_def)
qed

lemma occurs_down:
  assumes "net_client n = Inl cb" "client_loop snk [Received (packet_bytes pad (down_flight a n ! i))] cb = Ok r"
    and "os_sent (c_os (state_now r)) = os_sent (c_os (fst cb)) @ map (Pair ()) acks" "net_up n \<le> length (up_packets n)"
  shows "\<exists>n'. occurs snk a pad (Down i) n = Ok n' \<and> net_client n' = r \<and> net_server n' = net_server n \<and>
    net_down n' = net_down n \<and> down_packets a n' = down_packets a n \<and> down_flight a n' = down_flight a n \<and>
    up_flight n' = up_flight n @ acks \<and> net_up n' \<le> length (up_packets n')"
proof -
  let ?n = "n\<lparr>net_client := r\<rparr>"
  have "up_packets ?n = up_packets n @ acks"
    using assms(1,3) by (cases cb) (simp add: up_packets_def comp_def)
  then show ?thesis
    using assms by (intro exI [of _ ?n]) (simp add: up_flight_def down_packets_def down_flight_def)
qed

text \<open>A server that answers a request with the configuration, and then has the whole file to send.\<close>

definition opens :: "packet_cfg_ack \<Rightarrow> sockaddr6 \<Rightarrow> bytes \<Rightarrow> server \<times> bytes \<Rightarrow> packet \<Rightarrow> u32 \<Rightarrow> bool" where
  "opens cfg a data sb q seq \<longleftrightarrow> sent_seq q < seq \<and> (\<forall>pad. length pad = 2 \<longrightarrow> (\<exists>srv' p s' sbuf' pk.
     server_round (Datagram a (packet_bytes pad q)) sb = Ok (Inl (srv', sbuf')) \<and> 16 \<le> length sbuf' \<and>
     os_sent srv' = os_sent (fst sb) @ map (Pair a) [pk] \<and> sent_seq pk = 0 \<and> config_packet cfg pk \<and>
     s_seq s' = seq_after 0 [pk] \<and> s_ack s' = seq \<and> sends srv' p a s' (pieces data)))"

lemma seq_step_range: "0 < seq_step len" "unat (seq_step len) < 2 ^ 16"
proof -
  have "unat len < 2 ^ 16"
    using unsigned_less [of len] by simp
  moreover have "unat (ucast len :: u32) = unat len"
    by (simp add: unsigned_ucast_eq take_bit_nat_eq_self less_le_trans [OF unsigned_less])
  ultimately show "0 < seq_step len" "unat (seq_step len) < 2 ^ 16"
    by (simp_all add: seq_step_def word_less_nat_alt)
qed

lemma server_answers:
  assumes srv: "can_serve srv a name w data" "length name < 2 ^ 16 - 1" "0 \<notin> set name" "17 + length name \<le> length sbuf"
    and q: "\<forall>pad. packet_bytes pad q = syn_datagram pad h name" "hd_flags h = FLAG_SYN" "hd_seq h = 0"
      "hd_length h = of_nat (Suc (length name))" "sent_seq q = 0"
  shows "opens (server_cfg srv w) a data (srv, sbuf) q (seq_step (of_nat (Suc (length name))))"
  unfolding opens_def
proof (intro conjI allI impI)
  show "sent_seq q < seq_step (of_nat (Suc (length name)))"
    using q(5) seq_step_range(1) by simp
next
  fix pad :: bytes
  assume pad: "length pad = 2"
  obtain srv' p s' sbuf' pk where r: "server_round (Datagram a (syn_datagram pad h name)) (srv, sbuf) = Ok (Inl (srv', sbuf'))"
    "length sbuf' = length sbuf" "os_sent srv' = os_sent srv @ map (Pair a) [pk]" "sent_seq pk = 0"
    "config_packet (server_cfg srv w) pk" "s_seq s' = seq_after 0 [pk]" "s_ack s' = hd_seq h + seq_step (hd_length h)"
    "sends srv' p a s' (pieces data)"
    using server_opens [OF srv(1) pad q(4) srv(2,3) q(2) srv(4)] by blast
  then show "\<exists>srv' p s' sbuf' pk.
     server_round (Datagram a (packet_bytes pad q)) (srv, sbuf) = Ok (Inl (srv', sbuf')) \<and> 16 \<le> length sbuf' \<and>
     os_sent srv' = os_sent (fst (srv, sbuf)) @ map (Pair a) [pk] \<and> sent_seq pk = 0 \<and> config_packet (server_cfg srv w) pk \<and>
     s_seq s' = seq_after 0 [pk] \<and> s_ack s' = seq_step (of_nat (Suc (length name))) \<and> sends srv' p a s' (pieces data)"
    using q srv(4)
    by (intro exI [of _ srv'] exI [of _ p] exI [of _ s'] exI [of _ sbuf'] exI [of _ pk]) simp
qed

section \<open>What the device is given\<close>

context audio_sink
begin

lemma takes_end: "takes f bs c d \<Longrightarrow> device d' = device d \<Longrightarrow> takes f bs c d'"
  by (induction bs arbitrary: c) auto

lemma takes_unique: "takes f bs c d \<Longrightarrow> takes f bs c d' \<Longrightarrow> device d' = device d"
proof (induction bs arbitrary: c)
  case (Cons b bs)
  obtain e where e: "\<forall>rest. \<exists>x. play (raw_chunk f b rest) c = Ok (True, x) \<and> device x = device e" "takes f bs e d"
    using Cons.prems(1) by auto
  obtain e' where e': "\<forall>rest. \<exists>x. play (raw_chunk f b rest) c = Ok (True, x) \<and> device x = device e'" "takes f bs e' d'"
    using Cons.prems(2) by auto
  have "device e = device e'"
    using e(1) [THEN spec, of "[]"] e'(1) [THEN spec, of "[]"] by auto
  then show ?case
    using Cons.IH [OF e(2)] takes_device [OF e'(2)] by blast
qed simp

lemma takes_snoc:
  "takes f (bs @ [b]) c d \<Longrightarrow>
    \<exists>e. takes f bs c e \<and> (\<forall>rest. \<exists>x. play (raw_chunk f b rest) e = Ok (True, x) \<and> device x = device d)"
proof (induction bs arbitrary: c)
  case Nil
  then obtain e where e: "\<forall>rest. \<exists>x. play (raw_chunk f b rest) c = Ok (True, x) \<and> device x = device e" "device d = device e"
    by auto
  have "takes f [] c c"
    by simp
  with e show ?case
    by metis
next
  case (Cons b' bs)
  then obtain e where e: "\<forall>rest. \<exists>x. play (raw_chunk f b' rest) c = Ok (True, x) \<and> device x = device e" "takes f (bs @ [b]) e d"
    by auto
  obtain g where g: "takes f bs e g" "\<forall>rest. \<exists>x. play (raw_chunk f b rest) g = Ok (True, x) \<and> device x = device d"
    using Cons.IH [OF e(2)] by blast
  have "takes f (b' # bs) c g"
    using e(1) g(1) by auto
  with g(2) show ?case by blast
qed

text \<open>
  A sink that can be given any of the chunks in their order, and one that has been given some of them
  and can be given one that comes later.
\<close>

definition takes_any :: "packet_cfg_ack \<Rightarrow> bytes \<Rightarrow> 'a client_scheme \<Rightarrow> bool" where
  "takes_any cfg data d0 \<longleftrightarrow> (\<forall>bs. subseq bs (chunks data) \<longrightarrow> (\<exists>d. takes (format_chunk cfg) bs d0 d))"

lemma takes_next:
  assumes "takes_any cfg data d0" "takes (format_chunk cfg) bs d0 c" "subseq (bs @ [b]) (chunks data)"
  shows "\<exists>e. takes (format_chunk cfg) (bs @ [b]) d0 e \<and>
    (\<forall>rest. \<exists>x. play (raw_chunk (format_chunk cfg) b rest) c = Ok (True, x) \<and> device x = device e)"
proof -
  obtain d where d: "takes (format_chunk cfg) (bs @ [b]) d0 d"
    using assms(1,3) by (auto simp: takes_any_def)
  obtain e where e: "takes (format_chunk cfg) bs d0 e"
    "\<forall>rest. \<exists>x. play (raw_chunk (format_chunk cfg) b rest) e = Ok (True, x) \<and> device x = device d"
    using takes_snoc [OF d] by blast
  have "device c = device e"
    by (rule takes_unique [OF e(1) assms(2)])
  then have "\<exists>x. play (raw_chunk (format_chunk cfg) b rest) c = Ok (True, x) \<and> device x = device d" for rest
    using e(2) play_device by metis
  with d show ?thesis by blast
qed

text \<open>
  The client before its session is established, and behind the configuration: the next number that it
  accepts is that behind one of the packets sent, and the sink was given some of the chunks up to it.
\<close>

definition asks :: "packet_cfg_ack \<Rightarrow> 'a client_scheme \<Rightarrow> 'a client_scheme \<Rightarrow> 'a client_scheme \<Rightarrow> bool" where
  "asks cfg c0 d0 c \<longleftrightarrow> c_state c = STATE_SYN_SENT \<and> c_ack c = 0 \<and> os_send_error (c_os c) = (\<lambda>_. None) \<and>
     device c = device c0 \<and> (\<exists>e. play (format_chunk cfg) (create_logic snk c) = Ok (True, e) \<and> device e = device d0)"

definition listens :: "packet_cfg_ack \<Rightarrow> bytes \<Rightarrow> 'a client_scheme \<Rightarrow> packet list \<Rightarrow> 'a client_scheme \<Rightarrow> bool" where
  "listens cfg data d0 down c \<longleftrightarrow> established c \<and> chunk_with (c_chunk c) [] = chunk_with (format_chunk cfg) [] \<and>
     (\<exists>i bs. i < length down \<and> c_ack c = seq_after 0 (take (Suc i) down) \<and> subseq bs (take i (chunks data)) \<and>
        takes (format_chunk cfg) bs d0 c)"

definition given :: "packet_cfg_ack \<Rightarrow> bytes \<Rightarrow> 'a client_scheme \<Rightarrow> 'a client_scheme \<Rightarrow> 'a client_scheme \<Rightarrow> bool" where
  "given cfg data c0 d0 c \<longleftrightarrow> device c = device c0 \<or>
     (\<exists>bs. subseq bs (chunks data) \<and> takes (format_chunk cfg) bs d0 c)"

fun client_at :: "packet_cfg_ack \<Rightarrow> bytes \<Rightarrow> 'a client_scheme \<Rightarrow> 'a client_scheme \<Rightarrow> packet list \<Rightarrow>
    'a client_scheme \<times> bytes + i32 \<times> 'a client_scheme \<Rightarrow> bool" where
  "client_at cfg data c0 d0 down (Inl (c, buf)) \<longleftrightarrow>
     16 + 1024 \<le> length buf \<and> (asks cfg c0 d0 c \<or> listens cfg data d0 down c)"
| "client_at cfg data c0 d0 down (Inr (e, c)) \<longleftrightarrow> (e = 0 \<or> e = ETIMEDOUT) \<and> given cfg data c0 d0 c"

lemma subseq_take: "subseq bs (take i xs) \<Longrightarrow> subseq bs xs"
  using subseq_rev_drop_many [of bs "take i xs" "drop i xs"] by simp

lemma listens_given: "listens cfg data d0 down c \<Longrightarrow> given cfg data c0 d0 c"
  unfolding listens_def given_def using subseq_take by blast

lemma client_at_state: "client_at cfg data c0 d0 down (Inl (c, buf)) \<Longrightarrow> c_state c \<noteq> STATE_FINISHED"
  by (auto simp: asks_def listens_def established_def)

lemma client_at_given: "client_at cfg data c0 d0 down r \<Longrightarrow> given cfg data c0 d0 (state_now r)"
  by (cases r; cases "projl r"; cases "projr r") (auto simp: asks_def given_def dest: listens_given [unfolded given_def])

lemma client_at_more: "client_at cfg data c0 d0 down r \<Longrightarrow> client_at cfg data c0 d0 (down @ ps) r"
proof (cases r)
  case (Inl cb)
  assume "client_at cfg data c0 d0 down r"
  moreover have "listens cfg data d0 (down @ ps) c" if "listens cfg data d0 down c" for c
  proof -
    obtain i bs where i: "i < length down" "c_ack c = seq_after 0 (take (Suc i) down)" "subseq bs (take i (chunks data))"
      "takes (format_chunk cfg) bs d0 c"
      using \<open>listens cfg data d0 down c\<close> by (auto simp: listens_def)
    have "take (Suc i) (down @ ps) = take (Suc i) down"
      using i(1) by simp
    then show ?thesis
      using i that by (auto simp: listens_def intro!: exI [of _ i] exI [of _ bs])
  qed
  ultimately show ?thesis
    by (cases cb) (auto simp: Inl)
qed (metis client_at.simps(2) surj_pair)

text \<open>
  A packet arrives at the client: the configuration, an old packet, a chunk that comes behind all that
  were taken before, or the end.
\<close>

lemma asks_config:
  assumes c: "asks cfg c0 d0 c" "16 + 1024 \<le> length buf" and q: "config_packet cfg q" "sent_seq q = 0" "length pad = 2"
  shows "\<exists>c' buf' acks. client_loop snk [Received (packet_bytes pad q)] (c, buf) = Ok (Inl (c', buf')) \<and>
    length buf' = length buf \<and> established c' \<and> chunk_with (c_chunk c') [] = chunk_with (format_chunk cfg) [] \<and>
    takes (format_chunk cfg) [] d0 c' \<and> os_sent (c_os c') = os_sent (c_os c) @ map (Pair ()) acks \<and>
    numbered (c_seq c) acks \<and> list_all is_ack acks \<and> length acks = 3 \<and> c_seq c' = seq_after (c_seq c) acks \<and>
    c_ack c' = seq_after 0 [q]"
proof -
  have a: "c_state c = STATE_SYN_SENT" "os_send_error (c_os c) = (\<lambda>_. None)" "sent_seq q = c_ack c" "24 \<le> length buf"
    using c q(2) by (auto simp: asks_def)
  obtain e where e: "play (format_chunk cfg) (create_logic snk c) = Ok (True, e)" "device e = device d0"
    using c(1) by (auto simp: asks_def)
  obtain c' buf' acks where r: "client_loop snk [Received (packet_bytes pad q)] (c, buf) = Ok (Inl (c', buf'))"
    "length buf' = length buf" "established c'" "chunk_with (c_chunk c') [] = chunk_with (format_chunk cfg) []"
    "device c' = device e" "os_sent (c_os c') = os_sent (c_os c) @ map (Pair ()) acks" "numbered (c_seq c) acks"
    "list_all is_ack acks" "length acks = 3" "c_seq c' = seq_after (c_seq c) acks" "c_ack c' = seq_after (c_ack c) [q]"
    using client_takes_config [OF a(1,2,4) q(1) a(3) q(3) e(1)] by blast
  then show ?thesis
    using e(2) q(2) a(3) by (intro exI [of _ c'] exI [of _ buf'] exI [of _ acks]) simp
qed

lemma listens_chunk:
  assumes c: "established c" "chunk_with (c_chunk c) [] = chunk_with (format_chunk cfg) []" "16 + 1024 \<le> length buf"
      "takes (format_chunk cfg) bs d0 c"
    and q: "is_piece cfg (Chunk b) q" "\<not> sent_seq q < c_ack c" "length pad = 2"
    and sink: "takes_any cfg data d0" "subseq (bs @ [b]) (chunks data)"
  shows "\<exists>c' buf' acks. client_loop snk [Received (packet_bytes pad q)] (c, buf) = Ok (Inl (c', buf')) \<and>
    length buf' = length buf \<and> established c' \<and> chunk_with (c_chunk c') [] = chunk_with (format_chunk cfg) [] \<and>
    takes (format_chunk cfg) (bs @ [b]) d0 c' \<and> os_sent (c_os c') = os_sent (c_os c) @ map (Pair ()) acks \<and>
    numbered (c_seq c) acks \<and> list_all is_ack acks \<and> length acks = 2 \<and> c_seq c' = seq_after (c_seq c) acks \<and>
    c_ack c' = seq_after (sent_seq q) [q]"
proof -
  obtain e where e: "takes (format_chunk cfg) (bs @ [b]) d0 e"
    "\<And>rest. \<exists>x. play (raw_chunk (format_chunk cfg) b rest) c = Ok (True, x) \<and> device x = device e"
    using takes_next [OF sink(1) c(4) sink(2)] by blast
  from client_takes_chunk [OF c(1,3) q c(2) e(2)] takes_end [OF e(1)] show ?thesis
    by blast
qed

definition moves_on :: "packet_cfg_ack \<Rightarrow> bytes \<Rightarrow> 'a client_scheme \<Rightarrow> 'a client_scheme \<Rightarrow> packet list \<Rightarrow> bytes \<Rightarrow>
    'a client_scheme \<times> bytes \<Rightarrow> bool" where
  "moves_on cfg data c0 d0 down dgram cb \<longleftrightarrow> (\<exists>r acks. client_loop snk [Received dgram] cb = Ok r \<and>
     client_at cfg data c0 d0 down r \<and> os_sent (c_os (state_now r)) = os_sent (c_os (fst cb)) @ map (Pair ()) acks \<and>
     list_all is_ack acks \<and> (isl r \<longrightarrow> c_state (state_now r) \<noteq> STATE_SYN_SENT))"

lemma moves_onI:
  assumes "client_loop snk [Received dgram] (c, buf) = Ok (Inl (c', buf'))" "length buf' = length buf" "16 + 1024 \<le> length buf"
    and "listens cfg data d0 down c'" "os_sent (c_os c') = os_sent (c_os c) @ map (Pair ()) acks" "list_all is_ack acks"
  shows "moves_on cfg data c0 d0 down dgram (c, buf)"
  using assms unfolding moves_on_def
  by (intro exI [of _ "Inl (c', buf')"] exI [of _ acks]) (simp add: listens_def established_def)

lemma listens_later:
  assumes at: "established c" "chunk_with (c_chunk c) [] = chunk_with (format_chunk cfg) []" "16 + 1024 \<le> length buf"
      "takes (format_chunk cfg) bs d0 c" "subseq bs (take j (chunks data))"
    and down: "Suc j < length down" "is_piece cfg (pieces data ! j) (down ! Suc j)" "j < length (pieces data)"
      "seq_after (sent_seq (down ! Suc j)) [down ! Suc j] = seq_after 0 (take (Suc (Suc j)) down)"
    and new: "\<not> sent_seq (down ! Suc j) < c_ack c" and sink: "takes_any cfg data d0" and pad: "length pad = 2"
  shows "moves_on cfg data c0 d0 down (packet_bytes pad (down ! Suc j)) (c, buf)"
proof -
  let ?q = "down ! Suc j"
  consider "j < length (chunks data)" | "j = length (chunks data)"
    using down(3) by fastforce
  then show ?thesis
  proof cases
    case 1
    let ?b = "chunks data ! j"
    have chunk: "is_piece cfg (Chunk ?b) ?q"
      using down(2) by (simp only: pieces_nth(1) [OF 1])
    have bs: "subseq (bs @ [?b]) (take (Suc j) (chunks data))"
      using at(5) 1 by (simp add: take_Suc_conv_app_nth)
    obtain c' buf' acks where r: "client_loop snk [Received (packet_bytes pad ?q)] (c, buf) = Ok (Inl (c', buf'))"
      "length buf' = length buf" "established c'" "chunk_with (c_chunk c') [] = chunk_with (format_chunk cfg) []"
      "takes (format_chunk cfg) (bs @ [?b]) d0 c'" "os_sent (c_os c') = os_sent (c_os c) @ map (Pair ()) acks"
      "list_all is_ack acks" "c_ack c' = seq_after (sent_seq ?q) [?q]"
      using listens_chunk [OF at(1-4) chunk new pad sink subseq_take [OF bs]] by blast
    have "listens cfg data d0 down c'"
      using r(3-5,8) down(1,4) bs unfolding listens_def
      by (intro conjI exI [of _ "Suc j"] exI [of _ "bs @ [?b]"]) simp_all
    from moves_onI [OF r(1,2) at(3) this r(6,7)] show ?thesis .
  next
    case 2
    then have "fin_packet ?q" "c_state c \<noteq> STATE_FINISHED" "16 \<le> length buf"
      using down(2) at(1,3) by (simp_all add: pieces_nth(2) established_def)
    from client_loop_fin [OF this(1) new this(3) pad this(2), of snk "[]"]
    obtain c' where r: "client_loop snk [Received (packet_bytes pad ?q)] (c, buf) = Ok (Inr (0, c'))" "c_os c' = c_os c"
      "device c' = device c"
      by auto
    then have "given cfg data c0 d0 c'"
      using takes_end [OF at(4)] subseq_take [OF at(5)] by (auto simp: given_def)
    with r show ?thesis
      unfolding moves_on_def by (intro exI [of _ "Inr (0, c')"] exI [of _ "[]"]) simp
  qed
qed

lemma asks_moves_on:
  assumes at: "asks cfg c0 d0 c" "16 + 1024 \<le> length buf"
    and q: "config_packet cfg q" "sent_seq q = 0" "length pad = 2"
  shows "moves_on cfg data c0 d0 [q] (packet_bytes pad q) (c, buf)"
proof -
  from asks_config [OF at q]
  obtain c' buf' acks where r: "client_loop snk [Received (packet_bytes pad q)] (c, buf) = Ok (Inl (c', buf'))"
    "length buf' = length buf" "established c'" "chunk_with (c_chunk c') [] = chunk_with (format_chunk cfg) []"
    "takes (format_chunk cfg) [] d0 c'" "os_sent (c_os c') = os_sent (c_os c) @ map (Pair ()) acks"
    "list_all is_ack acks" "c_ack c' = seq_after 0 [q]"
    by blast
  have "listens cfg data d0 [q] c'"
    using r(3-5,8) unfolding listens_def by (intro conjI exI [of _ 0] exI [of _ "[]"]) simp_all
  from moves_onI [OF r(1,2) at(2) this r(6,7)] show ?thesis .
qed

lemma client_steps:
  assumes at: "client_at cfg data c0 d0 down (Inl (c, buf))" and i: "i < length down"
    and sent: "list_all2 (is_piece cfg) sent down" "sent @ todo = Config # pieces data" "numbered 0 down"
    and asking: "c_state c = STATE_SYN_SENT \<Longrightarrow> length down = 1"
    and sink: "takes_any cfg data d0" and size: "length data + 9 < 2 ^ 32" and pad: "length pad = 2"
  shows "moves_on cfg data c0 d0 down (packet_bytes pad (down ! i)) (c, buf)"
proof -
  let ?q = "down ! i"
  have len: "16 + 1024 \<le> length buf"
    using at by simp
  have piece: "is_piece cfg ((Config # pieces data) ! i) ?q"
    by (rule piece_at [OF sent(1,2) i])
  have ok: "list_all packet_ok down" "span down < 2 ^ 32"
    using span_sent [OF sent(1,2)] size by simp_all
  have seq: "sent_seq ?q = seq_after 0 (take i down)" "seq_after (sent_seq ?q) [?q] = seq_after 0 (take (Suc i) down)"
    using numbered_nth [OF sent(3) i] i by (simp_all add: take_Suc_conv_app_nth)
  show ?thesis
  proof (cases "c_state c = STATE_SYN_SENT")
    case True
    then have "asks cfg c0 d0 c" "down = [?q]" "i = 0"
      using asking i at by (cases down; auto simp: listens_def established_def)+
    with asks_moves_on [OF this(1) len _ _ pad, of ?q] piece seq(1) show ?thesis
      by simp
  next
    case False
    then have at2: "listens cfg data d0 down c"
      using at by (auto simp: asks_def)
    then obtain k bs where c: "established c" "chunk_with (c_chunk c) [] = chunk_with (format_chunk cfg) []" "k < length down"
      "c_ack c = seq_after 0 (take (Suc k) down)" "subseq bs (take k (chunks data))" "takes (format_chunk cfg) bs d0 c"
      by (auto simp: listens_def)
    have old: "sent_seq ?q < c_ack c \<longleftrightarrow> i \<le> k"
      using numbered_order [OF sent(3) ok i, of "Suc k"] c(3,4) by (simp add: less_Suc_eq_le)
    show ?thesis
    proof (cases "i \<le> k")
      case True
      have "c_state c \<noteq> STATE_FINISHED" "packet_ok ?q"
        using c(1) ok(1) i by (simp_all add: established_def list_all_length)
      with client_ignores [OF this(1) len this(2) _ pad] old True
      obtain buf' where "client_loop snk [Received (packet_bytes pad ?q)] (c, buf) = Ok (Inl (c, buf'))" "length buf' = length buf"
        by blast
      from moves_onI [OF this len at2, of "[]"] show ?thesis
        by simp
    next
      case False
      then obtain j where j: "i = Suc j" "k \<le> j"
        by (cases i) auto
      have bs: "subseq bs (take j (chunks data))"
        using c(5) j(2) subseq_take [of bs k "take j (chunks data)"] by (simp add: min_absorb1)
      have "j < length (pieces data)" "is_piece cfg (pieces data ! j) (down ! Suc j)" "\<not> sent_seq (down ! Suc j) < c_ack c"
        using sent_length [OF sent(2)] list_all2_lengthD [OF sent(1)] i piece old False by (simp_all add: j(1))
      from listens_later [OF c(1,2) len c(6) bs i [unfolded j(1)] this(2,1) seq(2) [unfolded j(1)] this(3) sink pad]
      show ?thesis
        by (simp only: j(1))
    qed
  qed
qed

text \<open>
  The invariant once the server has a session for the client. As long as the client has not been given the
  configuration, only its request is on the way, which the server has had.
\<close>

definition unheard :: "sockaddr6 \<Rightarrow> session \<Rightarrow> 'a client_scheme network \<Rightarrow> bool" where
  "unheard a s n \<longleftrightarrow> length (down_flight a n) = 1 \<and> list_all (\<lambda>q. sent_seq q < s_ack s) (up_flight n)"

definition serves :: "packet_cfg_ack \<Rightarrow> sockaddr6 \<Rightarrow> bytes \<Rightarrow> packet list \<Rightarrow> session \<Rightarrow>
    server \<times> bytes + i32 \<times> server \<Rightarrow> bool" where
  "serves cfg a data down s r \<longleftrightarrow> numbered 0 down \<and> s_seq s = seq_after 0 down \<and>
     (\<exists>srv sbuf p sent todo. r = Inl (srv, sbuf) \<and> 16 \<le> length sbuf \<and> sends srv p a s todo \<and>
        sent @ todo = Config # pieces data \<and> list_all2 (is_piece cfg) sent down)"

definition conversation :: "packet_cfg_ack \<Rightarrow> sockaddr6 \<Rightarrow> bytes \<Rightarrow> 'a client_scheme \<Rightarrow> 'a client_scheme \<Rightarrow>
    'a client_scheme network \<Rightarrow> bool" where
  "conversation cfg a data c0 d0 n \<longleftrightarrow> net_up n \<le> length (up_packets n) \<and> net_down n \<le> length (down_packets a n) \<and>
     client_at cfg data c0 d0 (down_flight a n) (net_client n) \<and>
     list_all (\<lambda>q. \<not> flag_isset (sent_flags q) FLAG_RST) (up_flight n) \<and>
     (\<exists>s. serves cfg a data (down_flight a n) s (net_server n) \<and>
        (isl (net_client n) \<longrightarrow> c_state (state_now (net_client n)) = STATE_SYN_SENT \<longrightarrow> unheard a s n))"

lemma conversation_up:
  assumes conv: "conversation cfg a data c0 d0 n" and a: "addr_ok a" and i: "i < length (up_flight n)" and pad: "length pad = 2"
  shows "\<exists>n'. occurs snk a pad (Up i) n = Ok n' \<and> conversation cfg a data c0 d0 n'"
proof -
  obtain srv sbuf p s sent todo where s: "net_server n = Inl (srv, sbuf)" "16 \<le> length sbuf" "sends srv p a s todo"
    "sent @ todo = Config # pieces data" "list_all2 (is_piece cfg) sent (down_flight a n)"
    "s_seq s = seq_after 0 (down_flight a n)"
    "isl (net_client n) \<longrightarrow> c_state (state_now (net_client n)) = STATE_SYN_SENT \<longrightarrow> unheard a s n"
    and le: "net_up n \<le> length (up_packets n)" "net_down n \<le> length (down_packets a n)"
    and c: "client_at cfg data c0 d0 (down_flight a n) (net_client n)"
    and f: "list_all (\<lambda>q. \<not> flag_isset (sent_flags q) FLAG_RST) (up_flight n)" "numbered 0 (down_flight a n)"
    using conv by (auto simp: conversation_def serves_def)
  let ?q = "up_flight n ! i"
  obtain srv' s' sbuf' pks gone where r: "server_round (Datagram a (packet_bytes pad ?q)) (srv, sbuf) = Ok (Inl (srv', sbuf'))"
    "length sbuf' = length sbuf" "os_sent srv' = os_sent srv @ map (Pair a) pks" "list_all2 (is_piece cfg) gone pks"
    "numbered (s_seq s) pks" "s_seq s' = seq_after (s_seq s) pks" "sends srv' p a s' (drop (length gone) todo)"
    "gone @ drop (length gone) todo = todo" "sent_seq ?q < s_ack s \<Longrightarrow> pks = [] \<and> s_ack s' = s_ack s"
  proof (cases "sent_seq ?q < s_ack s")
    case True
    from server_ignores [OF s(3) a s(2) True pad] that [where pks = "[]" and gone = "[]"] show ?thesis
      by fastforce
  next
    case False
    have "\<not> flag_isset (sent_flags ?q) FLAG_RST"
      using f(1) i by (simp add: list_all_length)
    from server_hears [OF s(3) a s(2) this False pad, of cfg] that [where gone = "take 1 todo"] False show ?thesis
      by (cases todo) fastforce+
  qed
  have up: "\<exists>n'. occurs snk a pad (Up i) n = Ok n' \<and> net_server n' = Inl (srv', sbuf') \<and> net_client n' = net_client n \<and>
    net_up n' = net_up n \<and> up_packets n' = up_packets n \<and> up_flight n' = up_flight n \<and>
    down_flight a n' = down_flight a n @ pks \<and> net_down n' \<le> length (down_packets a n')"
    using occurs_up [OF s(1) r(1) _ le(2), of pks] r(3) by simp
  then obtain n' where n': "occurs snk a pad (Up i) n = Ok n'" "net_server n' = Inl (srv', sbuf')"
    "net_client n' = net_client n" "net_up n' = net_up n" "up_packets n' = up_packets n" "up_flight n' = up_flight n"
    "down_flight a n' = down_flight a n @ pks" "net_down n' \<le> length (down_packets a n')"
    by blast
  have "unheard a s' n'" if "unheard a s n"
    using that r(9) i n'(6,7) by (auto simp: unheard_def list_all_length)
  moreover have "(sent @ gone) @ drop (length gone) todo = Config # pieces data"
    using r(8) s(4) by simp
  ultimately have "conversation cfg a data c0 d0 n'"
    using n'(2-8) r(2,4-7) s(2,5-7) f le c client_at_more list_all2_appendI [OF s(5) r(4)]
    unfolding conversation_def serves_def
    by (intro conjI exI [of _ s'] exI [of _ srv'] exI [of _ sbuf'] exI [of _ p] exI [of _ "sent @ gone"]
        exI [of _ "drop (length gone) todo"]) simp_all
  with n'(1) show ?thesis by blast
qed

lemma conversation_down:
  assumes conv: "conversation cfg a data c0 d0 n" and c: "net_client n = Inl (c, buf)" and i: "i < length (down_flight a n)"
    and sink: "takes_any cfg data d0" and size: "length data + 9 < 2 ^ 32" and pad: "length pad = 2"
  shows "\<exists>n'. occurs snk a pad (Down i) n = Ok n' \<and> conversation cfg a data c0 d0 n'"
proof -
  obtain srv sbuf p s sent todo where s: "net_server n = Inl (srv, sbuf)" "16 \<le> length sbuf" "sends srv p a s todo"
    "sent @ todo = Config # pieces data" "list_all2 (is_piece cfg) sent (down_flight a n)"
    "s_seq s = seq_after 0 (down_flight a n)" "c_state c = STATE_SYN_SENT \<Longrightarrow> unheard a s n"
    and le: "net_up n \<le> length (up_packets n)" "net_down n \<le> length (down_packets a n)"
    and at: "client_at cfg data c0 d0 (down_flight a n) (Inl (c, buf))"
    and f: "list_all (\<lambda>q. \<not> flag_isset (sent_flags q) FLAG_RST) (up_flight n)" "numbered 0 (down_flight a n)"
    using conv c by (auto simp: conversation_def serves_def simp del: client_at.simps)
  have "moves_on cfg data c0 d0 (down_flight a n) (packet_bytes pad (down_flight a n ! i)) (c, buf)"
    by (rule client_steps [OF at i s(5,4) f(2) _ sink size pad]) (use s(7) in \<open>simp add: unheard_def\<close>)
  then obtain r acks where r: "client_loop snk [Received (packet_bytes pad (down_flight a n ! i))] (c, buf) = Ok r"
    "client_at cfg data c0 d0 (down_flight a n) r" "os_sent (c_os (state_now r)) = os_sent (c_os c) @ map (Pair ()) acks"
    "list_all is_ack acks" "isl r \<longrightarrow> c_state (state_now r) \<noteq> STATE_SYN_SENT"
    by (auto simp: moves_on_def)
  obtain n' where n': "occurs snk a pad (Down i) n = Ok n'" "net_client n' = r" "net_server n' = net_server n"
    "net_down n' = net_down n" "down_packets a n' = down_packets a n" "down_flight a n' = down_flight a n"
    "up_flight n' = up_flight n @ acks" "net_up n' \<le> length (up_packets n')"
    using occurs_down [OF c r(1) _ le(1), of acks] r(3) by auto
  have "list_all (\<lambda>q. \<not> flag_isset (sent_flags q) FLAG_RST) acks"
    using r(4) by (auto simp: list_all_iff is_ack_def flag_isset_def FLAG_ACK_def FLAG_RST_def)
  then have "conversation cfg a data c0 d0 n'"
    using n'(2-8) r(2,5) s(1-6) f le
    unfolding conversation_def serves_def
    by (intro conjI exI [of _ s] exI [of _ srv] exI [of _ sbuf] exI [of _ p] exI [of _ sent] exI [of _ todo]) simp_all
  with n'(1) show ?thesis by blast
qed

lemma client_gives_up:
  assumes "client_at cfg data c0 d0 down (net_client n)" "isl (net_client n)"
  shows "\<exists>c n'. occurs snk a pad Give_Up n = Ok n' \<and> net_client n' = Inr (ETIMEDOUT, c) \<and>
    client_at cfg data c0 d0 down (Inr (ETIMEDOUT, c)) \<and> net_server n' = net_server n \<and>
    net_up n' = net_up n \<and> up_packets n' = up_packets n \<and> up_flight n' = up_flight n \<and>
    net_down n' = net_down n \<and> down_packets a n' = down_packets a n \<and> down_flight a n' = down_flight a n"
proof -
  obtain c buf where c: "net_client n = Inl (c, buf)"
    using assms(2) by (cases "net_client n") auto
  have "given cfg data c0 d0 c" "c_state c \<noteq> STATE_FINISHED"
    using client_at_given [OF assms(1)] client_at_state assms(1) by (simp_all add: c del: client_at.simps)
  then show ?thesis
    using c by (intro exI [of _ c] exI [of _ "n\<lparr>net_client := Inr (ETIMEDOUT, c)\<rparr>"])
      (simp add: up_flight_def up_packets_def down_flight_def down_packets_def)
qed

lemma conversation_step:
  assumes conv: "conversation cfg a data c0 d0 n" and h: "possible a h n" and a: "addr_ok a"
    and sink: "takes_any cfg data d0" and size: "length data + 9 < 2 ^ 32" and pad: "length pad = 2"
  shows "\<exists>n'. occurs snk a pad h n = Ok n' \<and> conversation cfg a data c0 d0 n'"
proof (cases h)
  case (Up i)
  then show ?thesis
    using conversation_up [OF conv a _ pad] h by auto
next
  case (Down i)
  then obtain c buf where "net_client n = Inl (c, buf)" "i < length (down_flight a n)"
    using h by (cases "net_client n") auto
  from conversation_down [OF conv this sink size pad] Down show ?thesis
    by blast
next
  case Give_Up
  have "client_at cfg data c0 d0 (down_flight a n) (net_client n)" "isl (net_client n)"
    using conv h Give_Up by (simp_all add: conversation_def)
  from client_gives_up [OF this, of a pad] Give_Up conv show ?thesis
    unfolding conversation_def by (metis sum.disc(2))
qed

text \<open>Before that, when only the request was sent, which may arrive or not.\<close>

definition request_sent :: "packet_cfg_ack \<Rightarrow> sockaddr6 \<Rightarrow> bytes \<Rightarrow> 'a client_scheme \<Rightarrow> 'a client_scheme \<Rightarrow>
    server \<times> bytes \<Rightarrow> packet \<Rightarrow> 'a client_scheme network \<Rightarrow> bool" where
  "request_sent cfg a data c0 d0 sb q n \<longleftrightarrow> net_up n \<le> length (up_packets n) \<and> net_down n \<le> length (down_packets a n) \<and>
     net_server n = Inl sb \<and> up_flight n = [q] \<and> down_flight a n = [] \<and> client_at cfg data c0 d0 [] (net_client n)"

lemma request_step:
  assumes req: "request_sent cfg a data c0 d0 sb q n" and h: "possible a h n" and pad: "length pad = 2"
    and opens: "opens cfg a data sb q seq" and q: "\<not> flag_isset (sent_flags q) FLAG_RST"
  shows "\<exists>n'. occurs snk a pad h n = Ok n' \<and> (request_sent cfg a data c0 d0 sb q n' \<or> conversation cfg a data c0 d0 n')"
proof -
  have n: "net_up n \<le> length (up_packets n)" "net_down n \<le> length (down_packets a n)" "net_server n = Inl sb"
    "up_flight n = [q]" "down_flight a n = []" "client_at cfg data c0 d0 [] (net_client n)"
    using req by (simp_all add: request_sent_def)
  show ?thesis
  proof (cases h)
    case (Up i)
    then have i: "up_flight n ! i = q"
      using h n(4) by simp
    obtain srv' p s' sbuf' pk where r: "server_round (Datagram a (packet_bytes pad q)) sb = Ok (Inl (srv', sbuf'))"
      "16 \<le> length sbuf'" "os_sent srv' = os_sent (fst sb) @ map (Pair a) [pk]" "sent_seq pk = 0" "config_packet cfg pk"
      "s_seq s' = seq_after 0 [pk]" "sent_seq q < s_ack s'" "sends srv' p a s' (pieces data)"
      using opens pad unfolding opens_def by blast
    obtain n' where n': "occurs snk a pad (Up i) n = Ok n'" "net_server n' = Inl (srv', sbuf')"
      "net_client n' = net_client n" "net_up n' = net_up n" "up_packets n' = up_packets n" "up_flight n' = up_flight n"
      "down_flight a n' = [pk]" "net_down n' \<le> length (down_packets a n')"
      using occurs_up [OF n(3) r(1) [folded i] r(3) n(2), of snk] n(5) by auto
    have "conversation cfg a data c0 d0 n'"
      using n'(2-8) n(1,4) q r(2,4-8) client_at_more [OF n(6), of "[pk]"] unfolding conversation_def serves_def
      by (intro conjI exI [of _ s'] exI [of _ srv'] exI [of _ sbuf'] exI [of _ p] exI [of _ "[Config]"]
          exI [of _ "pieces data"]) (simp_all add: unheard_def)
    with n'(1) Up show ?thesis by blast
  next
    case (Down i)
    then show ?thesis
      using h n(5) by simp
  next
    case Give_Up
    then have "isl (net_client n)"
      using h by simp
    from client_gives_up [OF n(6) this, of a pad] Give_Up n show ?thesis
      unfolding request_sent_def by metis
  qed
qed

text \<open>The start, and all that can be reached from it.\<close>

lemma request_starts:
  assumes srv: "can_serve srv a name w data" "length name < 2 ^ 15 - 1" "0 \<notin> set name" "17 + length name \<le> length sbuf"
    and c: "os_send_error (c_os c) = (\<lambda>_. None)" "c_seq c = 0" "c_ack c = 0" "16 + 1024 \<le> length buf"
    and play: "play (format_chunk (server_cfg srv w)) (create_logic snk c) = Ok (True, d0)"
    and start: "net_start a name (c, buf) (srv, sbuf) = Ok n0"
  shows "\<exists>q. request_sent (server_cfg srv w) a data c d0 (srv, sbuf) q n0 \<and> opens (server_cfg srv w) a data (srv, sbuf) q (c_seq (state_now (net_client n0))) \<and>
    \<not> flag_isset (sent_flags q) FLAG_RST \<and> unat (c_seq (state_now (net_client n0))) < 2 ^ 16"
proof -
  let ?cfg = "server_cfg srv w"
  obtain c1 q h where syn: "sas_client_session_syn c name = Ok (0, c1)" "c_state c1 = STATE_SYN_SENT"
    "os_sent (c_os c1) = os_sent (c_os c) @ [((), q)]" "\<forall>pad. packet_bytes pad q = syn_datagram pad h name"
    "hd_flags h = FLAG_SYN" "hd_seq h = c_seq c" "hd_length h = of_nat (Suc (length name))" "pk_header q = header_encode h"
    "c_ack c1 = c_ack c" "os_send_error (c_os c1) = (\<lambda>_. None)" "device c1 = device c"
    "c_seq c1 = c_seq c + seq_step (of_nat (Suc (length name)))"
    using client_syn [OF c(1) srv(2)] by blast
  have n0: "n0 = \<lparr>net_server = Inl (srv, sbuf), net_client = Inl (c1, buf), net_up = length (os_sent (c_os c)),
      net_down = length (sent_to a srv)\<rparr>"
    using start syn(1) by (simp add: net_start_def)
  obtain e where "play (format_chunk ?cfg) (create_logic snk c1) = Ok (True, e)" "device e = device d0"
    using play_device [OF play create_device [OF syn(11)]] by blast
  then have "request_sent ?cfg a data c d0 (srv, sbuf) q n0"
    using syn(2,3,9-11) c(3,4)
    by (auto simp: n0 request_sent_def up_flight_def up_packets_def down_flight_def down_packets_def asks_def)
  moreover have "sent_flags q = FLAG_SYN" "sent_seq q = 0"
    using syn(5,6,8) c(2) by (simp_all add: sent_flags_def sent_seq_def)
  moreover have "\<not> flag_isset FLAG_SYN FLAG_RST"
    by (simp add: flag_isset_def FLAG_SYN_def FLAG_RST_def)
  moreover have "opens ?cfg a data (srv, sbuf) q (seq_step (of_nat (Suc (length name))))"
    using srv(2) syn(6) c(2) calculation(3)
    by (intro server_answers [OF srv(1) _ srv(3,4) syn(4,5) _ syn(7)]) simp_all
  moreover have "c_seq (state_now (net_client n0)) = seq_step (of_nat (Suc (length name)))"
    using syn(12) c(2) by (simp add: n0)
  moreover have "unat (seq_step (of_nat (Suc (length name)))) < 2 ^ 16"
    by (rule seq_step_range(2))
  ultimately show ?thesis
    by (intro exI [of _ q]) (simp del: of_nat_Suc)
qed

lemma udp_reaches:
  assumes run: "udp_run snk a lost n0 n" and req: "request_sent cfg a data c0 d0 sb q n0" and opens: "opens cfg a data sb q seq"
    and q: "\<not> flag_isset (sent_flags q) FLAG_RST" and a: "addr_ok a"
    and sink: "takes_any cfg data d0" and size: "length data + 9 < 2 ^ 32"
  shows "request_sent cfg a data c0 d0 sb q n \<or> conversation cfg a data c0 d0 n"
  using run
proof induction
  case start
  show ?case
    using req by simp
next
  case (step n h pad n')
  then show ?case
    using request_step [OF _ step.hyps(2,4) opens q] conversation_step [OF _ step.hyps(2) a sink size step.hyps(4)]
    by (metis res.inject(1))
qed

lemma udp_safe:
  assumes srv: "can_serve srv a name w data" "length name < 2 ^ 15 - 1" "0 \<notin> set name" "17 + length name \<le> length sbuf"
    and c: "os_send_error (c_os c) = (\<lambda>_. None)" "c_seq c = 0" "c_ack c = 0" "16 + 1024 \<le> length buf"
    and play: "play (format_chunk (server_cfg srv w)) (create_logic snk c) = Ok (True, d0)"
    and sink: "takes_any (server_cfg srv w) data d0" and size: "length data + 9 < 2 ^ 32"
    and start: "net_start a name (c, buf) (srv, sbuf) = Ok n0" and run: "udp_run snk a lost n0 n"
  shows "length pad = 2 \<Longrightarrow> possible a h n \<Longrightarrow> \<exists>n'. occurs snk a pad h n = Ok n'"
    and "given (server_cfg srv w) data c d0 (state_now (net_client n))"
    and "net_client n = Inr (e, c') \<Longrightarrow> e = 0 \<or> e = ETIMEDOUT"
    and "isl (net_server n)"
proof -
  let ?cfg = "server_cfg srv w"
  obtain q where q: "request_sent ?cfg a data c d0 (srv, sbuf) q n0" "opens ?cfg a data (srv, sbuf) q (c_seq (state_now (net_client n0)))"
    "\<not> flag_isset (sent_flags q) FLAG_RST"
    using request_starts [OF srv c play start] by blast
  have a: "addr_ok a"
    using srv(1) by (simp add: can_serve_def)
  have cases: "request_sent ?cfg a data c d0 (srv, sbuf) q n \<or> conversation ?cfg a data c d0 n"
    by (rule udp_reaches [OF run q a sink size])
  show "\<exists>n'. occurs snk a pad h n = Ok n'" if "length pad = 2" "possible a h n"
    using cases request_step [OF _ that(2,1) q(2,3)] conversation_step [OF _ that(2) a sink size that(1)] by blast
  have at: "client_at ?cfg data c d0 (down_flight a n) (net_client n)"
    using cases by (auto simp: request_sent_def conversation_def simp del: client_at.simps)
  show "given ?cfg data c d0 (state_now (net_client n))"
    by (rule client_at_given [OF at])
  show "e = 0 \<or> e = ETIMEDOUT" if "net_client n = Inr (e, c')"
    using at that by simp
  show "isl (net_server n)"
    using cases by (auto simp: request_sent_def conversation_def serves_def)
qed

end

section \<open>The sound device\<close>

lemma oss_takes_any:
  assumes "willing c" "no_short_chunk data"
  shows "\<exists>d0. oss_play (format_chunk cfg) (create_logic sas_drivers_oss c) = Ok (True, d0) \<and> oss.takes_any cfg data d0 \<and>
    (\<forall>bs d. subseq bs (chunks data) \<longrightarrow> oss.takes (format_chunk cfg) bs d0 d \<longrightarrow> oss_writes d = oss_writes c @ map trim bs)"
proof -
  let ?f = "format_chunk cfg"
  obtain d0 where d0: "oss_play ?f (create_logic sas_drivers_oss c) = Ok (True, d0)"
    using oss_stream [OF assms(1), of "[]"] by auto
  have some: "\<exists>d. oss.takes ?f bs d0 d \<and> oss_writes d = oss_writes c @ map trim bs" if bs: "subseq bs (chunks data)" for bs
  proof -
    have "list_all audible bs"
      using no_short_chunk_chunks [OF assms(2)] list_emb_set [OF bs] by (auto simp: list_all_iff)
    from oss_stream [OF assms(1) this, of ?f] show ?thesis
      using d0 by auto
  qed
  have "oss_writes d = oss_writes c @ map trim bs" if "subseq bs (chunks data)" "oss.takes ?f bs d0 d" for bs d
    using some [OF that(1)] oss.takes_unique [OF that(2)] by (auto simp: device_oss)
  moreover have "oss.takes_any cfg data d0"
    unfolding oss.takes_any_def using some by blast
  ultimately show ?thesis
    using d0 by blast
qed

end
