(* ===== verification/Lossy.thy ===== *)
theory Lossy
  imports Unreliable
begin

text \<open>
  Runs of the network of \<open>Unreliable\<close> in which packets are lost: what the server goes on to send, and
  what the client makes of it.
\<close>

section \<open>Acknowledgements on the way\<close>

text \<open>
  The last \<open>k\<close> of some packets are acknowledgements that the server waits for, numbered from \<open>ack\<close> up to the
  number \<open>seq\<close> of the client's next packet; the others are old.
\<close>

definition fresh :: "nat \<Rightarrow> u32 \<Rightarrow> u32 \<Rightarrow> packet list \<Rightarrow> bool" where
  "fresh k ack seq ps \<longleftrightarrow> unat ack + k = unat seq \<and> (\<exists>qs rs. ps = qs @ rs \<and> length rs = k \<and> numbered ack rs \<and>
     list_all is_ack rs \<and> seq_after ack rs = seq \<and> list_all (\<lambda>q. sent_seq q < ack) qs)"

lemma acks_after:
  assumes "list_all is_ack acks" "unat seq + length acks < 2 ^ 32"
  shows "unat (seq_after seq acks) = unat seq + length acks"
proof -
  have "span acks = length acks" "list_all packet_ok acks"
    using assms(1) by (induction acks) (simp_all add: is_ack_def)
  then show ?thesis
    using unat_seq_after [of acks seq] assms(2) by simp
qed

lemma fresh_next:
  assumes "fresh (Suc k) ack seq ps"
  shows "\<exists>i. i < length ps \<and> is_ack (ps ! i) \<and> sent_seq (ps ! i) = ack \<and> fresh k (seq_after ack [ps ! i]) seq ps"
proof -
  obtain qs q rs where p: "ps = qs @ q # rs" "length rs = k" "numbered ack (q # rs)" "list_all is_ack (q # rs)"
    "seq_after ack (q # rs) = seq" "list_all (\<lambda>q. sent_seq q < ack) qs" "unat ack + Suc k = unat seq"
    using assms by (auto simp: fresh_def length_Suc_conv)
  have "unat seq < 2 ^ 32"
    using unsigned_less [of seq] by simp
  then have step: "unat (seq_after ack [q]) = unat ack + 1"
    using acks_after [of "[q]" ack] p(4,7) by simp
  then have "list_all (\<lambda>q. sent_seq q < seq_after ack [q']) (qs @ [q])" if "q' = q" for q'
    using p(3,6) that by (auto simp: list_all_iff word_less_nat_alt simp del: seq_after.simps)
  then have "fresh k (seq_after ack [q]) seq ps"
    unfolding fresh_def using p step
    by (intro conjI exI [of _ "qs @ [q]"] exI [of _ rs]) simp_all
  with p show ?thesis
    by (intro exI [of _ "length qs"]) simp
qed

lemma fresh_more:
  assumes "fresh k ack seq ps" "numbered seq acks" "list_all is_ack acks" "unat seq + length acks < 2 ^ 32"
  shows "fresh (k + length acks) ack (seq_after seq acks) (ps @ acks)"
proof -
  obtain qs rs where "ps = qs @ rs" "length rs = k" "numbered ack rs" "list_all is_ack rs" "seq_after ack rs = seq"
    "list_all (\<lambda>q. sent_seq q < ack) qs" "unat ack + k = unat seq"
    using assms(1) by (auto simp: fresh_def)
  with assms(2,3) acks_after [OF assms(3,4)] show ?thesis
    unfolding fresh_def by (intro conjI exI [of _ qs] exI [of _ "rs @ acks"]) simp_all
qed

lemma fresh_none: "fresh 0 ack seq ps \<Longrightarrow> list_all (\<lambda>q. sent_seq q < ack) ps"
  by (auto simp: fresh_def)

text \<open>
  Which of the chunks arrive, the numbers of the packets with the other ones, and how many acknowledgements are left of
  \<open>k\<close> ones when the server has sent all: each chunk takes one, and one that arrives gives two.
\<close>

fun kept :: "bool list \<Rightarrow> 'b list \<Rightarrow> 'b list" where
  "kept (b # bs) (x # xs) = (if b then x # kept bs xs else kept bs xs)"
| "kept bs xs = []"

definition holes :: "bool list \<Rightarrow> nat set" where
  "holes ms = set (map Suc (filter (\<lambda>j. \<not> ms ! j) [0..<length ms]))"

fun credit :: "nat \<Rightarrow> bool list \<Rightarrow> nat option" where
  "credit k [] = Some k"
| "credit 0 (b # bs) = None"
| "credit (Suc k) (b # bs) = credit (if b then k + 2 else k) bs"

lemma in_holes: "m \<in> holes ms \<longleftrightarrow> (\<exists>j < length ms. m = Suc j \<and> \<not> ms ! j)"
  by (auto simp: holes_def)

lemma subseq_kept: "subseq (kept ms xs) xs"
  by (induction ms xs rule: kept.induct) auto

lemma credit_left: "length (filter Not ms) < k \<Longrightarrow> \<exists>k'. credit k ms = Some (Suc k')"
proof (induction ms arbitrary: k)
  case (Cons m ms)
  then show ?case
    by (cases k) (auto split: if_splits)
qed (auto simp: gr0_conv_Suc)

lemma length_chunks: "1024 * length (chunks data) \<le> length data + 1023"
proof (induction data rule: chunks.induct)
  case (1 data)
  show ?case
  proof (cases "length data < 1024")
    case True
    then show ?thesis
      by (cases "data = []") (simp_all add: Suc_le_eq)
  next
    case False
    then have "data \<noteq> []"
      by auto
    with 1 [OF this] False show ?thesis
      by simp
  qed
qed

section \<open>Streams with holes\<close>

context audio_sink
begin

text \<open>
  In the middle of a stream: \<open>j\<close> pieces were sent behind the configuration, the last packet that the client has taken is the
  \<open>i\<close>-th behind it, or the configuration for \<open>i = 0\<close>, the sink was given the chunks \<open>bs\<close>, and \<open>k\<close> acknowledgements have not arrived.
\<close>

definition hearing :: "packet_cfg_ack \<Rightarrow> 'a client_scheme \<Rightarrow> bytes list \<Rightarrow> nat \<Rightarrow> packet list \<Rightarrow> 'a client_scheme \<Rightarrow> bool" where
  "hearing cfg d0 bs i down c \<longleftrightarrow> established c \<and> chunk_with (c_chunk c) [] = chunk_with (format_chunk cfg) [] \<and>
     c_ack c = seq_after 0 (take (Suc i) down) \<and> takes (format_chunk cfg) bs d0 c"

definition between :: "packet_cfg_ack \<Rightarrow> sockaddr6 \<Rightarrow> bytes \<Rightarrow> 'a client_scheme \<Rightarrow> bytes list \<Rightarrow> nat \<Rightarrow> nat \<Rightarrow> nat \<Rightarrow>
    'a client_scheme network \<Rightarrow> bool" where
  "between cfg a data d0 bs i j k n \<longleftrightarrow> net_up n \<le> length (up_packets n) \<and> net_down n \<le> length (down_packets a n) \<and>
     list_all2 (is_piece cfg) (Config # take j (pieces data)) (down_flight a n) \<and> numbered 0 (down_flight a n) \<and>
     (\<exists>srv sbuf p s. net_server n = Inl (srv, sbuf) \<and> 16 \<le> length sbuf \<and>
        sends srv p a s (drop j (pieces data)) \<and> s_seq s = seq_after 0 (down_flight a n) \<and>
        fresh k (s_ack s) (c_seq (state_now (net_client n))) (up_flight n)) \<and>
     (\<exists>c buf. net_client n = Inl (c, buf) \<and> 16 + 1024 \<le> length buf \<and> hearing cfg d0 bs i (down_flight a n) c \<and>
        unat (c_seq c) \<le> 2 ^ 17 + 2 * length bs)"

lemma between_sends:
  assumes at: "between cfg a data d0 bs i j (Suc k) n" and a: "addr_ok a" and j: "j \<le> length (chunks data)" "i \<le> j"
  shows "\<exists>m n'. possible a (Up m) n \<and> occurs snk a [0, 0] (Up m) n = Ok n' \<and> between cfg a data d0 bs i (Suc j) k n'"
proof -
  obtain srv sbuf p s c buf where n: "net_server n = Inl (srv, sbuf)" "16 \<le> length sbuf"
    "sends srv p a s (drop j (pieces data))" "s_seq s = seq_after 0 (down_flight a n)"
    "fresh (Suc k) (s_ack s) (c_seq c) (up_flight n)"
    "net_client n = Inl (c, buf)" "16 + 1024 \<le> length buf" "hearing cfg d0 bs i (down_flight a n) c"
    "unat (c_seq c) \<le> 2 ^ 17 + 2 * length bs"
    and le: "net_up n \<le> length (up_packets n)" "net_down n \<le> length (down_packets a n)"
    and down: "list_all2 (is_piece cfg) (Config # take j (pieces data)) (down_flight a n)" "numbered 0 (down_flight a n)"
    using at by (auto simp: between_def)
  obtain m where m: "m < length (up_flight n)" "is_ack (up_flight n ! m)" "sent_seq (up_flight n ! m) = s_ack s"
    "fresh k (seq_after (s_ack s) [up_flight n ! m]) (c_seq c) (up_flight n)"
    using fresh_next [OF n(5)] by blast
  obtain srv' s' sbuf' pks where r: "server_round (Datagram a (packet_bytes [0, 0] (up_flight n ! m))) (srv, sbuf) = Ok (Inl (srv', sbuf'))"
    "length sbuf' = length sbuf" "os_sent srv' = os_sent srv @ map (Pair a) pks"
    "list_all2 (is_piece cfg) (take 1 (drop j (pieces data))) pks" "numbered (s_seq s) pks" "s_seq s' = seq_after (s_seq s) pks"
    "s_ack s' = seq_after (s_ack s) [up_flight n ! m]" "sends srv' p a s' (drop 1 (drop j (pieces data)))"
    using server_sends [OF n(3) a n(2) m(2,3)] by (metis length_Cons list.size(3) numeral_2_eq_2)
  obtain n' where n': "occurs snk a [0, 0] (Up m) n = Ok n'" "net_server n' = Inl (srv', sbuf')"
    "net_client n' = net_client n" "net_up n' = net_up n" "up_packets n' = up_packets n" "up_flight n' = up_flight n"
    "down_flight a n' = down_flight a n @ pks" "net_down n' \<le> length (down_packets a n')"
    using occurs_up [OF n(1) r(1) _ le(2), of pks snk] r(3) by auto
  have len: "length (down_flight a n) = Suc j"
    using list_all2_lengthD [OF down(1)] j(1) by simp
  have "take (Suc j) (pieces data) = take j (pieces data) @ take 1 (drop j (pieces data))"
    by (metis Suc_eq_plus1 take_add)
  then have "list_all2 (is_piece cfg) (Config # take (Suc j) (pieces data)) (down_flight a n @ pks)"
    using list_all2_appendI [OF down(1) r(4)] by simp
  moreover have "hearing cfg d0 bs i (down_flight a n @ pks) c"
    using n(8) len j(2) by (simp add: hearing_def)
  moreover have "\<exists>srv sbuf p s. net_server n' = Inl (srv, sbuf) \<and> 16 \<le> length sbuf \<and>
      sends srv p a s (drop (Suc j) (pieces data)) \<and> s_seq s = seq_after 0 (down_flight a n') \<and>
      fresh k (s_ack s) (c_seq (state_now (net_client n'))) (up_flight n')"
    using n'(2,3,6,7) r(2,6-8) n(2,4,6) m(4)
    by (intro exI [of _ srv'] exI [of _ sbuf'] exI [of _ p] exI [of _ s']) simp
  ultimately have "between cfg a data d0 bs i (Suc j) k n'"
    using n'(3-5,7,8) r(5) n(4,6,7,9) le down(2) by (simp add: between_def)
  then show ?thesis
    using n'(1) n(1) m(1) by (intro exI [of _ m] exI [of _ n']) simp
qed

lemma between_new:
  assumes at: "between cfg a data d0 bs i (Suc j) k n" and j: "j \<le> length (chunks data)" "i \<le> j"
    and size: "length data + 9 < 2 ^ 32" and c: "net_client n = Inl (c, buf)"
  shows "Suc j < length (down_flight a n)" "is_piece cfg (pieces data ! j) (down_flight a n ! Suc j)"
    "\<not> sent_seq (down_flight a n ! Suc j) < c_ack c"
    "seq_after (sent_seq (down_flight a n ! Suc j)) [down_flight a n ! Suc j] = seq_after 0 (take (Suc (Suc j)) (down_flight a n))"
proof -
  let ?down = "down_flight a n" and ?sent = "Config # take (Suc j) (pieces data)"
  have down: "list_all2 (is_piece cfg) ?sent ?down" "numbered 0 ?down" "c_ack c = seq_after 0 (take (Suc i) ?down)"
    using at c by (auto simp: between_def hearing_def)
  have sent: "?sent @ drop (Suc j) (pieces data) = Config # pieces data"
    by simp
  show len: "Suc j < length ?down"
    using list_all2_lengthD [OF down(1)] j(1) by simp
  show "is_piece cfg (pieces data ! j) (?down ! Suc j)"
    using piece_at [OF down(1) sent len] by simp
  have ok: "list_all packet_ok ?down" "span ?down < 2 ^ 32"
    using span_sent [OF down(1) sent] size by simp_all
  show "\<not> sent_seq (?down ! Suc j) < c_ack c"
    using numbered_order [OF down(2) ok len, of "Suc i"] len j(2) down(3) by simp
  show "seq_after (sent_seq (?down ! Suc j)) [?down ! Suc j] = seq_after 0 (take (Suc (Suc j)) ?down)"
    using numbered_nth [OF down(2) len] len by (simp add: take_Suc_conv_app_nth [of "Suc j"])
qed

lemma between_plays:
  assumes at: "between cfg a data d0 bs i (Suc j) k n" and j: "j < length (chunks data)" "i \<le> j"
    and sink: "takes_any cfg data d0" "subseq (bs @ [chunks data ! j]) (chunks data)" and size: "length data + 9 < 2 ^ 32"
  shows "\<exists>n'. possible a (Down (Suc j)) n \<and> occurs snk a [0, 0] (Down (Suc j)) n = Ok n' \<and>
    between cfg a data d0 (bs @ [chunks data ! j]) (Suc j) (Suc j) (k + 2) n'"
proof -
  obtain srv sbuf p s c buf where n: "net_server n = Inl (srv, sbuf)" "16 \<le> length sbuf"
    "sends srv p a s (drop (Suc j) (pieces data))" "s_seq s = seq_after 0 (down_flight a n)"
    "fresh k (s_ack s) (c_seq c) (up_flight n)"
    "net_client n = Inl (c, buf)" "16 + 1024 \<le> length buf" "hearing cfg d0 bs i (down_flight a n) c"
    "unat (c_seq c) \<le> 2 ^ 17 + 2 * length bs"
    and le: "net_up n \<le> length (up_packets n)" "net_down n \<le> length (down_packets a n)"
    and down: "list_all2 (is_piece cfg) (Config # take (Suc j) (pieces data)) (down_flight a n)" "numbered 0 (down_flight a n)"
    using at by (auto simp: between_def)
  let ?q = "down_flight a n ! Suc j" and ?b = "chunks data ! j"
  have c: "established c" "chunk_with (c_chunk c) [] = chunk_with (format_chunk cfg) []" "takes (format_chunk cfg) bs d0 c"
    using n(8) by (simp_all add: hearing_def)
  note new = between_new [OF at less_imp_le [OF j(1)] j(2) size n(6)]
  have piece: "is_piece cfg (Chunk ?b) ?q" "length [0 :: u8, 0] = 2"
    using new(2) by (simp_all add: pieces_nth(1) [OF j(1)])
  obtain c' buf' acks where r: "client_loop snk [Received (packet_bytes [0, 0] ?q)] (c, buf) = Ok (Inl (c', buf'))"
    "length buf' = length buf" "established c'" "chunk_with (c_chunk c') [] = chunk_with (format_chunk cfg) []"
    "takes (format_chunk cfg) (bs @ [?b]) d0 c'" "os_sent (c_os c') = os_sent (c_os c) @ map (Pair ()) acks"
    "numbered (c_seq c) acks" "list_all is_ack acks" "length acks = 2" "c_seq c' = seq_after (c_seq c) acks"
    "c_ack c' = seq_after (sent_seq ?q) [?q]"
    using listens_chunk [OF c(1,2) n(7) c(3) piece(1) new(3) piece(2) sink] by blast
  obtain n' where n': "occurs snk a [0, 0] (Down (Suc j)) n = Ok n'" "net_client n' = Inl (c', buf')" "net_server n' = net_server n"
    "net_down n' = net_down n" "down_packets a n' = down_packets a n" "down_flight a n' = down_flight a n"
    "up_flight n' = up_flight n @ acks" "net_up n' \<le> length (up_packets n')"
    using occurs_down [OF n(6) r(1) _ le(1), of acks] r(6) by auto
  have "hearing cfg d0 (bs @ [?b]) (Suc j) (down_flight a n) c'"
    using r(3-5,11) new(4) by (simp add: hearing_def)
  moreover have few: "unat (c_seq c) + length acks < 2 ^ 32"
    using n(9) r(9) list_emb_length [OF sink(2)] length_chunks [of data] size by simp
  then have "unat (c_seq c') \<le> 2 ^ 17 + 2 * length (bs @ [?b])"
    using acks_after [OF r(8)] r(9,10) n(9) by simp
  moreover have "fresh (k + 2) (s_ack s) (c_seq c') (up_flight n @ acks)"
    using fresh_more [OF n(5) r(7,8) few] by (simp only: r(9,10))
  then have "\<exists>srv sbuf p s. net_server n' = Inl (srv, sbuf) \<and> 16 \<le> length sbuf \<and>
      sends srv p a s (drop (Suc j) (pieces data)) \<and> s_seq s = seq_after 0 (down_flight a n') \<and>
      fresh (k + 2) (s_ack s) (c_seq (state_now (net_client n'))) (up_flight n')"
    using n'(2,3,6,7) n(1-4) by (intro exI [of _ srv] exI [of _ sbuf] exI [of _ p] exI [of _ s]) simp
  ultimately have "between cfg a data d0 (bs @ [?b]) (Suc j) (Suc j) (k + 2) n'"
    using n'(2,4-6,8) r(2) n(7) le(2) down unfolding between_def by auto
  then show ?thesis
    using n'(1) n(6) new(1) by (intro exI [of _ n']) simp
qed

lemma between_ends:
  assumes at: "between cfg a data d0 bs i (Suc (length (chunks data))) k n" and i: "i \<le> length (chunks data)"
    and size: "length data + 9 < 2 ^ 32"
  shows "\<exists>n' c'. possible a (Down (Suc (length (chunks data)))) n \<and>
    occurs snk a [0, 0] (Down (Suc (length (chunks data)))) n = Ok n' \<and> net_client n' = Inr (0, c') \<and>
    takes (format_chunk cfg) bs d0 c'"
proof -
  obtain c buf where c: "net_client n = Inl (c, buf)" "16 + 1024 \<le> length buf" "hearing cfg d0 bs i (down_flight a n) c"
    using at by (auto simp: between_def)
  note new = between_new [OF at le_refl i size c(1)]
  let ?q = "down_flight a n ! Suc (length (chunks data))"
  have q: "fin_packet ?q" "16 \<le> length buf" "length [0 :: u8, 0] = 2" "c_state c \<noteq> STATE_FINISHED"
    using new(2) c(2,3) by (simp_all add: pieces_nth(2) hearing_def established_def)
  from client_loop_fin [OF q(1) new(3) q(2-4), of snk "[]"]
  obtain c' where r: "client_loop snk [Received (packet_bytes [0, 0] ?q)] (c, buf) = Ok (Inr (0, c'))" "device c' = device c"
    by auto
  then show ?thesis
    using c(1,3) new(1) takes_end by (intro exI [of _ "n\<lparr>net_client := Inr (0, c')\<rparr>"] exI [of _ c'])
      (auto simp: hearing_def)
qed

text \<open>The first packets, none of which is lost.\<close>

lemma between_starts:
  assumes req: "request_sent cfg a data c0 d0 sb q n" "isl (net_client n)"
    and opens: "opens cfg a data sb q (c_seq (state_now (net_client n)))" "unat (c_seq (state_now (net_client n))) < 2 ^ 16"
  shows "\<exists>n1 n2. possible a (Up 0) n \<and> occurs snk a [0, 0] (Up 0) n = Ok n1 \<and>
    possible a (Down 0) n1 \<and> occurs snk a [0, 0] (Down 0) n1 = Ok n2 \<and> between cfg a data d0 [] 0 0 3 n2"
proof -
  obtain c buf where c: "net_client n = Inl (c, buf)" "16 + 1024 \<le> length buf" "asks cfg c0 d0 c"
    and n: "net_up n \<le> length (up_packets n)" "net_down n \<le> length (down_packets a n)" "net_server n = Inl sb"
    "up_flight n = [q]" "down_flight a n = []"
    using req by (cases "net_client n") (auto simp: request_sent_def listens_def)
  obtain srv' p s' sbuf' pk where r: "server_round (Datagram a (packet_bytes [0, 0] q)) sb = Ok (Inl (srv', sbuf'))"
    "16 \<le> length sbuf'" "os_sent srv' = os_sent (fst sb) @ map (Pair a) [pk]" "sent_seq pk = 0" "config_packet cfg pk"
    "s_seq s' = seq_after 0 [pk]" "s_ack s' = c_seq c" "sends srv' p a s' (pieces data)"
    using opens(1) c(1) unfolding opens_def by (metis length_Cons list.size(3) numeral_2_eq_2 state_now_simps(1))
  have i: "up_flight n ! 0 = q"
    by (simp add: n(4))
  obtain n1 where n1: "occurs snk a [0, 0] (Up 0) n = Ok n1" "net_server n1 = Inl (srv', sbuf')"
    "net_client n1 = Inl (c, buf)" "net_up n1 = net_up n" "up_packets n1 = up_packets n" "up_flight n1 = up_flight n"
    "down_flight a n1 = [pk]" "net_down n1 \<le> length (down_packets a n1)"
    using occurs_up [OF n(3) r(1) [folded i] r(3) n(2), of snk] n(5) c(1) by auto
  obtain c' buf' acks where s: "client_loop snk [Received (packet_bytes [0, 0] pk)] (c, buf) = Ok (Inl (c', buf'))"
    "length buf' = length buf" "established c'" "chunk_with (c_chunk c') [] = chunk_with (format_chunk cfg) []"
    "takes (format_chunk cfg) [] d0 c'" "os_sent (c_os c') = os_sent (c_os c) @ map (Pair ()) acks"
    "numbered (c_seq c) acks" "list_all is_ack acks" "length acks = 3" "c_seq c' = seq_after (c_seq c) acks"
    "c_ack c' = seq_after 0 [pk]"
    using asks_config [OF c(3,2) r(5,4), of "[0, 0]"] by (metis length_Cons list.size(3) numeral_2_eq_2)
  have j: "down_flight a n1 ! 0 = pk"
    by (simp add: n1(7))
  have le: "net_up n1 \<le> length (up_packets n1)"
    using n(1) n1(4,5) by simp
  obtain n2 where n2: "occurs snk a [0, 0] (Down 0) n1 = Ok n2" "net_client n2 = Inl (c', buf')" "net_server n2 = net_server n1"
    "net_down n2 = net_down n1" "down_packets a n2 = down_packets a n1" "down_flight a n2 = down_flight a n1"
    "up_flight n2 = up_flight n1 @ acks" "net_up n2 \<le> length (up_packets n2)"
    using occurs_down [OF n1(3) s(1) [folded j] _ le, of acks] s(6) by auto
  have "unat (c_seq c) + length acks < 2 ^ 32"
    using opens(2) c(1) s(9) by simp
  note after = acks_after [OF s(8) this]
  have "sent_seq q < c_seq c"
    using opens(1) c(1) by (simp add: opens_def)
  then have "fresh 3 (s_ack s') (c_seq c') (up_flight n2)"
    unfolding fresh_def using after n2(7) n1(6) n(4) s(7-10) r(7)
    by (intro conjI exI [of _ "[q]"] exI [of _ acks]) simp_all
  then have "\<exists>srv sbuf p s. net_server n2 = Inl (srv, sbuf) \<and> 16 \<le> length sbuf \<and>
      sends srv p a s (drop 0 (pieces data)) \<and> s_seq s = seq_after 0 (down_flight a n2) \<and>
      fresh 3 (s_ack s) (c_seq (state_now (net_client n2))) (up_flight n2)"
    using n2(2,3,6) n1(2,7) r(2,6,8) by (intro exI [of _ srv'] exI [of _ sbuf'] exI [of _ p] exI [of _ s']) simp
  then have "between cfg a data d0 [] 0 0 3 n2"
    using n2(2,4-6,8) n1(7,8) s(2-5,9-11) c(1,2) r(4,5) after opens(2) by (simp add: between_def hearing_def)
  with n1(1,2,3,7) n2(1) n(3,4) show ?thesis
    by (intro exI [of _ n1] exI [of _ n2]) simp
qed

text \<open>
  From there on, chunks arrive or are lost as \<open>ms\<close> says, as long as there are acknowledgements. The packets behind the last
  one that the client has taken are lost.
\<close>

lemma between_reaches:
  assumes "udp_run snk a lost n0 n" "between cfg a data d0 bs i j k n" "i \<le> j" "j + length ms \<le> length (chunks data)"
    and "credit k ms = Some k'" "subseq bs (take j (chunks data))" "{i<..j} \<subseteq> lost"
    and "\<And>m. m < length ms \<Longrightarrow> Suc (j + m) \<in> lost \<longleftrightarrow> \<not> ms ! m"
    and a: "addr_ok a" and sink: "takes_any cfg data d0" and size: "length data + 9 < 2 ^ 32"
  shows "\<exists>n' i'. udp_run snk a lost n0 n' \<and> i' \<le> j + length ms \<and> {i'<..j + length ms} \<subseteq> lost \<and>
    between cfg a data d0 (bs @ kept ms (drop j (chunks data))) i' (j + length ms) k' n'"
  using assms(1-8)
proof (induction ms arbitrary: n bs i j k)
  case Nil
  then show ?case
    by (intro exI [of _ n] exI [of _ i]) simp
next
  case (Cons m ms)
  then obtain k1 where k: "k = Suc k1"
    by (cases k) auto
  have j: "j < length (chunks data)" "drop j (chunks data) = chunks data ! j # drop (Suc j) (chunks data)"
    using Cons.prems(4) by (simp_all add: Cons_nth_drop_Suc)
  obtain u n1 where n1: "possible a (Up u) n" "occurs snk a [0, 0] (Up u) n = Ok n1" "between cfg a data d0 bs i (Suc j) k1 n1"
    using between_sends [OF Cons.prems(2) [unfolded k] a less_imp_le [OF j(1)] Cons.prems(3)] by blast
  have run: "udp_run snk a lost n0 n1"
    by (rule udp_run.step [OF Cons.prems(1) n1(1) _ _ n1(2)]) auto
  have first: "Suc j \<in> lost \<longleftrightarrow> \<not> m"
    using Cons.prems(8) [of 0] by simp
  have rest: "Suc (Suc j + i) \<in> lost \<longleftrightarrow> \<not> ms ! i" if "i < length ms" for i
    using Cons.prems(8) [of "Suc i"] that by simp
  show ?case
  proof (cases m)
    case True
    let ?bs = "bs @ [chunks data ! j]"
    have sub: "subseq ?bs (take (Suc j) (chunks data))"
      using Cons.prems(6) j(1) by (simp add: take_Suc_conv_app_nth)
    obtain n2 where n2: "possible a (Down (Suc j)) n1" "occurs snk a [0, 0] (Down (Suc j)) n1 = Ok n2"
      "between cfg a data d0 ?bs (Suc j) (Suc j) (k1 + 2) n2"
      using between_plays [OF n1(3) j(1) Cons.prems(3) sink subseq_take [OF sub] size] by blast
    have "udp_run snk a lost n0 n2"
      by (rule udp_run.step [OF run n2(1) _ _ n2(2)]) (use first True in auto)
    from Cons.IH [OF this n2(3) le_refl _ _ sub _ rest] Cons.prems(4,5) k True show ?thesis
      by (simp add: j(2))
  next
    case False
    have sub: "subseq bs (take (Suc j) (chunks data))"
      using Cons.prems(6) j(1) by (simp add: take_Suc_conv_app_nth subseq_rev_drop_many)
    have "{i<..Suc j} \<subseteq> lost"
      using Cons.prems(7) first False by (auto simp: le_Suc_eq)
    from Cons.IH [OF run n1(3) _ _ _ sub this rest] Cons.prems(3-5) k False show ?thesis
      by (simp add: j(2))
  qed
qed

lemma udp_starts:
  assumes srv: "can_serve srv a name w data" "length name < 2 ^ 15 - 1" "0 \<notin> set name" "17 + length name \<le> length sbuf"
    and c: "os_send_error (c_os c) = (\<lambda>_. None)" "c_seq c = 0" "c_ack c = 0" "16 + 1024 \<le> length buf"
    and play: "play (format_chunk (server_cfg srv w)) (create_logic snk c) = Ok (True, d0)"
    and start: "net_start a name (c, buf) (srv, sbuf) = Ok n0" and lost: "0 \<notin> lost"
  shows "\<exists>n. udp_run snk a lost n0 n \<and> between (server_cfg srv w) a data d0 [] 0 0 3 n"
proof -
  let ?cfg = "server_cfg srv w"
  obtain q where q: "request_sent ?cfg a data c d0 (srv, sbuf) q n0" "opens ?cfg a data (srv, sbuf) q (c_seq (state_now (net_client n0)))"
    "unat (c_seq (state_now (net_client n0))) < 2 ^ 16"
    using request_starts [OF srv c play start] by blast
  have "isl (net_client n0)"
    using client_syn [OF c(1) srv(2)] start by (auto simp: net_start_def)
  from between_starts [OF q(1) this q(2,3)]
  obtain n1 n2 where n: "possible a (Up 0) n0" "occurs snk a [0, 0] (Up 0) n0 = Ok n1" "possible a (Down 0) n1"
    "occurs snk a [0, 0] (Down 0) n1 = Ok n2" "between ?cfg a data d0 [] 0 0 3 n2"
    by blast
  have "udp_run snk a lost n0 n1"
    by (rule udp_run.step [OF udp_run.start n(1) _ _ n(2)]) auto
  then have "udp_run snk a lost n0 n2"
    by (rule udp_run.step [OF _ n(3) _ _ n(4)]) (use lost in auto)
  with n(5) show ?thesis by blast
qed

lemma udp_loses:
  assumes srv: "can_serve srv a name w data" "length name < 2 ^ 15 - 1" "0 \<notin> set name" "17 + length name \<le> length sbuf"
    and c: "os_send_error (c_os c) = (\<lambda>_. None)" "c_seq c = 0" "c_ack c = 0" "16 + 1024 \<le> length buf"
    and play: "play (format_chunk (server_cfg srv w)) (create_logic snk c) = Ok (True, d0)"
    and sink: "takes_any (server_cfg srv w) data d0" and size: "length data + 9 < 2 ^ 32"
    and start: "net_start a name (c, buf) (srv, sbuf) = Ok n0"
    and ms: "length ms \<le> length (chunks data)" "credit 3 ms = Some k"
  shows "\<exists>n i. udp_run snk a (holes ms) n0 n \<and> i \<le> length ms \<and> {i<..length ms} \<subseteq> holes ms \<and>
    between (server_cfg srv w) a data d0 (kept ms (chunks data)) i (length ms) k n"
proof -
  let ?cfg = "server_cfg srv w"
  have "0 \<notin> holes ms"
    by (simp add: in_holes)
  then obtain n where n: "udp_run snk a (holes ms) n0 n" "between ?cfg a data d0 [] 0 0 3 n"
    using udp_starts [OF srv c play start] by blast
  have a: "addr_ok a"
    using srv(1) by (simp add: can_serve_def)
  have "Suc (0 + m) \<in> holes ms \<longleftrightarrow> \<not> ms ! m" if "m < length ms" for m
    using that by (auto simp: in_holes)
  from between_reaches [OF n le_refl _ ms(2) _ _ this a sink size] ms(1) show ?thesis
    by simp
qed

lemma udp_loses_all:
  assumes srv: "can_serve srv a name w data" "length name < 2 ^ 15 - 1" "0 \<notin> set name" "17 + length name \<le> length sbuf"
    and c: "os_send_error (c_os c) = (\<lambda>_. None)" "c_seq c = 0" "c_ack c = 0" "16 + 1024 \<le> length buf"
    and play: "play (format_chunk (server_cfg srv w)) (create_logic snk c) = Ok (True, d0)"
    and sink: "takes_any (server_cfg srv w) data d0" and size: "length data + 9 < 2 ^ 32"
    and start: "net_start a name (c, buf) (srv, sbuf) = Ok n0"
    and ms: "length ms = length (chunks data)" "credit 3 ms = Some (Suc k)"
  shows "\<exists>n c'. udp_run snk a (holes ms) n0 n \<and> net_client n = Inr (0, c') \<and>
    takes (format_chunk (server_cfg srv w)) (kept ms (chunks data)) d0 c'"
proof -
  let ?cfg = "server_cfg srv w" and ?l = "length (chunks data)"
  obtain n i where n: "udp_run snk a (holes ms) n0 n" "i \<le> ?l" "between ?cfg a data d0 (kept ms (chunks data)) i ?l (Suc k) n"
    using udp_loses [OF srv c play sink size start _ ms(2)] ms(1) by auto
  have a: "addr_ok a"
    using srv(1) by (simp add: can_serve_def)
  obtain u n1 where n1: "possible a (Up u) n" "occurs snk a [0, 0] (Up u) n = Ok n1"
    "between ?cfg a data d0 (kept ms (chunks data)) i (Suc ?l) k n1"
    using between_sends [OF n(3) a le_refl n(2)] by blast
  have run: "udp_run snk a (holes ms) n0 n1"
    by (rule udp_run.step [OF n(1) n1(1) _ _ n1(2)]) auto
  obtain n2 c' where n2: "possible a (Down (Suc ?l)) n1" "occurs snk a [0, 0] (Down (Suc ?l)) n1 = Ok n2"
    "net_client n2 = Inr (0, c')" "takes (format_chunk ?cfg) (kept ms (chunks data)) d0 c'"
    using between_ends [OF n1(3) n(2) size] by blast
  have "udp_run snk a (holes ms) n0 n2"
    by (rule udp_run.step [OF run n2(1) _ _ n2(2)]) (use ms(1) in \<open>auto simp: in_holes\<close>)
  with n2(3,4) show ?thesis by blast
qed

section \<open>Streams that stall\<close>

text \<open>
  No acknowledgement is left, and of the packets from the server only the first ones, up to the last that the client has taken,
  can still arrive: the server waits, and the client too until it gives up.
\<close>

definition idle :: "sockaddr6 \<Rightarrow> packet list \<Rightarrow> server \<times> bytes + i32 \<times> server \<Rightarrow> bool" where
  "idle a up r \<longleftrightarrow> (\<exists>srv sbuf p s todo. r = Inl (srv, sbuf) \<and> 16 \<le> length sbuf \<and> sends srv p a s todo \<and>
     list_all (\<lambda>q. sent_seq q < s_ack s) up)"

definition stalled :: "sockaddr6 \<Rightarrow> packet list \<Rightarrow> packet list \<Rightarrow> 'a client_scheme \<Rightarrow>
    'a client_scheme network \<Rightarrow> bool" where
  "stalled a up down c n \<longleftrightarrow> net_up n \<le> length (up_packets n) \<and> net_down n \<le> length (down_packets a n) \<and>
     up_flight n = up \<and> down_flight a n = down \<and>
     idle a up (net_server n) \<and>
     (net_client n = Inr (ETIMEDOUT, c) \<or> (\<exists>buf. net_client n = Inl (c, buf) \<and> 16 + 1024 \<le> length buf))"

lemma stalled_up:
  assumes st: "stalled a up down c n" and a: "addr_ok a" and i: "i < length up" and pad: "length pad = 2"
  shows "\<exists>n'. occurs snk a pad (Up i) n = Ok n' \<and> stalled a up down c n'"
proof -
  obtain srv sbuf p s todo where s: "net_server n = Inl (srv, sbuf)" "16 \<le> length sbuf" "sends srv p a s todo"
    "list_all (\<lambda>q. sent_seq q < s_ack s) up"
    using st by (auto simp: stalled_def idle_def)
  have n: "net_up n \<le> length (up_packets n)" "net_down n \<le> length (down_packets a n)" "up_flight n = up" "down_flight a n = down"
    "net_client n = Inr (ETIMEDOUT, c) \<or> (\<exists>buf. net_client n = Inl (c, buf) \<and> 16 + 1024 \<le> length buf)"
    using st by (simp_all add: stalled_def)
  have "sent_seq (up_flight n ! i) < s_ack s"
    using s(4) i by (simp add: n(3) list_all_length)
  from server_ignores [OF s(3) a s(2) this pad]
  obtain srv' s' sbuf' where r: "server_round (Datagram a (packet_bytes pad (up_flight n ! i))) (srv, sbuf) = Ok (Inl (srv', sbuf'))"
    "length sbuf' = length sbuf" "os_sent srv' = os_sent srv" "s_ack s' = s_ack s" "sends srv' p a s' todo"
    by blast
  have "os_sent srv' = os_sent (fst (srv, sbuf)) @ map (Pair a) []"
    using r(3) by simp
  from occurs_up [OF s(1) r(1) this n(2), of snk]
  obtain n' where n': "occurs snk a pad (Up i) n = Ok n'" "net_server n' = Inl (srv', sbuf')" "net_client n' = net_client n"
    "net_up n' = net_up n" "up_packets n' = up_packets n" "up_flight n' = up_flight n" "down_flight a n' = down_flight a n"
    "net_down n' \<le> length (down_packets a n')"
    by auto
  have "idle a up (net_server n')"
    unfolding idle_def
    using n'(2) r(2,4,5) s(2,4) by (intro exI [of _ srv'] exI [of _ sbuf'] exI [of _ p] exI [of _ s'] exI [of _ todo]) simp
  then have "stalled a up down c n'"
    unfolding stalled_def using n'(3-8) n by simp
  with n'(1) show ?thesis by blast
qed

lemma stalled_client:
  assumes st: "stalled a up down c n" and c: "net_client n = Inl (c, buf)" "c_state c \<noteq> STATE_FINISHED"
  shows "occurs snk a pad Give_Up n = Ok n' \<Longrightarrow> stalled a up down c n'"
    and "i < length down \<Longrightarrow> packet_ok (down ! i) \<Longrightarrow> sent_seq (down ! i) < c_ack c \<Longrightarrow> length pad = 2 \<Longrightarrow>
      \<exists>n'. occurs snk a pad (Down i) n = Ok n' \<and> stalled a up down c n'"
proof -
  have n: "net_up n \<le> length (up_packets n)" "net_down n \<le> length (down_packets a n)" "up_flight n = up" "down_flight a n = down"
    "16 + 1024 \<le> length buf" "idle a up (net_server n)"
    using st c(1) by (simp_all add: stalled_def)
  show "stalled a up down c n'" if "occurs snk a pad Give_Up n = Ok n'"
    using that c n by (auto simp: stalled_def up_flight_def up_packets_def down_flight_def down_packets_def)
  show "\<exists>n'. occurs snk a pad (Down i) n = Ok n' \<and> stalled a up down c n'"
    if i: "i < length down" "packet_ok (down ! i)" "sent_seq (down ! i) < c_ack c" "length pad = 2"
  proof -
    obtain buf' where r: "client_loop snk [Received (packet_bytes pad (down_flight a n ! i))] (c, buf) = Ok (Inl (c, buf'))"
      "length buf' = length buf"
      using client_ignores [OF c(2) n(5) i(2-4)] by (auto simp only: n(4))
    have "os_sent (c_os (state_now (Inl (c, buf')))) = os_sent (c_os (fst (c, buf))) @ map (Pair ()) []"
      by simp
    from occurs_down [OF c(1) r(1) this n(1)]
    obtain n' where "occurs snk a pad (Down i) n = Ok n'" "net_client n' = Inl (c, buf')" "net_server n' = net_server n"
      "net_down n' = net_down n" "down_packets a n' = down_packets a n" "down_flight a n' = down_flight a n"
      "up_flight n' = up_flight n" "net_up n' \<le> length (up_packets n')"
      by auto
    with n r(2) show ?thesis
      by (intro exI [of _ n']) (simp add: stalled_def)
  qed
qed

lemma stalled_run:
  assumes run: "udp_run snk a lost n0 n" and st: "stalled a up down c n0" and a: "addr_ok a"
    and down: "list_all packet_ok down" "\<And>i. i < length down \<Longrightarrow> i \<notin> lost \<Longrightarrow> sent_seq (down ! i) < c_ack c"
    and c: "c_state c \<noteq> STATE_FINISHED"
  shows "stalled a up down c n"
  using run
proof induction
  case start
  show ?case by (rule st)
next
  case (step n h pad n')
  note flights = step.IH [unfolded stalled_def]
  show ?case
  proof (cases h)
    case (Up i)
    then have "i < length up"
      using step.hyps(2) flights by auto
    from stalled_up [OF step.IH a this step.hyps(4)] show ?thesis
      using step.hyps(5) Up by auto
  next
    case (Down i)
    then have i: "i < length down" "i \<notin> lost" and "isl (net_client n)"
      using step.hyps(2,3) flights by auto
    then obtain buf where "net_client n = Inl (c, buf)"
      using flights by auto
    from stalled_client(2) [OF step.IH this c i(1) _ down(2) [OF i] step.hyps(4)] down(1) i(1) show ?thesis
      using step.hyps(5) Down by (auto simp: list_all_length)
  next
    case Give_Up
    then obtain buf where "net_client n = Inl (c, buf)"
      using step.hyps(2) flights by auto
    from stalled_client(1) [OF step.IH this c] step.hyps(5) Give_Up show ?thesis
      by blast
  qed
qed

lemma between_stalls:
  assumes at: "between cfg a data d0 bs i j 0 n" and ij: "i \<le> j" "j \<le> length (chunks data)" and size: "length data + 9 < 2 ^ 32"
  shows "\<exists>c buf. net_client n = Inl (c, buf) \<and> stalled a (up_flight n) (down_flight a n) c n \<and>
    takes (format_chunk cfg) bs d0 c \<and> c_state c \<noteq> STATE_FINISHED \<and> length (down_flight a n) = Suc j \<and>
    list_all packet_ok (down_flight a n) \<and> (\<forall>m \<le> i. sent_seq (down_flight a n ! m) < c_ack c)"
proof -
  let ?down = "down_flight a n" and ?sent = "Config # take j (pieces data)"
  obtain srv sbuf p s c buf where n: "net_server n = Inl (srv, sbuf)" "16 \<le> length sbuf"
    "sends srv p a s (drop j (pieces data))" "fresh 0 (s_ack s) (c_seq c) (up_flight n)"
    "net_client n = Inl (c, buf)" "16 + 1024 \<le> length buf" "hearing cfg d0 bs i ?down c"
    and le: "net_up n \<le> length (up_packets n)" "net_down n \<le> length (down_packets a n)"
    and down: "list_all2 (is_piece cfg) ?sent ?down" "numbered 0 ?down"
    using at by (auto simp: between_def)
  have len: "length ?down = Suc j"
    using list_all2_lengthD [OF down(1)] ij(2) by simp
  have "?sent @ drop j (pieces data) = Config # pieces data"
    by simp
  note ok = span_sent [OF down(1) this]
  have "sent_seq (?down ! m) < c_ack c" if "m \<le> i" for m
    using numbered_order [OF down(2) ok(1), of m "Suc i"] ok(2) size that ij(1) len n(7) by (simp add: hearing_def)
  moreover have "stalled a (up_flight n) ?down c n"
    using n(1-6) le fresh_none [OF n(4)] unfolding stalled_def idle_def by auto
  ultimately show ?thesis
    using n(5,7) ok(1) len by (intro exI [of _ c] exI [of _ buf]) (simp add: hearing_def established_def)
qed

lemma udp_stalls:
  assumes srv: "can_serve srv a name w data" "length name < 2 ^ 15 - 1" "0 \<notin> set name" "17 + length name \<le> length sbuf"
    and c: "os_send_error (c_os c) = (\<lambda>_. None)" "c_seq c = 0" "c_ack c = 0" "16 + 1024 \<le> length buf"
    and play: "play (format_chunk (server_cfg srv w)) (create_logic snk c) = Ok (True, d0)"
    and sink: "takes_any (server_cfg srv w) data d0" and size: "length data + 9 < 2 ^ 32"
    and start: "net_start a name (c, buf) (srv, sbuf) = Ok n0"
    and ms: "length ms \<le> length (chunks data)" "credit 3 ms = Some 0"
  shows "\<exists>n c' buf'. udp_run snk a (holes ms) n0 n \<and> net_client n = Inl (c', buf') \<and>
    takes (format_chunk (server_cfg srv w)) (kept ms (chunks data)) d0 c' \<and> length (down_flight a n) = Suc (length ms) \<and>
    (\<forall>n'. udp_run snk a (holes ms) n n' \<longrightarrow> down_flight a n' = down_flight a n \<and>
      (net_client n' = Inr (ETIMEDOUT, c') \<or> (\<exists>buf'. net_client n' = Inl (c', buf'))))"
proof -
  let ?cfg = "server_cfg srv w"
  obtain n i where n: "udp_run snk a (holes ms) n0 n" "i \<le> length ms" "{i<..length ms} \<subseteq> holes ms"
    "between ?cfg a data d0 (kept ms (chunks data)) i (length ms) 0 n"
    using udp_loses [OF srv c play sink size start ms] by blast
  obtain c' buf' where s: "net_client n = Inl (c', buf')" "stalled a (up_flight n) (down_flight a n) c' n"
    "takes (format_chunk ?cfg) (kept ms (chunks data)) d0 c'" "c_state c' \<noteq> STATE_FINISHED"
    "length (down_flight a n) = Suc (length ms)" "list_all packet_ok (down_flight a n)"
    "\<forall>m \<le> i. sent_seq (down_flight a n ! m) < c_ack c'"
    using between_stalls [OF n(4,2) ms(1) size] by blast
  have a: "addr_ok a"
    using srv(1) by (simp add: can_serve_def)
  have "sent_seq (down_flight a n ! m) < c_ack c'" if "m < length (down_flight a n)" "m \<notin> holes ms" for m
  proof -
    have "m \<le> i"
      using that s(5) subsetD [OF n(3), of m] by (cases "m \<le> i") simp_all
    with s(7) show ?thesis by blast
  qed
  then have "stalled a (up_flight n) (down_flight a n) c' n'" if "udp_run snk a (holes ms) n n'" for n'
    using stalled_run [OF that s(2) a s(6) _ s(4)] by blast
  then show ?thesis
    using n(1) s(1,3,5) by (intro exI [of _ n] exI [of _ c'] exI [of _ buf']) (auto simp: stalled_def)
qed

end

section \<open>Properties\<close>

text \<open>C2. A file over UDP: whatever packets of the conversation are lost, duplicated or overtaken,
  and whenever the client gives up, the device has been given chunks of the file in their order and each at most once
  (each without its last eight bytes), the server still runs, and a client that has returned has returned 0 or a timeout. The
  device can be opened, accepts every setting and takes each chunk as a whole, and descriptor 0 is in use
  (\<open>willing\<close>), the last chunk of the file is longer than eight bytes
  (\<open>no_short_chunk\<close>), and the file is below 4 GiB, so that no sequence number comes twice.\<close>

theorem udp_played_in_order:
  assumes "can_serve srv a name w data" "no_short_chunk data" "length data + 9 < 2 ^ 32" "willing c" "c_seq c = 0" "c_ack c = 0"
    and "os_send_error (c_os c) = (\<lambda>_. None)" "length name < 2 ^ 15 - 1" "0 \<notin> set name"
    and "length sbuf = buffer_size" "17 + length name \<le> buffer_size" "length buf = client_buffer_size"
    and "net_start a name (c, buf) (srv, sbuf) = Ok n0" "udp_run sas_drivers_oss a lost n0 n"
  shows "\<exists>bs. subseq bs (chunks data) \<and> oss_writes (state_now (net_client n)) = oss_writes c @ map trim bs \<and>
    (\<exists>es. sas_client_receive sas_drivers_oss name es (c, buf) = Ok (net_client n)) \<and> isl (net_server n) \<and>
    (isl (net_client n) \<or> fst (projr (net_client n)) \<in> {0, ETIMEDOUT})"
proof -
  obtain d0 where d0: "oss_play (format_chunk (server_cfg srv w)) (create_logic sas_drivers_oss c) = Ok (True, d0)"
    "oss.takes_any (server_cfg srv w) data d0"
    "\<forall>bs d. subseq bs (chunks data) \<longrightarrow> oss.takes (format_chunk (server_cfg srv w)) bs d0 d \<longrightarrow> oss_writes d = oss_writes c @ map trim bs"
    using oss_takes_any [OF assms(4,2)] by blast
  have buf: "17 + length name \<le> length sbuf" "16 + 1024 \<le> length buf"
    using assms(10-12) by (simp_all add: client_buffer_size_def)
  note safe = oss.udp_safe [OF assms(1,8,9) buf(1) assms(7,5,6) buf(2) d0(1,2) assms(3,13,14)]
  obtain bs where "subseq bs (chunks data)" "oss_writes (state_now (net_client n)) = oss_writes c @ map trim bs"
    using safe(2) d0(3) by (force simp: oss.given_def device_oss)
  moreover have "isl (net_client n) \<or> fst (projr (net_client n)) \<in> {0, ETIMEDOUT}"
    using safe(3) by (cases "net_client n") auto
  ultimately show ?thesis
    using safe(4) udp_run_programs [OF assms(13,14)] by blast
qed


text \<open>C4. What is lost is not sent again: for any choice of at most two chunks of the file there is a
  run after which the device has been given exactly the others, and the client has returned 0 as for the whole file. As in C2, the
  device can be opened, accepts every setting and takes each chunk as a whole, descriptor 0 is in use (\<open>willing\<close>), the last chunk of the file is longer than
  eight bytes (\<open>no_short_chunk\<close>), and the file is below 4 GiB.\<close>

theorem lost_chunks_unnoticed:
  assumes "can_serve srv a name w data" "no_short_chunk data" "length data + 9 < 2 ^ 32" "willing c" "c_seq c = 0" "c_ack c = 0"
    and "os_send_error (c_os c) = (\<lambda>_. None)" "length name < 2 ^ 15 - 1" "0 \<notin> set name"
    and "length sbuf = buffer_size" "17 + length name \<le> buffer_size" "length buf = client_buffer_size"
    and "net_start a name (c, buf) (srv, sbuf) = Ok n0"
    and "length ms = length (chunks data)" "length (filter Not ms) \<le> 2"
  shows "\<exists>n c'. udp_run sas_drivers_oss a (holes ms) n0 n \<and> net_client n = Inr (0, c') \<and>
    oss_writes c' = oss_writes c @ map trim (kept ms (chunks data))"
proof -
  obtain d0 where d0: "oss_play (format_chunk (server_cfg srv w)) (create_logic sas_drivers_oss c) = Ok (True, d0)"
    "oss.takes_any (server_cfg srv w) data d0"
    "\<forall>bs d. subseq bs (chunks data) \<longrightarrow> oss.takes (format_chunk (server_cfg srv w)) bs d0 d \<longrightarrow> oss_writes d = oss_writes c @ map trim bs"
    using oss_takes_any [OF assms(4,2)] by blast
  have buf: "17 + length name \<le> length sbuf" "16 + 1024 \<le> length buf"
    using assms(10-12) by (simp_all add: client_buffer_size_def)
  obtain k where "credit 3 ms = Some (Suc k)"
    using credit_left [of ms 3] assms(15) by auto
  from oss.udp_loses_all [OF assms(1,8,9) buf(1) assms(7,5,6) buf(2) d0(1,2) assms(3,13,14) this] d0(3) subseq_kept
  show ?thesis
    by blast
qed

text \<open>C5. A stream can come to a halt for good: where the chunks that are lost use up the acknowledgements (the first three
  chunks, say), the server sends nothing any more, whatever else arrives and however often, and the client waits with what
  it was given so far until it gives up. The device, the last chunk
  and the size of the file are as in C2.\<close>

theorem losses_stall:
  assumes "can_serve srv a name w data" "no_short_chunk data" "length data + 9 < 2 ^ 32" "willing c" "c_seq c = 0" "c_ack c = 0"
    and "os_send_error (c_os c) = (\<lambda>_. None)" "length name < 2 ^ 15 - 1" "0 \<notin> set name"
    and "length sbuf = buffer_size" "17 + length name \<le> buffer_size" "length buf = client_buffer_size"
    and "net_start a name (c, buf) (srv, sbuf) = Ok n0"
    and "length ms \<le> length (chunks data)" "credit 3 ms = Some 0"
  shows "\<exists>n c' buf'. udp_run sas_drivers_oss a (holes ms) n0 n \<and> net_client n = Inl (c', buf') \<and>
    oss_writes c' = oss_writes c @ map trim (kept ms (chunks data)) \<and> length (down_flight a n) = Suc (length ms) \<and>
    (\<forall>n'. udp_run sas_drivers_oss a (holes ms) n n' \<longrightarrow> down_flight a n' = down_flight a n \<and>
      (net_client n' = Inr (ETIMEDOUT, c') \<or> (\<exists>buf'. net_client n' = Inl (c', buf'))))"
proof -
  obtain d0 where d0: "oss_play (format_chunk (server_cfg srv w)) (create_logic sas_drivers_oss c) = Ok (True, d0)"
    "oss.takes_any (server_cfg srv w) data d0"
    "\<forall>bs d. subseq bs (chunks data) \<longrightarrow> oss.takes (format_chunk (server_cfg srv w)) bs d0 d \<longrightarrow> oss_writes d = oss_writes c @ map trim bs"
    using oss_takes_any [OF assms(4,2)] by blast
  have buf: "17 + length name \<le> length sbuf" "16 + 1024 \<le> length buf"
    using assms(10-12) by (simp_all add: client_buffer_size_def)
  from oss.udp_stalls [OF assms(1,8,9) buf(1) assms(7,5,6) buf(2) d0(1,2) assms(3,13-15)] d0(3) subseq_kept
  show ?thesis
    by blast
qed

section \<open>Witnesses\<close>

lemma example_udp:
  "\<exists>n0. net_start (example_addr 1) [0x61] (example_oss, example_client_buffer) (ten_bytes_server, example_server_buffer) = Ok n0 \<and>
    possible (example_addr 1) (Up 0) n0"
  using example_exchange unfolding enabled_flight(1) by auto

lemma example_seq: "length (replicate 10 (7 :: u8)) + 9 < 2 ^ 32" "c_seq example_oss = 0"
  by simp_all

lemmas example_udp_premises = ten_bytes_ready example_ten(1) example_seq(1) example_oss_simps(6) example_seq(2) example_oss_simps(4)

text \<open>A run in which the only chunk of the file is lost.\<close>

lemma example_loss:
  "\<exists>n0 n c'. net_start (example_addr 1) [0x61] (example_oss, example_client_buffer) (ten_bytes_server, example_server_buffer) = Ok n0 \<and>
    possible (example_addr 1) (Up 0) n0 \<and> udp_run sas_drivers_oss (example_addr 1) (holes [False]) n0 n \<and> net_client n = Inr (0, c')"
proof -
  obtain n0 where n: "net_start (example_addr 1) [0x61] (example_oss, example_client_buffer)
      (ten_bytes_server, example_server_buffer) = Ok n0" "possible (example_addr 1) (Up 0) n0"
    using example_udp by blast
  let ?cfg = "server_cfg ten_bytes_server example_wav"
  obtain d0 where d0: "oss_play (format_chunk ?cfg) (create_logic sas_drivers_oss example_oss) = Ok (True, d0)"
    "oss.takes_any ?cfg (replicate 10 7) d0"
    using oss_takes_any [OF example_oss_simps(6) example_ten(1)] by blast
  have "\<exists>n c'. udp_run sas_drivers_oss (example_addr 1) (holes [False]) n0 n \<and> net_client n = Inr (0, c') \<and>
      oss.takes (format_chunk ?cfg) (kept [False] (chunks (replicate 10 7))) d0 c'"
    by (rule oss.udp_loses_all [OF ten_bytes_ready _ _ _ _ _ _ _ d0 _ n(1), of _ 1])
      (simp_all add: buffer_size_def client_buffer_size_def example_ten(2) numeral_3_eq_3)
  with n show ?thesis by blast
qed

theorem udp_played_in_order_witness:
  "\<exists>n0 n c' bs. net_start (example_addr 1) [0x61] (example_oss, example_client_buffer) (ten_bytes_server, example_server_buffer) = Ok n0 \<and>
    udp_run sas_drivers_oss (example_addr 1) (holes [False]) n0 n \<and> net_client n = Inr (0, c') \<and>
    subseq bs [replicate 10 7] \<and> oss_writes c' = map trim bs"
proof -
  obtain n0 n c' where n: "net_start (example_addr 1) [0x61] (example_oss, example_client_buffer)
      (ten_bytes_server, example_server_buffer) = Ok n0" "udp_run sas_drivers_oss (example_addr 1) (holes [False]) n0 n" "net_client n = Inr (0, c')"
    using example_loss by blast
  have "\<exists>bs. subseq bs (chunks (replicate 10 7)) \<and> oss_writes (state_now (net_client n)) = oss_writes example_oss @ map trim bs \<and>
    (\<exists>es. sas_client_receive sas_drivers_oss [0x61] es (example_oss, example_client_buffer) = Ok (net_client n)) \<and>
    isl (net_server n) \<and> (isl (net_client n) \<or> fst (projr (net_client n)) \<in> {0, ETIMEDOUT})"
    by (rule udp_played_in_order [OF example_udp_premises _ _ _ _ _ _ n(1,2)]) (simp_all add: buffer_size_def)
  then show ?thesis
    using n by (auto simp: example_ten(2))
qed


theorem lost_chunks_unnoticed_witness:
  "\<exists>n0 n c'. net_start (example_addr 1) [0x61] (example_oss, example_client_buffer) (ten_bytes_server, example_server_buffer) = Ok n0 \<and>
    udp_run sas_drivers_oss (example_addr 1) (holes [False]) n0 n \<and> net_client n = Inr (0, c') \<and> oss_writes c' = []"
proof -
  obtain n0 where n: "net_start (example_addr 1) [0x61] (example_oss, example_client_buffer)
      (ten_bytes_server, example_server_buffer) = Ok n0"
    using example_udp by blast
  have "\<exists>n c'. udp_run sas_drivers_oss (example_addr 1) (holes [False]) n0 n \<and> net_client n = Inr (0, c') \<and>
      oss_writes c' = oss_writes example_oss @ map trim (kept [False] (chunks (replicate 10 7)))"
    by (rule lost_chunks_unnoticed [OF example_udp_premises _ _ _ _ _ _ n]) (simp_all add: buffer_size_def example_ten(2))
  then show ?thesis
    using n by (auto simp: example_ten(2))
qed

text \<open>A file of three chunks, all of which are lost.\<close>

lemma example_three:
  "no_short_chunk (replicate 3072 7)" "chunks (replicate 3072 7) = replicate 3 (replicate 1024 7)"
  "length (replicate 3072 (7 :: u8)) + 9 < 2 ^ 32"
  by (simp_all add: no_short_chunk_def numeral_3_eq_3)

theorem losses_stall_witness:
  "\<exists>n0 n c' buf'. net_start (example_addr 1) [0x61] (example_oss, example_client_buffer)
      (file_server (replicate 3072 7), example_server_buffer) = Ok n0 \<and>
    udp_run sas_drivers_oss (example_addr 1) (holes [False, False, False]) n0 n \<and> net_client n = Inl (c', buf') \<and>
    oss_writes c' = [] \<and> length (down_flight (example_addr 1) n) = 4"
proof -
  obtain n0 where n: "net_start (example_addr 1) [0x61] (example_oss, example_client_buffer)
      (file_server (replicate 3072 7), example_server_buffer) = Ok n0"
    using client_syn [of example_oss "[0x61]"] by (auto simp: net_start_def)
  have "\<exists>n c' buf'. udp_run sas_drivers_oss (example_addr 1) (holes [False, False, False]) n0 n \<and> net_client n = Inl (c', buf') \<and>
      oss_writes c' = oss_writes example_oss @ map trim (kept [False, False, False] (chunks (replicate 3072 7))) \<and>
      length (down_flight (example_addr 1) n) = Suc (length [False, False, False]) \<and>
      (\<forall>n'. udp_run sas_drivers_oss (example_addr 1) (holes [False, False, False]) n n' \<longrightarrow>
        down_flight (example_addr 1) n' = down_flight (example_addr 1) n \<and>
        (net_client n' = Inr (ETIMEDOUT, c') \<or> (\<exists>buf'. net_client n' = Inl (c', buf'))))"
    by (rule losses_stall [OF file_server_ready example_three(1,3) example_oss_simps(6) example_seq(2) example_oss_simps(4) _ _ _ _ _ _ n])
      (simp_all add: buffer_size_def example_three(2) numeral_3_eq_3)
  then show ?thesis
    using n by (auto simp: example_three(2) numeral_3_eq_3)
qed

end
